(* ===== verification/Prelude.thy ===== *)
theory Prelude
  imports Main "HOL-Library.Word" "HOL-Library.AList" "HOL-Library.Monad_Syntax"
begin

text \<open>
  Shared vocabulary of the ledger development: the widths of the C++ integer types, signed
  readings of 64-bit words, little-endian byte images of words (what a \<open>memcpy\<close> of an integer
  produces on the x86\_64/aarch64 targets the engine names), a bounds-checked view of
  \<open>memcpy\<close> into and out of byte buffers, and generic list lemmas.

  Computations that could leave the defined behaviour of C++ (an out-of-bounds access, a null
  dereference) or that could loop are in the option monad: \<open>None\<close> stands for undefined
  behaviour or divergence, so a theorem of the form \<open>f x = Some y\<close> states both that the code
  returns and that it stays within its buffers.
\<close>

unbundle bit_operations_syntax

type_synonym byte = "8 word"
type_synonym u16 = "16 word"
type_synonym u32 = "32 word"
type_synonym u64 = "64 word"
type_synonym i64 = "64 word"

named_theorems codec_simps \<open>rules that evaluate byte encoders and decoders\<close>
named_theorems frame_simps \<open>fields that an operation leaves alone\<close>

section \<open>Signed 64-bit readings\<close>

definition i64_max :: i64 where
  "i64_max = 0x7FFFFFFFFFFFFFFF"

definition i64_min :: i64 where
  "i64_min = 0x8000000000000000"

definition in_i64 :: "int \<Rightarrow> bool" where
  "in_i64 k \<longleftrightarrow> - (2 ^ 63) \<le> k \<and> k < 2 ^ 63"

lemma sint_i64_max [simp]: "sint i64_max = 2 ^ 63 - 1"
  by (simp add: i64_max_def)

lemma sint_i64_min [simp]: "sint i64_min = - (2 ^ 63)"
  by (simp add: i64_min_def)

lemma in_i64_sint [simp]: "in_i64 (sint (w :: i64))"
  using sint_ge [of w] sint_lt [of w] by (simp add: in_i64_def)

lemma sint_eq_iff: "sint v = sint w \<longleftrightarrow> v = (w :: 'a::len word)"
  by (auto intro: signed_word_eqI)

lemma sint_of_int_i64: "in_i64 k \<Longrightarrow> sint (of_int k :: i64) = k"
  by (simp add: in_i64_def sint_sbintrunc' signed_take_bit_int_eq_self)

lemma sint_add_i64: "in_i64 (sint a + sint b) \<Longrightarrow> sint (a + b :: i64) = sint a + sint b"
proof -
  assume "in_i64 (sint a + sint b)"
  then have "sint (of_int (sint a + sint b) :: i64) = sint a + sint b"
    by (rule sint_of_int_i64)
  then show ?thesis by simp
qed

lemma sint_diff_i64: "in_i64 (sint a - sint b) \<Longrightarrow> sint (a - b :: i64) = sint a - sint b"
proof -
  assume "in_i64 (sint a - sint b)"
  then have "sint (of_int (sint a - sint b) :: i64) = sint a - sint b"
    by (rule sint_of_int_i64)
  then show ?thesis by simp
qed

lemma sint_minus_i64: "in_i64 (- sint a) \<Longrightarrow> sint (- a :: i64) = - sint a"
  using sint_diff_i64 [of 0 a] by simp

section \<open>Little-endian byte images\<close>

text \<open>
  \<open>le_bytes n w\<close> is the \<open>n\<close>-byte image of \<open>w\<close> that \<open>memcpy\<close> stores;
  \<open>le_word\<close> reads such an image back.
\<close>

definition le_bytes :: "nat \<Rightarrow> 'a::len word \<Rightarrow> byte list" where
  "le_bytes n w = map (\<lambda>i. ucast (drop_bit (8 * i) w)) [0..<n]"

primrec le_word :: "byte list \<Rightarrow> 'a::len word" where
  "le_word [] = 0"
| "le_word (b # bs) = ucast b OR push_bit 8 (le_word bs)"

lemma length_le_bytes [simp, codec_simps]: "length (le_bytes n w) = n"
  by (simp add: le_bytes_def)

lemma nth_le_bytes: "i < n \<Longrightarrow> le_bytes n w ! i = ucast (drop_bit (8 * i) w)"
  by (simp add: le_bytes_def)

lemma bit_le_word:
  "bit (le_word bs :: 'a::len word) i \<longleftrightarrow>
     i < LENGTH('a) \<and> i div 8 < length bs \<and> bit (bs ! (i div 8)) (i mod 8)"
proof (induction bs arbitrary: i)
  case Nil
  then show ?case by simp
next
  case (Cons b bs)
  show ?case
  proof (cases "i < 8")
    case True
    then show ?thesis
      by (auto simp: bit_or_iff bit_push_bit_iff bit_ucast_iff)
  next
    case False
    then have "i div 8 = Suc ((i - 8) div 8)" and "i mod 8 = (i - 8) mod 8"
      by (simp_all add: le_div_geq le_mod_geq)
    with False show ?thesis
      by (auto simp: bit_or_iff bit_push_bit_iff bit_ucast_iff Cons.IH
          dest: bit_imp_le_length)
  qed
qed

lemma le_word_le_bytes [simp, codec_simps]:
  assumes "LENGTH('a) \<le> 8 * n"
  shows "le_word (le_bytes n w) = (w :: 'a::len word)"
proof (rule bit_word_eqI)
  fix i
  assume i: "i < LENGTH('a)"
  with assms have "i div 8 < n" by arith
  then show "bit (le_word (le_bytes n w) :: 'a word) i = bit w i"
    using i by (auto simp: bit_le_word nth_le_bytes bit_ucast_iff bit_drop_bit_eq)
qed

lemma le_bytes_le_word:
  assumes "8 * length bs \<le> LENGTH('a)"
  shows "le_bytes (length bs) (le_word bs :: 'a::len word) = bs"
proof (rule nth_equalityI)
  fix i
  assume "i < length (le_bytes (length bs) (le_word bs :: 'a word))"
  then have i: "i < length bs" by simp
  show "le_bytes (length bs) (le_word bs :: 'a word) ! i = bs ! i"
  proof (rule bit_word_eqI)
    fix k
    assume "k < LENGTH(8)"
    then have k: "k < 8" by simp
    with i assms have "8 * i + k < LENGTH('a)" by simp
    with i k show "bit (le_bytes (length bs) (le_word bs :: 'a word) ! i) k = bit (bs ! i) k"
      by (simp add: nth_le_bytes bit_ucast_iff bit_drop_bit_eq bit_le_word)
  qed
qed simp

lemma le_bytes_inject:
  assumes "LENGTH('a) \<le> 8 * n"
  shows "le_bytes n v = le_bytes n w \<longleftrightarrow> v = (w :: 'a::len word)"
  using assms by (metis le_word_le_bytes)

section \<open>Bounds-checked memcpy\<close>

text \<open>
  \<open>put\<close> and \<open>get\<close> are the two helpers of \<open>src/src/wal_codec.cpp\<close>: copy an object's bytes
  to or from a buffer at an offset and advance the offset. An access outside the buffer is
  undefined behaviour and gives \<open>None\<close>.
\<close>

definition put :: "byte list \<Rightarrow> nat \<Rightarrow> byte list \<Rightarrow> (byte list \<times> nat) option" where
  "put dst offset value =
     (if offset + length value \<le> length dst
      then Some (take offset dst @ value @ drop (offset + length value) dst, offset + length value)
      else None)"

definition get :: "byte list \<Rightarrow> nat \<Rightarrow> nat \<Rightarrow> (byte list \<times> nat) option" where
  "get src offset n =
     (if offset + n \<le> length src
      then Some (take n (drop offset src), offset + n)
      else None)"

text \<open>
  A buffer under construction: its first \<open>offset\<close> bytes are \<open>done\<close>, the rest is still the
  initial fill. One \<open>put\<close> extends the finished prefix.
\<close>

lemma put_extend:
  assumes "length acc + length value \<le> n"
  shows "put (acc @ replicate (n - length acc) 0) (length acc) value =
         Some ((acc @ value) @ replicate (n - length (acc @ value)) 0, length (acc @ value))"
  using assms by (simp add: put_def drop_replicate)

lemma get_app:
  "get (pre @ x @ post) (length pre) (length x) = Some (x, length pre + length x)"
  by (simp add: get_def)

section \<open>Fixed-width codecs\<close>

text \<open>
  The contract of a fixed-width binary encoding. Every record of the write-ahead log and of
  the snapshot file is a sequence of such fields; the client lemmas below are proved once
  here and used through the interpretations of the concrete encoders.
\<close>

locale fixed_codec =
  fixes width :: nat
    and enc :: "'a \<Rightarrow> byte list"
    and dec :: "byte list \<Rightarrow> 'a"
    and valid :: "'a \<Rightarrow> bool"
  assumes length_enc [simp]: "length (enc x) = width"
    and dec_enc [simp]: "valid x \<Longrightarrow> dec (enc x) = x"
begin

lemma enc_inject: "valid x \<Longrightarrow> valid y \<Longrightarrow> enc x = enc y \<longleftrightarrow> x = y"
  by (metis dec_enc)

lemma length_concat_enc: "length (concat (map enc xs)) = width * length xs"
  by (induction xs) simp_all

lemma nth_chunk:
  "i < length xs \<Longrightarrow>
     take width (drop (width * i) (concat (map enc xs))) = enc (xs ! i)"
proof (induction xs arbitrary: i)
  case Nil
  then show ?case by simp
next
  case (Cons x xs)
  show ?case
  proof (cases i)
    case 0
    then show ?thesis by simp
  next
    case (Suc j)
    then have "width * i = width + width * j" by simp
    then have "drop (width * i) (concat (map enc (x # xs))) =
               drop (width * j) (concat (map enc xs))"
      by simp
    with Cons Suc show ?thesis by simp
  qed
qed

lemma get_chunk:
  assumes "i < length xs"
  shows "get (pre @ concat (map enc xs) @ rest) (length pre + width * i) width =
         Some (enc (xs ! i), length pre + width * i + width)"
proof -
  have "width * i + width \<le> width * length xs"
    using assms by (metis Suc_leI mult_Suc_right add.commute mult_le_mono2)
  with assms show ?thesis
    by (simp add: get_def nth_chunk length_concat_enc)
qed

lemma decode_chunks:
  assumes "\<forall>x\<in>set xs. valid x"
  shows "map (\<lambda>i. dec (take width (drop (width * i) (concat (map enc xs)))))
           [0..<length xs] = xs"
  using assms by (intro nth_equalityI) (simp_all add: nth_chunk)

end

interpretation u8_codec: fixed_codec 1 "le_bytes 1 :: byte \<Rightarrow> byte list" le_word "\<lambda>_. True"
  by unfold_locales simp_all

interpretation u16_codec: fixed_codec 2 "le_bytes 2 :: u16 \<Rightarrow> byte list" le_word "\<lambda>_. True"
  by unfold_locales simp_all

interpretation u32_codec: fixed_codec 4 "le_bytes 4 :: u32 \<Rightarrow> byte list" le_word "\<lambda>_. True"
  by unfold_locales simp_all

interpretation u64_codec: fixed_codec 8 "le_bytes 8 :: u64 \<Rightarrow> byte list" le_word "\<lambda>_. True"
  by unfold_locales simp_all

end
