(* ===== verification/Ledger_Result.thy ===== *)
theory Ledger_Result
  imports Prelude
begin

text \<open>
  \<open>include/ledger/result.hpp\<close>: the error enumeration and the result type. A
  \<open>Result<T>\<close> is a variant of a value and an error, here \<open>LedgerError + 'a\<close>. The
  specialisation \<open>Result<void>\<close> stores an error code whose value \<open>None\<close> means success, so
  a void operation returns a \<open>LedgerError\<close> and \<open>has_value\<close> compares it with
  \<open>ErrNone\<close>.
\<close>

datatype LedgerError =
    ErrNone
  | InvalidTransaction
  | UnbalancedTransaction
  | TooFewLegs
  | TooManyLegs
  | ZeroAmountLeg
  | AmountOverflow
  | AccountNotFound
  | InsufficientFunds
  | DuplicateTransaction
  | WalOpenFailed
  | WalWriteFailed
  | WalSyncFailed
  | WalCorruptRecord
  | WalTruncatedRecord
  | WalPayloadTooLarge
  | SnapshotOpenFailed
  | SnapshotWriteFailed
  | SnapshotReadFailed
  | SnapshotCorrupt
  | QueueFull
  | TrialBalanceMismatch
  | Unknown

type_synonym result_void = LedgerError
type_synonym 'a result = "LedgerError + 'a"

fun error_to_string :: "LedgerError \<Rightarrow> string" where
  "error_to_string ErrNone = ''None''"
| "error_to_string InvalidTransaction = ''InvalidTransaction''"
| "error_to_string UnbalancedTransaction = ''UnbalancedTransaction''"
| "error_to_string TooFewLegs = ''TooFewLegs''"
| "error_to_string TooManyLegs = ''TooManyLegs''"
| "error_to_string ZeroAmountLeg = ''ZeroAmountLeg''"
| "error_to_string AmountOverflow = ''AmountOverflow''"
| "error_to_string AccountNotFound = ''AccountNotFound''"
| "error_to_string InsufficientFunds = ''InsufficientFunds''"
| "error_to_string DuplicateTransaction = ''DuplicateTransaction''"
| "error_to_string WalOpenFailed = ''WalOpenFailed''"
| "error_to_string WalWriteFailed = ''WalWriteFailed''"
| "error_to_string WalSyncFailed = ''WalSyncFailed''"
| "error_to_string WalCorruptRecord = ''WalCorruptRecord''"
| "error_to_string WalTruncatedRecord = ''WalTruncatedRecord''"
| "error_to_string WalPayloadTooLarge = ''WalPayloadTooLarge''"
| "error_to_string SnapshotOpenFailed = ''SnapshotOpenFailed''"
| "error_to_string SnapshotWriteFailed = ''SnapshotWriteFailed''"
| "error_to_string SnapshotReadFailed = ''SnapshotReadFailed''"
| "error_to_string SnapshotCorrupt = ''SnapshotCorrupt''"
| "error_to_string QueueFull = ''QueueFull''"
| "error_to_string TrialBalanceMismatch = ''TrialBalanceMismatch''"
| "error_to_string Unknown = ''Unknown''"

definition has_value :: "result_void \<Rightarrow> bool" where
  "has_value r \<longleftrightarrow> r = ErrNone"

lemma has_value_simps [simp]: "has_value ErrNone" "e \<noteq> ErrNone \<Longrightarrow> \<not> has_value e"
  by (simp_all add: has_value_def)

text \<open>
  Construction from an error and access, with the assertions: a violated one is \<open>None\<close>. The
  constructor of \<open>Result<T>\<close> asserts that an error is not the code for success.
\<close>

definition error_result :: "LedgerError \<Rightarrow> 'a result option" where
  "error_result e = (if e = ErrNone then None else Some (Inl e))"

definition result_has_value :: "'a result \<Rightarrow> bool" where
  "result_has_value r = (case r of Inl _ \<Rightarrow> False | Inr _ \<Rightarrow> True)"

definition result_value :: "'a result \<Rightarrow> 'a option" where
  "result_value r = (case r of Inl _ \<Rightarrow> None | Inr v \<Rightarrow> Some v)"

definition result_error :: "'a result \<Rightarrow> LedgerError option" where
  "result_error r = (case r of Inl e \<Rightarrow> Some e | Inr _ \<Rightarrow> None)"

text \<open>A result that the constructors can build.\<close>

definition constructible :: "'a result \<Rightarrow> bool" where
  "constructible r =
     (case result_error r of None \<Rightarrow> result_has_value r | Some e \<Rightarrow> error_result e = Some r)"

lemma constructible_simps [simp]: "constructible (Inr v)" "constructible (Inl e) \<longleftrightarrow> e \<noteq> ErrNone"
  by (auto simp: constructible_def result_error_def result_has_value_def error_result_def)

end
