(* ===== verification/Ledger_Types.thy ===== *)
theory Ledger_Types
  imports Ledger_Result
begin

text \<open>
  \<open>include/ledger/types.hpp\<close>: identifiers, idempotency keys, account types, legs,
  transactions and accounts. Amounts are 64-bit words read in two's complement; signed
  overflow, which C++ leaves undefined, is modelled by the wrap-around of the target machines,
  and the development states where no overflow can happen.
\<close>

type_synonym AccountId = u64
type_synonym TransactionId = u64
type_synonym Amount = i64

section \<open>Idempotency keys\<close>

datatype IdempotencyKey = IdempotencyKey (key_high: u64) (key_low: u64)

text \<open>
  The defaulted three-way comparison compares the members in the order of their declaration and
  returns the first difference.
\<close>

datatype strong_ordering = ord_less | ord_equal | ord_greater

definition compare_u64 :: "u64 \<Rightarrow> u64 \<Rightarrow> strong_ordering" where
  "compare_u64 a b = (if a < b then ord_less else if a = b then ord_equal else ord_greater)"

definition compare_keys :: "IdempotencyKey \<Rightarrow> IdempotencyKey \<Rightarrow> strong_ordering" where
  "compare_keys a b =
     (let c = compare_u64 (key_high a) (key_high b)
      in if c \<noteq> ord_equal then c else compare_u64 (key_low a) (key_low b))"

text \<open>The operators that C++ derives from it are a linear order.\<close>

instantiation IdempotencyKey :: linorder
begin

definition less_IdempotencyKey :: "IdempotencyKey \<Rightarrow> IdempotencyKey \<Rightarrow> bool" where
  "less_IdempotencyKey a b \<longleftrightarrow> compare_keys a b = ord_less"

definition less_eq_IdempotencyKey :: "IdempotencyKey \<Rightarrow> IdempotencyKey \<Rightarrow> bool" where
  "less_eq_IdempotencyKey a b \<longleftrightarrow> compare_keys a b \<noteq> ord_greater"

instance
  by standard
    (auto simp: less_IdempotencyKey_def less_eq_IdempotencyKey_def compare_keys_def compare_u64_def
        IdempotencyKey.expand split: if_splits)

end

lemma compare_keys_equal [simp]: "compare_keys a b = ord_equal \<longleftrightarrow> a = b"
  by (auto simp: compare_keys_def compare_u64_def IdempotencyKey.expand split: if_splits)

text \<open>
  \<open>IdempotencyKeyHash\<close>, over the platform's \<open>std::hash<uint64_t>\<close>, which the standard leaves
  to the implementation and which is therefore an argument.
\<close>

definition IdempotencyKeyHash :: "(u64 \<Rightarrow> u64) \<Rightarrow> IdempotencyKey \<Rightarrow> u64" where
  "IdempotencyKeyHash std_hash k =
     (let h1 = std_hash (key_high k); h2 = std_hash (key_low k)
      in h1 XOR (h2 + 0x9e3779b97f4a7c15 + push_bit 6 h1 + drop_bit 2 h1))"

section \<open>Account types and directions\<close>

text \<open>
  The enumeration has the fixed underlying type \<open>uint8_t\<close>, so a cast from a byte (as
  \<open>load_snapshot\<close> does) can produce a value that is none of the five enumerators:
  \<open>OtherType\<close>.
\<close>

datatype AccountType = Asset | Liability | Equity | Revenue | Expense | OtherType byte

definition account_type_of_byte :: "byte \<Rightarrow> AccountType" where
  "account_type_of_byte b =
     (if b = 0 then Asset else if b = 1 then Liability else if b = 2 then Equity
      else if b = 3 then Revenue else if b = 4 then Expense else OtherType b)"

fun byte_of_account_type :: "AccountType \<Rightarrow> byte" where
  "byte_of_account_type Asset = 0"
| "byte_of_account_type Liability = 1"
| "byte_of_account_type Equity = 2"
| "byte_of_account_type Revenue = 3"
| "byte_of_account_type Expense = 4"
| "byte_of_account_type (OtherType b) = b"

fun account_type_to_string :: "AccountType \<Rightarrow> string" where
  "account_type_to_string Asset = ''Asset''"
| "account_type_to_string Liability = ''Liability''"
| "account_type_to_string Equity = ''Equity''"
| "account_type_to_string Revenue = ''Revenue''"
| "account_type_to_string Expense = ''Expense''"
| "account_type_to_string (OtherType b) = ''Unknown''"

text \<open>An enumerator, as opposed to a byte outside the enumeration.\<close>

fun named_type :: "AccountType \<Rightarrow> bool" where
  "named_type (OtherType b) = False"
| "named_type t = True"

definition is_debit_normal :: "AccountType \<Rightarrow> bool" where
  "is_debit_normal t \<longleftrightarrow> t = Asset \<or> t = Expense"

datatype Direction = Debit | Credit

fun direction_to_string :: "Direction \<Rightarrow> string" where
  "direction_to_string d = (if d = Debit then ''DEBIT'' else ''CREDIT'')"

fun byte_of_direction :: "Direction \<Rightarrow> byte" where
  "byte_of_direction Debit = 0"
| "byte_of_direction Credit = 1"

definition signed_delta :: "AccountType \<Rightarrow> Direction \<Rightarrow> Amount \<Rightarrow> Amount" where
  "signed_delta t dir amount =
     (let increases = ((dir = Debit) = is_debit_normal t)
      in if increases then amount else - amount)"

lemma account_type_of_byte_of [simp]:
  "named_type t \<Longrightarrow> account_type_of_byte (byte_of_account_type t) = t"
  by (cases t) (simp_all add: account_type_of_byte_def)

lemma byte_of_account_type_of [simp]: "byte_of_account_type (account_type_of_byte b) = b"
  by (simp add: account_type_of_byte_def)

lemma byte_of_direction_le [simp]: "byte_of_direction d \<le> 1"
  by (cases d) simp_all

text \<open>
  The accounting sign of a leg: a debit counts positively and a credit negatively, whatever
  the type of the account it touches. On a debit-normal account this is the change of the
  balance, on a credit-normal one its opposite.
\<close>

definition ledger_sign :: "AccountType \<Rightarrow> Amount \<Rightarrow> Amount" where
  "ledger_sign t x = (if is_debit_normal t then x else - x)"

lemma ledger_sign_add [simp]: "ledger_sign t (x + y) = ledger_sign t x + ledger_sign t y"
  by (simp add: ledger_sign_def)

lemma ledger_sign_signed_delta [simp]:
  "ledger_sign t (signed_delta t dir amount) = (if dir = Debit then amount else - amount)"
  by (auto simp: ledger_sign_def signed_delta_def)

section \<open>Legs and leg lists\<close>

record EntryLeg =
  account_id :: AccountId
  direction :: Direction
  amount :: Amount

definition default_leg :: EntryLeg where
  "default_leg = \<lparr>account_id = 0, direction = Debit, amount = 0\<rparr>"

definition kMaxLegsPerTransaction :: nat where
  "kMaxLegsPerTransaction = 16"

text \<open>
  \<open>LegList\<close>: a fixed array and a count. Only the first \<open>leg_count\<close> entries are visible; the
  array keeps whatever was there before a \<open>clear\<close>.
\<close>

record LegList =
  leg_array :: "EntryLeg list"
  leg_count :: nat

definition empty_legs :: LegList where
  "empty_legs = \<lparr>leg_array = replicate kMaxLegsPerTransaction default_leg, leg_count = 0\<rparr>"

definition push_back :: "EntryLeg \<Rightarrow> LegList \<Rightarrow> bool \<times> LegList" where
  "push_back leg l =
     (if leg_count l \<ge> kMaxLegsPerTransaction then (False, l)
      else (True, l\<lparr>leg_array := (leg_array l)[leg_count l := leg], leg_count := leg_count l + 1\<rparr>))"

definition span :: "LegList \<Rightarrow> EntryLeg list" where
  "span l = take (leg_count l) (leg_array l)"

definition leg_size :: "LegList \<Rightarrow> nat" where
  "leg_size l = leg_count l"

definition leg_empty :: "LegList \<Rightarrow> bool" where
  "leg_empty l \<longleftrightarrow> leg_count l = 0"

definition leg_clear :: "LegList \<Rightarrow> LegList" where
  "leg_clear l = l\<lparr>leg_count := 0\<rparr>"

text \<open>The class invariant: the array has its fixed size and the count never exceeds it.\<close>

definition wf_legs :: "LegList \<Rightarrow> bool" where
  "wf_legs l \<longleftrightarrow> length (leg_array l) = kMaxLegsPerTransaction \<and> leg_count l \<le> kMaxLegsPerTransaction"

lemma length_span [simp]: "wf_legs l \<Longrightarrow> length (span l) = leg_count l"
  by (simp add: wf_legs_def span_def)

lemma wf_legs_count: "wf_legs l \<Longrightarrow> leg_count l \<le> 16"
  by (simp add: wf_legs_def kMaxLegsPerTransaction_def)

lemma wf_empty_legs [simp]: "wf_legs empty_legs"
  by (simp add: wf_legs_def empty_legs_def)

lemma leg_count_empty_legs [simp]: "leg_count empty_legs = 0"
  by (simp add: empty_legs_def)

lemma span_empty_legs [simp]: "span empty_legs = []"
  by (simp add: span_def empty_legs_def)

lemma wf_push_back: "wf_legs l \<Longrightarrow> wf_legs (snd (push_back leg l))"
  by (simp add: wf_legs_def push_back_def)

lemma wf_leg_clear: "wf_legs l \<Longrightarrow> wf_legs (leg_clear l)"
  by (simp add: wf_legs_def leg_clear_def)

lemma push_back_room:
  assumes "wf_legs l" and "leg_count l < kMaxLegsPerTransaction"
  shows "fst (push_back leg l)" and "span (snd (push_back leg l)) = span l @ [leg]"
  using assms by (simp_all add: push_back_def span_def wf_legs_def take_Suc_conv_app_nth)

lemma push_back_full:
  "leg_count l \<ge> kMaxLegsPerTransaction \<Longrightarrow> push_back leg l = (False, l)"
  by (simp add: push_back_def)

text \<open>Filling a list from a sequence of legs, stopping at the first refusal.\<close>

fun push_all :: "EntryLeg list \<Rightarrow> LegList \<Rightarrow> LegList" where
  "push_all [] l = l"
| "push_all (leg # ls) l = push_all ls (snd (push_back leg l))"

lemma wf_push_all [simp]: "wf_legs l \<Longrightarrow> wf_legs (push_all ls l)"
  by (induction ls arbitrary: l) (simp_all add: wf_push_back)

lemma span_push_all:
  assumes "wf_legs l" and "leg_count l + length ls \<le> kMaxLegsPerTransaction"
  shows "span (push_all ls l) = span l @ ls"
  using assms
proof (induction ls arbitrary: l)
  case Nil
  then show ?case by simp
next
  case (Cons leg ls)
  from Cons.prems have room: "leg_count l < kMaxLegsPerTransaction" by simp
  then have "leg_count (snd (push_back leg l)) = leg_count l + 1"
    by (simp add: push_back_def)
  with Cons room show ?case
    by (simp add: wf_push_back push_back_room)
qed

section \<open>Transactions and accounts\<close>

record Transaction =
  tx_id :: TransactionId
  idempotency_key :: IdempotencyKey
  created_at_ns :: i64
  legs :: LegList

definition tx_legs :: "Transaction \<Rightarrow> EntryLeg list" where
  "tx_legs tx = span (legs tx)"

definition wf_tx :: "Transaction \<Rightarrow> bool" where
  "wf_tx tx \<longleftrightarrow> wf_legs (legs tx)"

record Account =
  acc_id :: AccountId
  acc_type :: AccountType
  balance :: Amount
  overdraft_limit :: Amount

lemma length_tx_legs: "wf_tx tx \<Longrightarrow> length (tx_legs tx) \<le> 16"
  by (simp add: wf_tx_def tx_legs_def wf_legs_count)

text \<open>Building a transaction leg by leg, as the drivers and the tests do.\<close>

definition make_tx :: "TransactionId \<Rightarrow> IdempotencyKey \<Rightarrow> EntryLeg list \<Rightarrow> Transaction" where
  "make_tx i k ls =
     \<lparr>tx_id = i, idempotency_key = k, created_at_ns = 0, legs = push_all ls empty_legs\<rparr>"

lemma make_tx_simps [simp]:
  "tx_id (make_tx i k ls) = i"
  "idempotency_key (make_tx i k ls) = k"
  "created_at_ns (make_tx i k ls) = 0"
  "wf_tx (make_tx i k ls)"
  by (simp_all add: make_tx_def wf_tx_def)

lemma tx_legs_make_tx [simp]: "length ls \<le> 16 \<Longrightarrow> tx_legs (make_tx i k ls) = ls"
  by (simp add: tx_legs_def make_tx_def span_push_all kMaxLegsPerTransaction_def)

section \<open>Properties\<close>

text \<open>A leg list is a bounded sequence: \<open>push_back\<close> keeps the class invariant, appends
  the leg to the visible sequence while there is room for it, and refuses it and changes
  nothing once sixteen legs are stored; so no write ever leaves the fixed array.\<close>

theorem push_back_bounded:
  assumes "wf_legs l"
  shows "wf_legs (snd (push_back leg l)) \<and>
    (if leg_size l < 16
     then fst (push_back leg l) \<and> span (snd (push_back leg l)) = span l @ [leg]
     else push_back leg l = (False, l))"
  using assms push_back_room [OF assms, of leg]
  by (simp add: wf_push_back push_back_full leg_size_def kMaxLegsPerTransaction_def)

theorem push_back_bounded_witness:
  "span (snd (push_back \<lparr>account_id = 7, direction = Credit, amount = 5\<rparr> empty_legs)) =
     [\<lparr>account_id = 7, direction = Credit, amount = 5\<rparr>]"
  using push_back_bounded [OF wf_empty_legs, of "\<lparr>account_id = 7, direction = Credit, amount = 5\<rparr>"]
  by (simp add: leg_size_def)

end
