(* ===== verification/Validation.thy ===== *)
theory Validation
  imports Ledger_Types
begin

text \<open>
  \<open>src/src/validation.cpp\<close>: overflow-checked accumulation, the shape check of a transaction
  and the overdraft check against the committed accounts. Both checks are characterised
  completely: which error each transaction gets, on every branch.
\<close>

section \<open>The code\<close>

text \<open>The in-out parameter \<open>total\<close> is returned beside the success flag.\<close>

definition checked_add :: "i64 \<Rightarrow> i64 \<Rightarrow> bool \<times> i64" where
  "checked_add running delta =
     (if 0 <s delta \<and> i64_max - delta <s running then (False, running)
      else if delta <s 0 \<and> running <s i64_min - delta then (False, running)
      else (True, running + delta))"

fun shape_loop :: "EntryLeg list \<Rightarrow> i64 \<Rightarrow> i64 \<Rightarrow> LedgerError + i64 \<times> i64" where
  "shape_loop [] debit_total credit_total = Inr (debit_total, credit_total)"
| "shape_loop (leg # ls) debit_total credit_total =
     (if amount leg \<le>s 0 then Inl ZeroAmountLeg
      else if direction leg = Debit
        then (case checked_add debit_total (amount leg) of (ok, debit_total') \<Rightarrow>
               if \<not> ok then Inl AmountOverflow else shape_loop ls debit_total' credit_total)
        else (case checked_add credit_total (amount leg) of (ok, credit_total') \<Rightarrow>
               if \<not> ok then Inl AmountOverflow else shape_loop ls debit_total credit_total'))"

definition validate_transaction_shape :: "Transaction \<Rightarrow> result_void" where
  "validate_transaction_shape tx =
     (let ls = tx_legs tx in
      if length ls < 2 then TooFewLegs
      else if length ls > kMaxLegsPerTransaction then TooManyLegs
      else case shape_loop ls 0 0 of
        Inl e \<Rightarrow> e
      | Inr (debit_total, credit_total) \<Rightarrow>
          if debit_total \<noteq> credit_total then UnbalancedTransaction else ErrNone)"

text \<open>
  \<open>AccountLookup\<close> yields a pointer to the account or null. The pending deltas are the filled
  prefix of the local array; merging a leg either adds to the entry of its account or appends
  a new entry.
\<close>

type_synonym AccountLookup = "AccountId \<Rightarrow> Account option"
type_synonym PendingDelta = "AccountId \<times> Amount"

fun merge_pending :: "AccountId \<Rightarrow> Amount \<Rightarrow> PendingDelta list \<Rightarrow> PendingDelta list" where
  "merge_pending a delta [] = [(a, delta)]"
| "merge_pending a delta ((b, d) # ps) =
     (if b = a then (b, d + delta) # ps else (b, d) # merge_pending a delta ps)"

fun collect_pending ::
    "AccountLookup \<Rightarrow> EntryLeg list \<Rightarrow> PendingDelta list \<Rightarrow> LedgerError + PendingDelta list" where
  "collect_pending lookup [] pending = Inr pending"
| "collect_pending lookup (leg # ls) pending =
     (case lookup (account_id leg) of
        None \<Rightarrow> Inl AccountNotFound
      | Some account \<Rightarrow>
          collect_pending lookup ls
            (merge_pending (account_id leg)
               (signed_delta (acc_type account) (direction leg) (amount leg)) pending))"

text \<open>The second loop dereferences the pointer without a test; a null would be \<open>None\<close> here.\<close>

fun check_pending :: "AccountLookup \<Rightarrow> PendingDelta list \<Rightarrow> result_void option" where
  "check_pending lookup [] = Some ErrNone"
| "check_pending lookup ((a, delta) # ps) =
     (case lookup a of
        None \<Rightarrow> None
      | Some account \<Rightarrow>
          let projected_balance = balance account + delta in
          if is_debit_normal (acc_type account) \<and> projected_balance <s - overdraft_limit account
          then Some InsufficientFunds
          else check_pending lookup ps)"

definition validate_transaction_against_state ::
    "Transaction \<Rightarrow> AccountLookup \<Rightarrow> result_void option" where
  "validate_transaction_against_state tx lookup =
     (case collect_pending lookup (tx_legs tx) [] of
        Inl e \<Rightarrow> Some e
      | Inr pending \<Rightarrow> check_pending lookup pending)"

section \<open>Specification of the shape check\<close>

definition leg_total :: "Direction \<Rightarrow> EntryLeg list \<Rightarrow> int" where
  "leg_total d ls = (\<Sum>leg\<leftarrow>ls. if direction leg = d then sint (amount leg) else 0)"

definition positive_legs :: "EntryLeg list \<Rightarrow> bool" where
  "positive_legs ls \<longleftrightarrow> list_all (\<lambda>leg. 0 < sint (amount leg)) ls"

text \<open>A balanced transaction in exact integer arithmetic.\<close>

definition balanced_shape :: "EntryLeg list \<Rightarrow> bool" where
  "balanced_shape ls \<longleftrightarrow>
     2 \<le> length ls \<and> length ls \<le> 16 \<and> positive_legs ls \<and>
     leg_total Debit ls = leg_total Credit ls \<and> leg_total Debit ls < 2 ^ 63"

lemma leg_total_simps [simp]:
  "leg_total d [] = 0"
  "leg_total d (leg # ls) = (if direction leg = d then sint (amount leg) else 0) + leg_total d ls"
  by (simp_all add: leg_total_def)

lemma positive_legs_simps [simp]:
  "positive_legs []"
  "positive_legs (leg # ls) \<longleftrightarrow> 0 < sint (amount leg) \<and> positive_legs ls"
  by (simp_all add: positive_legs_def)

lemma leg_total_nonneg: "positive_legs ls \<Longrightarrow> 0 \<le> leg_total d ls"
  by (induction ls) auto

lemma checked_add_eq:
  "checked_add running delta =
     (if in_i64 (sint running + sint delta) then (True, running + delta) else (False, running))"
proof -
  consider "0 < sint delta" | "sint delta < 0" | "sint delta = 0" by linarith
  then show ?thesis
  proof cases
    case 1
    then have "in_i64 (sint i64_max - sint delta)"
      using in_i64_sint [of delta] by (simp add: in_i64_def)
    then have "sint (i64_max - delta) = 2 ^ 63 - 1 - sint delta"
      by (simp add: sint_diff_i64)
    with 1 in_i64_sint [of running] show ?thesis
      by (auto simp: checked_add_def word_sless_alt in_i64_def)
  next
    case 2
    then have "in_i64 (sint i64_min - sint delta)"
      using in_i64_sint [of delta] by (simp add: in_i64_def)
    then have "sint (i64_min - delta) = - (2 ^ 63) - sint delta"
      by (simp add: sint_diff_i64)
    with 2 in_i64_sint [of running] show ?thesis
      by (auto simp: checked_add_def word_sless_alt in_i64_def)
  next
    case 3
    with in_i64_sint [of running] show ?thesis
      by (auto simp: checked_add_def word_sless_alt)
  qed
qed

lemma shape_loop_Inr:
  assumes "0 \<le> sint d" and "0 \<le> sint c"
  shows "shape_loop ls d c = Inr (d', c') \<longleftrightarrow>
    positive_legs ls \<and>
    sint d + leg_total Debit ls < 2 ^ 63 \<and> sint c + leg_total Credit ls < 2 ^ 63 \<and>
    sint d' = sint d + leg_total Debit ls \<and> sint c' = sint c + leg_total Credit ls"
  using assms
proof (induction ls arbitrary: d c)
  case Nil
  then show ?case
    using in_i64_sint [of d] in_i64_sint [of c]
    by (auto simp: in_i64_def sint_eq_iff)
next
  case (Cons leg ls)
  show ?case
  proof (cases "0 < sint (amount leg)")
    case False
    then show ?thesis by (simp add: word_sle_eq)
  next
    case pos: True
    then have guard: "\<not> amount leg \<le>s 0" by (simp add: word_sle_eq)
    show ?thesis
    proof (cases "direction leg")
      case Debit
      show ?thesis
      proof (cases "in_i64 (sint d + sint (amount leg))")
        case True
        then have eq: "sint (d + amount leg) = sint d + sint (amount leg)"
          by (rule sint_add_i64)
        with pos Cons.prems have "0 \<le> sint (d + amount leg)" by simp
        from Cons.IH [OF this Cons.prems(2)] True guard Debit pos eq show ?thesis
          by (simp add: checked_add_eq add.assoc)
      next
        case False
        with pos Cons.prems leg_total_nonneg [of ls Debit] guard Debit show ?thesis
          by (auto simp: checked_add_eq in_i64_def)
      qed
    next
      case Credit
      show ?thesis
      proof (cases "in_i64 (sint c + sint (amount leg))")
        case True
        then have eq: "sint (c + amount leg) = sint c + sint (amount leg)"
          by (rule sint_add_i64)
        with pos Cons.prems have "0 \<le> sint (c + amount leg)" by simp
        from Cons.IH [OF Cons.prems(1) this] True guard Credit pos eq show ?thesis
          by (simp add: checked_add_eq add.assoc)
      next
        case False
        with pos Cons.prems leg_total_nonneg [of ls Credit] guard Credit show ?thesis
          by (auto simp: checked_add_eq in_i64_def)
      qed
    qed
  qed
qed

lemma shape_loop_Inl:
  "shape_loop ls d c = Inl e \<Longrightarrow> e = ZeroAmountLeg \<or> e = AmountOverflow"
  by (induction ls d c rule: shape_loop.induct) (auto split: if_splits prod.splits)

lemma shape_loop_zero_amount:
  assumes "positive_legs ls"
  shows "shape_loop ls d c \<noteq> Inl ZeroAmountLeg"
  using assms
  by (induction ls d c rule: shape_loop.induct) (auto simp: word_sle_eq split: prod.splits)

lemma shape_loop_total:
  assumes "positive_legs ls \<and> leg_total Debit ls < 2 ^ 63 \<and> leg_total Credit ls < 2 ^ 63"
  shows "\<exists>d c. shape_loop ls 0 0 = Inr (d, c)"
proof (intro exI)
  have "in_i64 (leg_total Debit ls)" and "in_i64 (leg_total Credit ls)"
    using assms leg_total_nonneg [of ls] by (auto simp: in_i64_def intro: order_trans [of _ 0])
  then show "shape_loop ls 0 0 = Inr (of_int (leg_total Debit ls), of_int (leg_total Credit ls))"
    using assms by (simp add: shape_loop_Inr sint_of_int_i64)
qed

lemma validate_transaction_shape_ok:
  "validate_transaction_shape tx = ErrNone \<longleftrightarrow> balanced_shape (tx_legs tx)"
proof (cases "shape_loop (tx_legs tx) 0 0")
  case (Inl e)
  then have "e \<noteq> ErrNone" using shape_loop_Inl by blast
  moreover have "\<not> balanced_shape (tx_legs tx)"
    using shape_loop_total [of "tx_legs tx"] Inl by (auto simp: balanced_shape_def)
  ultimately show ?thesis
    using Inl by (simp add: validate_transaction_shape_def Let_def kMaxLegsPerTransaction_def)
next
  case (Inr p)
  then obtain d c where p: "shape_loop (tx_legs tx) 0 0 = Inr (d, c)" by (cases p) auto
  then have "positive_legs (tx_legs tx)"
    and "leg_total Debit (tx_legs tx) < 2 ^ 63"
    and "sint d = leg_total Debit (tx_legs tx)" and "sint c = leg_total Credit (tx_legs tx)"
    by (simp_all add: shape_loop_Inr)
  moreover have "d = c \<longleftrightarrow> sint d = sint c" by (simp add: sint_eq_iff)
  ultimately show ?thesis
    using p by (auto simp: validate_transaction_shape_def Let_def kMaxLegsPerTransaction_def
        balanced_shape_def)
qed

section \<open>Specification of the overdraft check\<close>

text \<open>The change a transaction makes to one account: the sum of its legs there.\<close>

definition leg_delta :: "AccountLookup \<Rightarrow> AccountId \<Rightarrow> EntryLeg \<Rightarrow> Amount" where
  "leg_delta lookup a leg =
     (case lookup a of
        None \<Rightarrow> 0
      | Some account \<Rightarrow>
          if account_id leg = a
          then signed_delta (acc_type account) (direction leg) (amount leg) else 0)"

definition net_delta :: "AccountLookup \<Rightarrow> EntryLeg list \<Rightarrow> AccountId \<Rightarrow> Amount" where
  "net_delta lookup ls a = (\<Sum>leg\<leftarrow>ls. leg_delta lookup a leg)"

definition unknown_account :: "AccountLookup \<Rightarrow> EntryLeg list \<Rightarrow> bool" where
  "unknown_account lookup ls \<longleftrightarrow> list_ex (\<lambda>leg. lookup (account_id leg) = None) ls"

definition below_floor :: "Account \<Rightarrow> Amount \<Rightarrow> bool" where
  "below_floor account b \<longleftrightarrow> is_debit_normal (acc_type account) \<and> b <s - overdraft_limit account"

definition overdraws :: "AccountLookup \<Rightarrow> EntryLeg list \<Rightarrow> bool" where
  "overdraws lookup ls \<longleftrightarrow>
     list_ex (\<lambda>leg. case lookup (account_id leg) of
                None \<Rightarrow> False
              | Some account \<Rightarrow>
                  below_floor account (balance account + net_delta lookup ls (account_id leg))) ls"

lemma net_delta_simps [simp]:
  "net_delta lookup [] a = 0"
  "net_delta lookup (leg # ls) a = leg_delta lookup a leg + net_delta lookup ls a"
  by (simp_all add: net_delta_def)

lemma net_delta_untouched: "a \<notin> account_id ` set ls \<Longrightarrow> net_delta lookup ls a = 0"
  by (induction ls) (auto simp: leg_delta_def split: option.splits)

lemma map_of_merge_pending:
  "map_of (merge_pending a delta ps) =
     (map_of ps)(a \<mapsto> (case map_of ps a of None \<Rightarrow> delta | Some d \<Rightarrow> d + delta))"
  by (induction ps) (auto simp: fun_eq_iff)

lemma fst_merge_pending: "fst ` set (merge_pending a delta ps) = insert a (fst ` set ps)"
  by (induction a delta ps rule: merge_pending.induct) auto

lemma distinct_merge_pending:
  "distinct (map fst ps) \<Longrightarrow> distinct (map fst (merge_pending a delta ps))"
proof (induction ps)
  case Nil
  then show ?case by simp
next
  case (Cons p ps)
  then show ?case
    by (cases p) (auto simp: fst_merge_pending)
qed

lemma collect_pending_Inl:
  "collect_pending lookup ls ps = Inl e \<longleftrightarrow> e = AccountNotFound \<and> unknown_account lookup ls"
  by (induction ls arbitrary: ps) (auto simp: unknown_account_def split: option.splits)

lemma collect_pending_Inr:
  assumes "collect_pending lookup ls ps = Inr qs"
  shows "map_of qs a =
           (if a \<in> account_id ` set ls \<or> map_of ps a \<noteq> None
            then Some ((case map_of ps a of None \<Rightarrow> 0 | Some d \<Rightarrow> d) + net_delta lookup ls a)
            else None)"
    and "fst ` set qs = account_id ` set ls \<union> fst ` set ps"
    and "distinct (map fst ps) \<Longrightarrow> distinct (map fst qs)"
  using assms
proof (induction ls arbitrary: ps)
  case Nil
  { case 1 then show ?case by (auto split: option.splits) }
  { case 2 then show ?case by simp }
  { case 3 then show ?case by simp }
next
  case (Cons leg ls)
  { case 1
    then show ?case
      by (auto simp: Cons.IH(1) map_of_merge_pending leg_delta_def algebra_simps
          split: option.splits if_splits) }
  { case 2
    then show ?case
      by (auto simp: Cons.IH(2) fst_merge_pending split: option.splits) }
  { case 3
    then show ?case
      by (auto intro: Cons.IH(3) distinct_merge_pending split: option.splits) }
qed

lemma check_pending_eq:
  assumes "\<forall>p\<in>set ps. lookup (fst p) \<noteq> None"
  shows "check_pending lookup ps =
    Some (if list_ex (\<lambda>(a, d). below_floor (the (lookup a)) (balance (the (lookup a)) + d)) ps
          then InsufficientFunds else ErrNone)"
  using assms
proof (induction ps)
  case Nil
  then show ?case by simp
next
  case (Cons p ps)
  obtain a d where p: "p = (a, d)" by (cases p)
  with Cons.prems obtain account where "lookup a = Some account" by auto
  with p Cons show ?case by (simp add: Let_def below_floor_def)
qed

lemma validate_transaction_against_state_eq:
  "validate_transaction_against_state tx lookup =
     Some (if unknown_account lookup (tx_legs tx) then AccountNotFound
           else if overdraws lookup (tx_legs tx) then InsufficientFunds else ErrNone)"
proof (cases "collect_pending lookup (tx_legs tx) []")
  case (Inl e)
  moreover from Inl have "e = AccountNotFound \<and> unknown_account lookup (tx_legs tx)"
    by (simp only: collect_pending_Inl)
  ultimately show ?thesis
    by (simp add: validate_transaction_against_state_def)
next
  case (Inr ps)
  then have known: "\<not> unknown_account lookup (tx_legs tx)"
    using collect_pending_Inl [of lookup "tx_legs tx" "[]" AccountNotFound] by simp
  have fsts: "fst ` set ps = account_id ` set (tx_legs tx)"
    using collect_pending_Inr(2) [OF Inr] by simp
  have dist: "distinct (map fst ps)"
    using collect_pending_Inr(3) [OF Inr] by simp
  have val: "map_of ps (account_id leg) =
      Some (net_delta lookup (tx_legs tx) (account_id leg))" if "leg \<in> set (tx_legs tx)" for leg
    using collect_pending_Inr(1) [OF Inr, of "account_id leg"] that by simp
  have ex: "\<forall>p\<in>set ps. lookup (fst p) \<noteq> None"
  proof
    fix p
    assume "p \<in> set ps"
    then have "fst p \<in> account_id ` set (tx_legs tx)" using fsts by blast
    with known show "lookup (fst p) \<noteq> None"
      by (auto simp: unknown_account_def list_ex_iff)
  qed
  have "list_ex (\<lambda>(a, d). below_floor (the (lookup a)) (balance (the (lookup a)) + d)) ps
        = overdraws lookup (tx_legs tx)" (is "?L = ?R")
  proof
    assume ?L
    then obtain a d where ad: "(a, d) \<in> set ps"
      and low: "below_floor (the (lookup a)) (balance (the (lookup a)) + d)"
      by (auto simp: list_ex_iff)
    from ad have "a \<in> fst ` set ps" by (rule image_eqI [rotated]) simp
    with fsts obtain leg where leg: "leg \<in> set (tx_legs tx)" "account_id leg = a" by auto
    from ad dist have "map_of ps a = Some d" by simp
    with val [OF leg(1)] leg(2) have "d = net_delta lookup (tx_legs tx) a" by simp
    moreover from bspec [OF ex ad] obtain account where "lookup a = Some account" by auto
    ultimately show ?R
      unfolding overdraws_def list_ex_iff using low leg by (intro bexI [of _ leg]) simp_all
  next
    assume ?R
    then obtain leg account where leg: "leg \<in> set (tx_legs tx)"
      and acc: "lookup (account_id leg) = Some account"
      and low: "below_floor account
                  (balance account + net_delta lookup (tx_legs tx) (account_id leg))"
      by (auto simp: overdraws_def list_ex_iff split: option.splits)
    from val [OF leg] have "(account_id leg, net_delta lookup (tx_legs tx) (account_id leg)) \<in> set ps"
      by (rule map_of_SomeD)
    then show ?L
      unfolding list_ex_iff by (rule bexI [rotated]) (simp add: acc low)
  qed
  then have "check_pending lookup ps =
      Some (if overdraws lookup (tx_legs tx) then InsufficientFunds else ErrNone)"
    by (simp only: check_pending_eq [OF ex])
  then show ?thesis
    by (simp only: validate_transaction_against_state_def Inr sum.case known if_False)
qed

text \<open>
  A lookup that differs only in balances gives the same deltas: the delta of a leg depends on
  the type of the account alone.
\<close>

lemma leg_delta_cong:
  "map_option acc_type (lookup a) = map_option acc_type (lookup' a) \<Longrightarrow>
     leg_delta lookup a leg = leg_delta lookup' a leg"
  by (auto simp: leg_delta_def split: option.splits)

lemma net_delta_cong:
  "map_option acc_type (lookup a) = map_option acc_type (lookup' a) \<Longrightarrow>
     net_delta lookup ls a = net_delta lookup' ls a"
  using leg_delta_cong [of lookup a lookup'] by (simp add: net_delta_def)

section \<open>The check in exact integers\<close>

text \<open>The net delta without wrap-around.\<close>

definition exact_delta :: "AccountType \<Rightarrow> EntryLeg list \<Rightarrow> AccountId \<Rightarrow> int" where
  "exact_delta t ls a =
     (\<Sum>leg\<leftarrow>ls. if account_id leg = a
        then (if (direction leg = Debit) = is_debit_normal t then sint (amount leg)
              else - sint (amount leg))
        else 0)"

lemma net_delta_exact_mod:
  assumes "lookup a = Some account"
  shows "net_delta lookup ls a = of_int (exact_delta (acc_type account) ls a)"
  using assms
  by (induction ls) (simp_all add: exact_delta_def leg_delta_def signed_delta_def)

lemma exact_delta_one_side:
  assumes "positive_legs ls"
  shows "exact_delta t ls a \<le> max (leg_total Debit ls) (leg_total Credit ls)
       \<and> - max (leg_total Debit ls) (leg_total Credit ls) \<le> exact_delta t ls a"
proof -
  have "(if is_debit_normal t then - leg_total Credit ls else - leg_total Debit ls)
          \<le> exact_delta t ls a
      \<and> exact_delta t ls a \<le> (if is_debit_normal t then leg_total Debit ls else leg_total Credit ls)"
    using assms
  proof (induction ls)
    case Nil
    then show ?case by (simp add: exact_delta_def)
  next
    case (Cons leg ls)
    then show ?case
      by (cases "direction leg") (auto simp: exact_delta_def)
  qed
  then show ?thesis by (auto split: if_splits)
qed

text \<open>
  A balanced transaction never overflows an account's pending delta: each side of it fits in
  64 bits, so the net change of one account does.
\<close>

lemma sint_net_delta:
  assumes "balanced_shape ls" and "lookup a = Some account"
  shows "sint (net_delta lookup ls a) = exact_delta (acc_type account) ls a"
proof -
  from assms(1) exact_delta_one_side [of ls "acc_type account" a]
  have "in_i64 (exact_delta (acc_type account) ls a)"
    by (auto simp: balanced_shape_def in_i64_def)
  then show ?thesis
    using assms(2) by (simp add: net_delta_exact_mod sint_of_int_i64)
qed

lemma below_floor_exact:
  assumes "balanced_shape ls" and "lookup a = Some account"
    and "0 \<le> sint (overdraft_limit account)"
    and "in_i64 (sint (balance account) + exact_delta (acc_type account) ls a)"
  shows "below_floor account (balance account + net_delta lookup ls a) \<longleftrightarrow>
    is_debit_normal (acc_type account) \<and>
    sint (balance account) + exact_delta (acc_type account) ls a < - sint (overdraft_limit account)"
proof -
  have "sint (- overdraft_limit account) = - sint (overdraft_limit account)"
    using assms(3) in_i64_sint [of "overdraft_limit account"]
    by (intro sint_minus_i64) (simp add: in_i64_def)
  moreover have "sint (balance account + net_delta lookup ls a) =
      sint (balance account) + exact_delta (acc_type account) ls a"
    using sint_net_delta [where lookup = lookup, OF assms(1,2)] assms(4)
    by (simp add: sint_add_i64)
  ultimately show ?thesis
    by (simp add: below_floor_def word_sless_alt)
qed

section \<open>Properties\<close>

text \<open>C18. The shape check decides exactly the double-entry rule, in unbounded integer
  arithmetic: it accepts a transaction if and only if it has 2 to 16 legs, every amount is
  positive and the debits equal the credits with the total below \<open>2 ^ 63\<close>; the leg-count
  errors and the imbalance error are returned exactly in their cases, and every other
  rejection is a non-positive amount or an overflowing total.\<close>

theorem shape_check_decides:
  "(validate_transaction_shape tx = ErrNone \<longleftrightarrow> balanced_shape (tx_legs tx)) \<and>
   (validate_transaction_shape tx = TooFewLegs \<longleftrightarrow> length (tx_legs tx) < 2) \<and>
   (validate_transaction_shape tx = TooManyLegs \<longleftrightarrow> 16 < length (tx_legs tx)) \<and>
   (validate_transaction_shape tx = UnbalancedTransaction \<longleftrightarrow>
      2 \<le> length (tx_legs tx) \<and> length (tx_legs tx) \<le> 16 \<and> positive_legs (tx_legs tx) \<and>
      leg_total Debit (tx_legs tx) < 2 ^ 63 \<and> leg_total Credit (tx_legs tx) < 2 ^ 63 \<and>
      leg_total Debit (tx_legs tx) \<noteq> leg_total Credit (tx_legs tx)) \<and>
   (validate_transaction_shape tx = AmountOverflow \<and> positive_legs (tx_legs tx) \<longleftrightarrow>
      2 \<le> length (tx_legs tx) \<and> length (tx_legs tx) \<le> 16 \<and> positive_legs (tx_legs tx) \<and>
      (2 ^ 63 \<le> leg_total Debit (tx_legs tx) \<or> 2 ^ 63 \<le> leg_total Credit (tx_legs tx))) \<and>
   validate_transaction_shape tx \<in> {ErrNone, TooFewLegs, TooManyLegs, ZeroAmountLeg,
      AmountOverflow, UnbalancedTransaction}"
proof (cases "shape_loop (tx_legs tx) 0 0")
  case (Inl e)
  then have none: "\<nexists>d c. shape_loop (tx_legs tx) 0 0 = Inr (d, c)" by simp
  have "\<not> (positive_legs (tx_legs tx) \<and> leg_total Debit (tx_legs tx) < 2 ^ 63 \<and>
      leg_total Credit (tx_legs tx) < 2 ^ 63)"
    using none by (rule contrapos_nn) (rule shape_loop_total)
  moreover from Inl have "e = ZeroAmountLeg \<or> e = AmountOverflow" by (rule shape_loop_Inl)
  moreover from Inl have "positive_legs (tx_legs tx) \<Longrightarrow> e \<noteq> ZeroAmountLeg"
    using shape_loop_zero_amount by auto
  ultimately show ?thesis
    using Inl
    by (auto simp: validate_transaction_shape_ok balanced_shape_def validate_transaction_shape_def
        Let_def kMaxLegsPerTransaction_def)
next
  case (Inr p)
  then obtain d c where p: "shape_loop (tx_legs tx) 0 0 = Inr (d, c)" by (cases p) auto
  then have "positive_legs (tx_legs tx)"
    and "leg_total Debit (tx_legs tx) < 2 ^ 63" and "leg_total Credit (tx_legs tx) < 2 ^ 63"
    and "sint d = leg_total Debit (tx_legs tx)" and "sint c = leg_total Credit (tx_legs tx)"
    by (simp_all add: shape_loop_Inr)
  moreover have "d = c \<longleftrightarrow> sint d = sint c" by (simp add: sint_eq_iff)
  ultimately show ?thesis
    using p by (auto simp: validate_transaction_shape_def Let_def kMaxLegsPerTransaction_def
        balanced_shape_def)
qed

text \<open>C19. The overdraft check, in unbounded integer arithmetic: for a balanced transaction
  whose accounts all exist, have a non-negative overdraft limit and do not leave the 64-bit
  range, the check accepts exactly when no debit-normal account it touches ends below minus
  its overdraft limit, all legs of one account being netted first; it never dereferences a
  missing account.\<close>

theorem overdraft_check_exact:
  assumes "balanced_shape (tx_legs tx)"
    and "\<not> unknown_account lookup (tx_legs tx)"
    and "\<And>a account. lookup a = Some account \<Longrightarrow> 0 \<le> sint (overdraft_limit account)"
    and "\<And>a account. lookup a = Some account \<Longrightarrow>
           in_i64 (sint (balance account) + exact_delta (acc_type account) (tx_legs tx) a)"
  shows "validate_transaction_against_state tx lookup =
    Some (if list_all (\<lambda>leg. case lookup (account_id leg) of
                 None \<Rightarrow> True
               | Some account \<Rightarrow>
                   \<not> is_debit_normal (acc_type account) \<or>
                   - sint (overdraft_limit account) \<le>
                     sint (balance account) +
                     exact_delta (acc_type account) (tx_legs tx) (account_id leg)) (tx_legs tx)
          then ErrNone else InsufficientFunds)"
proof -
  have "below_floor account (balance account + net_delta lookup (tx_legs tx) (account_id leg)) \<longleftrightarrow>
      is_debit_normal (acc_type account) \<and>
      sint (balance account) + exact_delta (acc_type account) (tx_legs tx) (account_id leg)
        < - sint (overdraft_limit account)"
    if "lookup (account_id leg) = Some account" for leg :: EntryLeg and account
    using assms(1) that assms(3,4) [OF that] by (rule below_floor_exact)
  then have "overdraws lookup (tx_legs tx) \<longleftrightarrow> \<not> list_all (\<lambda>leg. case lookup (account_id leg) of
                 None \<Rightarrow> True
               | Some account \<Rightarrow>
                   \<not> is_debit_normal (acc_type account) \<or>
                   - sint (overdraft_limit account) \<le>
                     sint (balance account) +
                     exact_delta (acc_type account) (tx_legs tx) (account_id leg)) (tx_legs tx)"
    unfolding overdraws_def list_all_iff list_ex_iff
    by (auto simp: not_le split: option.splits)
  with assms(2) show ?thesis
    by (simp add: validate_transaction_against_state_eq)
qed

text \<open>The accounts and the withdrawal of the repository's own overdraft test.\<close>

definition example_lookup :: AccountLookup where
  "example_lookup = map_of
     [(1, \<lparr>acc_id = 1, acc_type = Asset, balance = 500, overdraft_limit = 200\<rparr>),
      (2, \<lparr>acc_id = 2, acc_type = Revenue, balance = 0, overdraft_limit = 0\<rparr>)]"

definition example_withdrawal :: "Amount \<Rightarrow> Transaction" where
  "example_withdrawal x = make_tx 6 (IdempotencyKey 0 0)
     [\<lparr>account_id = 2, direction = Debit, amount = x\<rparr>,
      \<lparr>account_id = 1, direction = Credit, amount = x\<rparr>]"

theorem overdraft_check_exact_witness:
  "validate_transaction_against_state (example_withdrawal 700) example_lookup = Some ErrNone \<and>
   validate_transaction_against_state (example_withdrawal 800) example_lookup =
     Some InsufficientFunds"
proof -
  have acc: "account = \<lparr>acc_id = 1, acc_type = Asset, balance = 500, overdraft_limit = 200\<rparr> \<and> a = 1 \<or>
      account = \<lparr>acc_id = 2, acc_type = Revenue, balance = 0, overdraft_limit = 0\<rparr> \<and> a = 2"
    if "example_lookup a = Some account" for a account
    using that by (auto simp: example_lookup_def split: if_splits)
  have lim: "0 \<le> sint (overdraft_limit account)" if "example_lookup a = Some account" for a account
    using acc [OF that] by auto
  have ran: "in_i64 (sint (balance account) +
      exact_delta (acc_type account) (tx_legs (example_withdrawal x)) a)"
    if "example_lookup a = Some account" and "x = 700 \<or> x = 800" for a account x
    using acc [OF that(1)] that(2)
    by (auto simp: exact_delta_def example_withdrawal_def is_debit_normal_def in_i64_def)
  have bal: "balanced_shape (tx_legs (example_withdrawal x))" if "x = 700 \<or> x = 800" for x
    using that by (auto simp: balanced_shape_def example_withdrawal_def)
  have known: "\<not> unknown_account example_lookup (tx_legs (example_withdrawal x))" for x
    by (simp add: unknown_account_def example_withdrawal_def example_lookup_def)
  show ?thesis
    using overdraft_check_exact [OF bal [of 700] known lim ran [of _ _ 700]]
      overdraft_check_exact [OF bal [of 800] known lim ran [of _ _ 800]]
    by (simp add: exact_delta_def example_withdrawal_def example_lookup_def is_debit_normal_def)
qed

end
