(* ===== verification/Ledger_State.thy ===== *)
theory Ledger_State
  imports Validation "HOL-Library.Multiset"
begin

text \<open>
  \<open>src/src/ledger_state.cpp\<close> and \<open>include/ledger/ledger_state.hpp\<close>: the account table, the
  application of a transaction, the trial balance, and the store that holds the writer's
  working copy beside the snapshot published to readers.

  The hash map is an association list with distinct keys whose order is the container's
  iteration order. The standard leaves that order open: lookups do not depend on it, and
  \<open>validate_trial_balance_perm\<close> shows that the trial balance does not either.
\<close>

section \<open>The code\<close>

record LedgerState =
  accounts :: "(AccountId \<times> Account) list"
  last_applied_id :: TransactionId

definition empty_state :: LedgerState where
  "empty_state = \<lparr>accounts = [], last_applied_id = 0\<rparr>"

definition add_account :: "Account \<Rightarrow> LedgerState \<Rightarrow> bool \<times> LedgerState" where
  "add_account account s =
     (case map_of (accounts s) (acc_id account) of
        None \<Rightarrow> (True, s\<lparr>accounts := accounts s @ [(acc_id account, account)]\<rparr>)
      | Some _ \<Rightarrow> (False, s))"

definition find_account :: "LedgerState \<Rightarrow> AccountId \<Rightarrow> Account option" where
  "find_account s a = map_of (accounts s) a"

text \<open>A write through the pointer that \<open>find_account_mut\<close> returns.\<close>

definition store_account :: "AccountId \<Rightarrow> Account \<Rightarrow> LedgerState \<Rightarrow> LedgerState" where
  "store_account a account s = s\<lparr>accounts := AList.update a account (accounts s)\<rparr>"

fun apply_legs :: "EntryLeg list \<Rightarrow> LedgerState \<Rightarrow> result_void \<times> LedgerState" where
  "apply_legs [] s = (ErrNone, s)"
| "apply_legs (leg # ls) s =
     (case find_account s (account_id leg) of
        None \<Rightarrow> (AccountNotFound, s)
      | Some account \<Rightarrow>
          apply_legs ls
            (store_account (account_id leg)
               (account\<lparr>balance := balance account +
                  signed_delta (acc_type account) (direction leg) (amount leg)\<rparr>) s))"

definition apply_tx :: "Transaction \<Rightarrow> LedgerState \<Rightarrow> result_void \<times> LedgerState" where
  "apply_tx tx s =
     (case apply_legs (tx_legs tx) s of (e, s') \<Rightarrow>
        if e \<noteq> ErrNone then (e, s')
        else (ErrNone, if tx_id tx > last_applied_id s' then s'\<lparr>last_applied_id := tx_id tx\<rparr> else s'))"

definition set_last_applied_id :: "TransactionId \<Rightarrow> LedgerState \<Rightarrow> LedgerState" where
  "set_last_applied_id i s = s\<lparr>last_applied_id := i\<rparr>"

fun trial_loop :: "(AccountId \<times> Account) list \<Rightarrow> i64 \<Rightarrow> i64 \<Rightarrow> i64 \<times> i64" where
  "trial_loop [] debit_normal_total credit_normal_total = (debit_normal_total, credit_normal_total)"
| "trial_loop ((a, account) # as) debit_normal_total credit_normal_total =
     (if is_debit_normal (acc_type account)
      then trial_loop as (debit_normal_total + balance account) credit_normal_total
      else trial_loop as debit_normal_total (credit_normal_total + balance account))"

definition validate_trial_balance :: "LedgerState \<Rightarrow> result_void" where
  "validate_trial_balance s =
     (case trial_loop (accounts s) 0 0 of (debit_normal_total, credit_normal_total) \<Rightarrow>
        if debit_normal_total \<noteq> credit_normal_total then TrialBalanceMismatch else ErrNone)"

record LedgerStateStore =
  working :: LedgerState
  published :: LedgerState

definition new_store :: LedgerStateStore where
  "new_store = \<lparr>working = empty_state, published = empty_state\<rparr>"

definition publish_snapshot :: "LedgerStateStore \<Rightarrow> LedgerStateStore" where
  "publish_snapshot st = st\<lparr>published := working st\<rparr>"

section \<open>Well-formed states\<close>

definition wf_state :: "LedgerState \<Rightarrow> bool" where
  "wf_state s \<longleftrightarrow>
     distinct (map fst (accounts s)) \<and> list_all (\<lambda>(a, account). acc_id account = a) (accounts s)"

lemma wf_empty_state [simp]: "wf_state empty_state"
  by (simp add: wf_state_def empty_state_def)

lemma find_empty_state [simp]: "find_account empty_state a = None"
  by (simp add: find_account_def empty_state_def)

lemma find_store_account [simp]:
  "find_account (store_account a account s) = (find_account s)(a \<mapsto> account)"
  by (simp add: fun_eq_iff find_account_def store_account_def update_conv')

lemma last_applied_store [simp, frame_simps]:
  "last_applied_id (store_account a account s) = last_applied_id s"
  by (simp add: store_account_def)

lemma list_all_update:
  assumes "list_all P ps" and "P (k, v)"
  shows "list_all P (AList.update k v ps)"
  using assms by (induction ps) auto

lemma wf_store_account:
  assumes "wf_state s" and "acc_id account = a"
  shows "wf_state (store_account a account s)"
  using assms by (simp add: wf_state_def store_account_def distinct_update list_all_update)

lemma wf_find_account: "wf_state s \<Longrightarrow> find_account s a = Some account \<Longrightarrow> acc_id account = a"
  by (auto simp: wf_state_def find_account_def list_all_iff dest!: map_of_SomeD)

lemma wf_add_account: "wf_state s \<Longrightarrow> wf_state (snd (add_account account s))"
  by (auto simp: wf_state_def add_account_def map_of_eq_None_iff split: option.splits)

lemma find_add_account:
  "find_account (snd (add_account account s)) =
     (if fst (add_account account s) then (find_account s)(acc_id account \<mapsto> account)
      else find_account s)"
  by (auto simp: fun_eq_iff add_account_def find_account_def map_add_def split: option.splits)

lemma fst_add_account: "fst (add_account account s) \<longleftrightarrow> find_account s (acc_id account) = None"
  by (auto simp: add_account_def find_account_def split: option.splits)

section \<open>The effect of applying legs\<close>

definition bump :: "Amount \<Rightarrow> Account \<Rightarrow> Account" where
  "bump d account = account\<lparr>balance := balance account + d\<rparr>"

lemma bump_simps [simp]:
  "acc_type (bump d account) = acc_type account"
  "acc_id (bump d account) = acc_id account"
  "overdraft_limit (bump d account) = overdraft_limit account"
  "balance (bump d account) = balance account + d"
  "bump 0 account = account"
  "bump d (bump e account) = bump (e + d) account"
  by (simp_all add: bump_def add.assoc)

text \<open>Every account moves by its net delta; nothing else about it changes.\<close>

definition moved :: "AccountLookup \<Rightarrow> EntryLeg list \<Rightarrow> AccountLookup" where
  "moved lookup ls a = map_option (bump (net_delta lookup ls a)) (lookup a)"

lemma moved_Nil [simp]: "moved lookup [] = lookup"
  by (simp add: fun_eq_iff moved_def option.map_ident_strong)

lemma acc_type_moved [simp]:
  "map_option acc_type (moved lookup ls a) = map_option acc_type (lookup a)"
  by (simp add: moved_def option.map_comp comp_def)

lemma moved_Cons:
  assumes "lookup (account_id leg) = Some account"
  shows "moved lookup (leg # ls) =
    moved (lookup(account_id leg \<mapsto>
      bump (signed_delta (acc_type account) (direction leg) (amount leg)) account)) ls"
    (is "_ = moved ?lookup' ls")
proof
  fix a
  have "map_option acc_type (?lookup' a) = map_option acc_type (lookup a)"
    using assms by simp
  then have "net_delta ?lookup' ls a = net_delta lookup ls a"
    by (rule net_delta_cong)
  then show "moved lookup (leg # ls) a = moved ?lookup' ls a"
    using assms by (auto simp: moved_def leg_delta_def split: option.splits)
qed

lemma unknown_account_dom:
  "unknown_account lookup ls \<longleftrightarrow> \<not> account_id ` set ls \<subseteq> dom lookup"
  by (auto simp: unknown_account_def list_ex_iff)

lemma apply_legs_known:
  assumes "account_id ` set ls \<subseteq> dom (find_account s)"
  shows "fst (apply_legs ls s) = ErrNone \<and>
         find_account (snd (apply_legs ls s)) = moved (find_account s) ls"
  using assms
proof (induction ls arbitrary: s)
  case Nil
  then show ?case by simp
next
  case (Cons leg ls)
  then obtain account where acc: "find_account s (account_id leg) = Some account" by auto
  let ?s = "store_account (account_id leg)
    (bump (signed_delta (acc_type account) (direction leg) (amount leg)) account) s"
  from Cons.prems have "account_id ` set ls \<subseteq> dom (find_account ?s)" by auto
  from Cons.IH [OF this] acc show ?case
    by (simp add: moved_Cons [where lookup = "find_account s", OF acc] fun_upd_def flip: bump_def)
qed

lemma last_applied_apply_legs [simp, frame_simps]:
  "last_applied_id (snd (apply_legs ls s)) = last_applied_id s"
  by (induction ls arbitrary: s) (auto split: option.splits)

lemma wf_apply_legs: "wf_state s \<Longrightarrow> wf_state (snd (apply_legs ls s))"
proof (induction ls arbitrary: s)
  case Nil
  then show ?case by simp
next
  case (Cons leg ls)
  then show ?case
    by (auto intro!: Cons.IH wf_store_account dest: wf_find_account split: option.splits)
qed

lemma apply_legs_unknown:
  assumes "unknown_account (find_account s) ls"
  shows "apply_legs ls s =
    (AccountNotFound,
     snd (apply_legs (takeWhile (\<lambda>leg. account_id leg \<in> dom (find_account s)) ls) s))"
  using assms
proof (induction ls arbitrary: s)
  case Nil
  then show ?case by (simp add: unknown_account_def)
next
  case (Cons leg ls)
  show ?case
  proof (cases "find_account s (account_id leg)")
    case None
    then show ?thesis by (simp add: domIff)
  next
    case (Some account)
    let ?s = "store_account (account_id leg) (account\<lparr>balance := balance account +
      signed_delta (acc_type account) (direction leg) (amount leg)\<rparr>) s"
    have dom: "dom (find_account ?s) = dom (find_account s)" using Some by auto
    have "unknown_account (find_account ?s) ls"
      using Cons.prems Some unfolding unknown_account_dom dom by auto
    from Cons.IH [OF this] have "apply_legs ls ?s = (AccountNotFound,
        snd (apply_legs (takeWhile (\<lambda>leg. account_id leg \<in> dom (find_account s)) ls) ?s))"
      unfolding dom .
    then show ?thesis using Some by (simp add: domI)
  qed
qed

section \<open>The trial balance\<close>

text \<open>
  The signed sum over all accounts, debit-normal ones counted positively. All sums are taken
  modulo \<open>2 ^ 64\<close>, as the code takes them, and the accounting identity is exact there.
\<close>

definition trial_sum :: "(AccountId \<times> Account) list \<Rightarrow> Amount" where
  "trial_sum as = (\<Sum>(a, account)\<leftarrow>as. ledger_sign (acc_type account) (balance account))"

lemma trial_sum_simps [simp]:
  "trial_sum [] = 0"
  "trial_sum ((a, account) # as) =
     ledger_sign (acc_type account) (balance account) + trial_sum as"
  "trial_sum (as @ bs) = trial_sum as + trial_sum bs"
  by (simp_all add: trial_sum_def)

lemma trial_loop_diff:
  "fst (trial_loop as d c) - snd (trial_loop as d c) = d - c + trial_sum as"
  by (induction as d c rule: trial_loop.induct) (simp_all add: ledger_sign_def)

lemma validate_trial_balance_eq:
  "validate_trial_balance s = (if trial_sum (accounts s) = 0 then ErrNone else TrialBalanceMismatch)"
  using trial_loop_diff [of "accounts s" 0 0]
  by (auto simp: validate_trial_balance_def split: prod.splits)

lemma trial_sum_perm: "mset as = mset bs \<Longrightarrow> trial_sum as = trial_sum bs"
  unfolding trial_sum_def by (simp flip: sum_mset_sum_list)

text \<open>What the legs of a transaction add to the trial sum.\<close>

definition leg_imbalance :: "EntryLeg list \<Rightarrow> Amount" where
  "leg_imbalance ls = (\<Sum>leg\<leftarrow>ls. if direction leg = Debit then amount leg else - amount leg)"

lemma leg_imbalance_simps [simp]:
  "leg_imbalance [] = 0"
  "leg_imbalance (leg # ls) =
     (if direction leg = Debit then amount leg else - amount leg) + leg_imbalance ls"
  by (simp_all add: leg_imbalance_def)

lemma leg_imbalance_of_int:
  "leg_imbalance ls = of_int (leg_total Debit ls - leg_total Credit ls)"
proof (induction ls)
  case Nil
  then show ?case by simp
next
  case (Cons leg ls)
  then show ?case by (cases "direction leg") simp_all
qed

lemma balanced_shape_imbalance: "balanced_shape ls \<Longrightarrow> leg_imbalance ls = 0"
  by (simp add: leg_imbalance_of_int balanced_shape_def)

lemma trial_sum_update:
  assumes "map_of as a = Some account" and "acc_type account' = acc_type account"
  shows "trial_sum (AList.update a account' as) =
         trial_sum as + ledger_sign (acc_type account) (balance account' - balance account)"
  using assms
proof (induction as)
  case Nil
  then show ?case by simp
next
  case (Cons p as)
  then show ?case
    by (cases p) (auto simp: ledger_sign_def)
qed

lemma trial_sum_apply_legs:
  assumes "account_id ` set ls \<subseteq> dom (find_account s)"
  shows "trial_sum (accounts (snd (apply_legs ls s))) = trial_sum (accounts s) + leg_imbalance ls"
  using assms
proof (induction ls arbitrary: s)
  case Nil
  then show ?case by simp
next
  case (Cons leg ls)
  then obtain account where acc: "find_account s (account_id leg) = Some account" by auto
  let ?d = "signed_delta (acc_type account) (direction leg) (amount leg)"
  let ?s = "store_account (account_id leg) (bump ?d account) s"
  from acc have step: "trial_sum (accounts ?s) =
      trial_sum (accounts s) + ledger_sign (acc_type account) ?d"
    by (simp add: store_account_def find_account_def trial_sum_update)
  from Cons.prems have "account_id ` set ls \<subseteq> dom (find_account ?s)" by auto
  from Cons.IH [OF this] step acc show ?case
    by (simp add: algebra_simps flip: bump_def)
qed

section \<open>Applying a whole transaction\<close>

lemma apply_tx_known:
  assumes "\<not> unknown_account (find_account s) (tx_legs tx)"
  shows "fst (apply_tx tx s) = ErrNone"
    and "find_account (snd (apply_tx tx s)) = moved (find_account s) (tx_legs tx)"
    and "last_applied_id (snd (apply_tx tx s)) = max (last_applied_id s) (tx_id tx)"
    and "trial_sum (accounts (snd (apply_tx tx s))) =
           trial_sum (accounts s) + leg_imbalance (tx_legs tx)"
proof -
  have known: "account_id ` set (tx_legs tx) \<subseteq> dom (find_account s)"
    using assms by (simp add: unknown_account_dom)
  obtain e s' where res: "apply_legs (tx_legs tx) s = (e, s')" by (cases "apply_legs (tx_legs tx) s")
  from apply_legs_known [OF known] res
  have "e = ErrNone" and "find_account s' = moved (find_account s) (tx_legs tx)" by simp_all
  moreover have "last_applied_id s' = last_applied_id s"
    using last_applied_apply_legs [of "tx_legs tx" s] res by simp
  moreover have "trial_sum (accounts s') = trial_sum (accounts s) + leg_imbalance (tx_legs tx)"
    using trial_sum_apply_legs [OF known] res by simp
  ultimately show "fst (apply_tx tx s) = ErrNone"
    and "find_account (snd (apply_tx tx s)) = moved (find_account s) (tx_legs tx)"
    and "last_applied_id (snd (apply_tx tx s)) = max (last_applied_id s) (tx_id tx)"
    and "trial_sum (accounts (snd (apply_tx tx s))) =
           trial_sum (accounts s) + leg_imbalance (tx_legs tx)"
    using res by (auto simp: apply_tx_def find_account_def fun_eq_iff max_def)
qed

lemma wf_apply_tx: "wf_state s \<Longrightarrow> wf_state (snd (apply_tx tx s))"
proof -
  assume "wf_state s"
  then have "wf_state (snd (apply_legs (tx_legs tx) s))" by (rule wf_apply_legs)
  then show ?thesis by (auto simp: apply_tx_def wf_state_def split: prod.splits)
qed

section \<open>The contract of an account book\<close>

text \<open>
  The engine's writer and the recovery loop use the account table through a lookup, the
  application of a transaction and the trial balance. \<open>admitted\<close> is what the writer has
  checked of a transaction before it appends it to the log.
\<close>

definition admitted :: "AccountLookup \<Rightarrow> Transaction \<Rightarrow> bool" where
  "admitted lookup tx \<longleftrightarrow>
     validate_transaction_shape tx = ErrNone \<and>
     validate_transaction_against_state tx lookup = Some ErrNone"

text \<open>No debit-normal account stands below its overdraft floor.\<close>

definition solvent :: "AccountLookup \<Rightarrow> bool" where
  "solvent lookup \<longleftrightarrow>
     (\<forall>a account. lookup a = Some account \<longrightarrow> \<not> below_floor account (balance account))"

fun apply_run :: "(Transaction \<Rightarrow> 's \<Rightarrow> result_void \<times> 's) \<Rightarrow> Transaction list \<Rightarrow> 's \<Rightarrow> 's" where
  "apply_run app [] s = s"
| "apply_run app (tx # txs) s = apply_run app txs (snd (app tx s))"

fun admitted_run ::
    "('s \<Rightarrow> AccountLookup) \<Rightarrow> (Transaction \<Rightarrow> 's \<Rightarrow> result_void \<times> 's) \<Rightarrow> Transaction list \<Rightarrow> 's \<Rightarrow> bool"
where
  "admitted_run lookup_of app [] s \<longleftrightarrow> True"
| "admitted_run lookup_of app (tx # txs) s \<longleftrightarrow>
     admitted (lookup_of s) tx \<and> admitted_run lookup_of app txs (snd (app tx s))"

lemma apply_run_append: "apply_run app (xs @ ys) s = apply_run app ys (apply_run app xs s)"
  by (induction xs arbitrary: s) simp_all

lemma admitted_run_append:
  "admitted_run lookup_of app (xs @ ys) s \<longleftrightarrow>
     admitted_run lookup_of app xs s \<and> admitted_run lookup_of app ys (apply_run app xs s)"
  by (induction xs arbitrary: s) simp_all

lemma admitted_iff:
  "admitted lookup tx \<longleftrightarrow>
     balanced_shape (tx_legs tx) \<and> \<not> unknown_account lookup (tx_legs tx) \<and>
     \<not> overdraws lookup (tx_legs tx)"
  by (auto simp: admitted_def validate_transaction_shape_ok validate_transaction_against_state_eq)

lemma solvent_moved:
  assumes "solvent lookup" and "\<not> overdraws lookup ls"
  shows "solvent (moved lookup ls)"
  unfolding solvent_def
proof (intro allI impI)
  fix a account'
  assume "moved lookup ls a = Some account'"
  then obtain account where acc: "lookup a = Some account"
    and acc': "account' = bump (net_delta lookup ls a) account"
    by (auto simp: moved_def)
  show "\<not> below_floor account' (balance account')"
  proof (cases "a \<in> account_id ` set ls")
    case True
    with acc assms(2) have "\<not> below_floor account (balance account + net_delta lookup ls a)"
      by (auto simp: overdraws_def list_ex_iff)
    with acc' show ?thesis by (simp add: below_floor_def)
  next
    case False
    with acc acc' assms(1) show ?thesis
      by (simp add: net_delta_untouched solvent_def)
  qed
qed

text \<open>The money a sequence of transactions moves, in unbounded integers.\<close>

definition volume :: "Transaction list \<Rightarrow> int" where
  "volume txs = (\<Sum>tx\<leftarrow>txs. leg_total Debit (tx_legs tx))"

definition exact_run_delta :: "AccountType \<Rightarrow> Transaction list \<Rightarrow> AccountId \<Rightarrow> int" where
  "exact_run_delta t txs a = (\<Sum>tx\<leftarrow>txs. exact_delta t (tx_legs tx) a)"

lemma volume_simps [simp]:
  "volume [] = 0" "volume (tx # txs) = leg_total Debit (tx_legs tx) + volume txs"
  "exact_run_delta t [] a = 0"
  "exact_run_delta t (tx # txs) a = exact_delta t (tx_legs tx) a + exact_run_delta t txs a"
  by (simp_all add: volume_def exact_run_delta_def)

lemma moved_exact:
  assumes "balanced_shape ls" and "lookup a = Some account"
    and "\<bar>sint (balance account)\<bar> + leg_total Debit ls < 2 ^ 63"
  shows "\<exists>account'. moved lookup ls a = Some account' \<and> acc_type account' = acc_type account \<and>
    sint (balance account') = sint (balance account) + exact_delta (acc_type account) ls a \<and>
    \<bar>sint (balance account')\<bar> \<le> \<bar>sint (balance account)\<bar> + leg_total Debit ls"
proof -
  let ?d = "exact_delta (acc_type account) ls a"
  have "\<bar>?d\<bar> \<le> leg_total Debit ls"
    using assms(1) exact_delta_one_side [of ls "acc_type account" a] by (auto simp: balanced_shape_def)
  moreover from this have "sint (balance account + net_delta lookup ls a) = sint (balance account) + ?d"
    using assms(3) sint_net_delta [where lookup = lookup, OF assms(1,2)] by (subst sint_add_i64) (auto simp: in_i64_def)
  ultimately show ?thesis using assms(2) by (auto simp: moved_def)
qed

locale account_book =
  fixes lookup_of :: "'s \<Rightarrow> AccountLookup"
    and app :: "Transaction \<Rightarrow> 's \<Rightarrow> result_void \<times> 's"
    and trial :: "'s \<Rightarrow> result_void"
    and last_id :: "'s \<Rightarrow> TransactionId"
  assumes app_ok: "\<not> unknown_account (lookup_of s) (tx_legs tx) \<Longrightarrow> fst (app tx s) = ErrNone"
    and app_find: "\<not> unknown_account (lookup_of s) (tx_legs tx) \<Longrightarrow>
          lookup_of (snd (app tx s)) = moved (lookup_of s) (tx_legs tx)"
    and app_last: "\<not> unknown_account (lookup_of s) (tx_legs tx) \<Longrightarrow>
          last_id (snd (app tx s)) = max (last_id s) (tx_id tx)"
    and app_trial: "\<not> unknown_account (lookup_of s) (tx_legs tx) \<Longrightarrow> balanced_shape (tx_legs tx) \<Longrightarrow>
          trial (snd (app tx s)) = trial s"
begin

lemma admitted_step:
  assumes "admitted (lookup_of s) tx"
  shows "fst (app tx s) = ErrNone"
    and "lookup_of (snd (app tx s)) = moved (lookup_of s) (tx_legs tx)"
    and "last_id (snd (app tx s)) = max (last_id s) (tx_id tx)"
    and "trial (snd (app tx s)) = trial s"
    and "solvent (lookup_of s) \<Longrightarrow> solvent (lookup_of (snd (app tx s)))"
  using assms by (simp_all add: admitted_iff app_ok app_find app_last app_trial solvent_moved)

lemma run_trial: "admitted_run lookup_of app txs s \<Longrightarrow> trial (apply_run app txs s) = trial s"
  by (induction txs arbitrary: s) (simp_all add: admitted_step)

lemma run_solvent:
  "admitted_run lookup_of app txs s \<Longrightarrow> solvent (lookup_of s) \<Longrightarrow> solvent (lookup_of (apply_run app txs s))"
  by (induction txs arbitrary: s) (auto intro: admitted_step(5))

lemma run_dom: "admitted_run lookup_of app txs s \<Longrightarrow> dom (lookup_of (apply_run app txs s)) = dom (lookup_of s)"
proof (induction txs arbitrary: s)
  case Nil
  then show ?case by simp
next
  case (Cons tx txs)
  then have "dom (lookup_of (snd (app tx s))) = dom (lookup_of s)"
    by (auto simp: admitted_step moved_def dom_def)
  with Cons show ?case by simp
qed

lemma volume_nonneg: "admitted_run lookup_of app txs s \<Longrightarrow> 0 \<le> volume txs"
  by (induction txs arbitrary: s) (auto simp: admitted_iff balanced_shape_def intro!: add_nonneg_nonneg leg_total_nonneg)

lemma run_exact:
  assumes "admitted_run lookup_of app txs s" and "lookup_of s a = Some account"
    and "\<bar>sint (balance account)\<bar> + volume txs < 2 ^ 63"
  shows "\<exists>account'. lookup_of (apply_run app txs s) a = Some account' \<and> acc_type account' = acc_type account \<and>
    sint (balance account') = sint (balance account) + exact_run_delta (acc_type account) txs a"
  using assms
proof (induction txs arbitrary: s account)
  case Nil
  then show ?case by simp
next
  case (Cons tx txs)
  have adm: "admitted (lookup_of s) tx" and rest: "admitted_run lookup_of app txs (snd (app tx s))"
    using Cons.prems(1) by simp_all
  have shape: "balanced_shape (tx_legs tx)" using adm by (simp add: admitted_iff)
  have pos: "0 \<le> volume txs" by (rule volume_nonneg [OF rest])
  obtain account1 where one: "moved (lookup_of s) (tx_legs tx) a = Some account1" "acc_type account1 = acc_type account"
    "sint (balance account1) = sint (balance account) + exact_delta (acc_type account) (tx_legs tx) a"
    "\<bar>sint (balance account1)\<bar> \<le> \<bar>sint (balance account)\<bar> + leg_total Debit (tx_legs tx)"
    using moved_exact [where lookup = "lookup_of s", OF shape Cons.prems(2)] Cons.prems(3) pos by auto
  have "\<bar>sint (balance account1)\<bar> + volume txs < 2 ^ 63" using one(4) Cons.prems(3) by simp
  from Cons.IH [OF rest _ this] show ?case using one(1-3) by (simp add: admitted_step [OF adm] add.assoc)
qed

lemma run_last:
  "admitted_run lookup_of app txs s \<Longrightarrow>
     last_id (apply_run app txs s) = fold max (map tx_id txs) (last_id s)"
  by (induction txs arbitrary: s) (simp_all add: admitted_step max.commute)

end

interpretation book: account_book find_account apply_tx validate_trial_balance last_applied_id
  by unfold_locales
    (simp_all add: apply_tx_known validate_trial_balance_eq balanced_shape_imbalance)

section \<open>Properties\<close>

text \<open>A small book: a cash account with an overdraft limit and a revenue account, both at
  zero, as the demo driver seeds them, and a sale of ten units.\<close>

definition example_book :: LedgerState where
  "example_book = snd (add_account
     \<lparr>acc_id = 2, acc_type = Revenue, balance = 0, overdraft_limit = 0\<rparr>
     (snd (add_account \<lparr>acc_id = 1, acc_type = Asset, balance = 0, overdraft_limit = 50000\<rparr>
        empty_state)))"

definition example_sale :: "TransactionId \<Rightarrow> Amount \<Rightarrow> Transaction" where
  "example_sale i x = make_tx i (IdempotencyKey i i)
     [\<lparr>account_id = 2, direction = Debit, amount = x\<rparr>,
      \<lparr>account_id = 1, direction = Credit, amount = x\<rparr>]"

lemma accounts_example_book:
  "accounts example_book =
     [(1, \<lparr>acc_id = 1, acc_type = Asset, balance = 0, overdraft_limit = 50000\<rparr>),
      (2, \<lparr>acc_id = 2, acc_type = Revenue, balance = 0, overdraft_limit = 0\<rparr>)]"
  by (simp add: example_book_def add_account_def empty_state_def)

lemma last_applied_example_book [simp]: "last_applied_id example_book = 0"
  by (simp add: example_book_def add_account_def empty_state_def)

lemma example_sale_simps [simp]:
  "tx_id (example_sale i x) = i"
  "idempotency_key (example_sale i x) = IdempotencyKey i i"
  "tx_legs (example_sale i x) =
     [\<lparr>account_id = 2, direction = Debit, amount = x\<rparr>,
      \<lparr>account_id = 1, direction = Credit, amount = x\<rparr>]"
  "wf_tx (example_sale i x)"
  by (simp_all add: example_sale_def)

lemma example_sale_admitted: "admitted (find_account example_book) (example_sale i 10)"
  by (simp add: admitted_iff find_account_def accounts_example_book balanced_shape_def
      unknown_account_def overdraws_def below_floor_def is_debit_normal_def leg_delta_def
      signed_delta_def word_sless_alt)

text \<open>Applying a transaction whose accounts all exist succeeds, moves every account by
  exactly the net of its legs, changes no other field of any account, and raises the last
  applied id to the transaction's id if that is larger.\<close>

theorem apply_moves_balances:
  assumes "\<not> unknown_account (find_account s) (tx_legs tx)"
  shows "fst (apply_tx tx s) = ErrNone \<and>
    find_account (snd (apply_tx tx s)) a =
      map_option (\<lambda>account. account\<lparr>balance :=
        balance account + net_delta (find_account s) (tx_legs tx) a\<rparr>) (find_account s a) \<and>
    last_applied_id (snd (apply_tx tx s)) = max (last_applied_id s) (tx_id tx)"
  using apply_tx_known [OF assms] by (simp add: moved_def bump_def [abs_def])

theorem apply_moves_balances_witness:
  "find_account (snd (apply_tx (example_sale 1 10) example_book)) 1 =
     Some \<lparr>acc_id = 1, acc_type = Asset, balance = -10, overdraft_limit = 50000\<rparr>"
proof -
  have known: "\<not> unknown_account (find_account example_book) (tx_legs (example_sale 1 10))"
    by (simp add: unknown_account_def find_account_def accounts_example_book)
  show ?thesis
    using apply_moves_balances [OF known, of 1]
    by (simp add: find_account_def accounts_example_book leg_delta_def signed_delta_def
        is_debit_normal_def)
qed

text \<open>C20. Balances are exact as long as the money fits. While the initial balance and the volume of all
  transactions together stay below \<open>2 ^ 63\<close>, no sum of an account wraps: after any sequence of
  admitted transactions its balance is the initial one plus the net of all its legs, in unbounded
  integer arithmetic.\<close>

theorem balances_exact:
  assumes "admitted_run find_account apply_tx txs s" and "find_account s a = Some account"
    and "\<bar>sint (balance account)\<bar> + volume txs < 2 ^ 63"
  shows "\<exists>account'. find_account (apply_run apply_tx txs s) a = Some account' \<and> acc_type account' = acc_type account \<and>
    sint (balance account') = sint (balance account) + exact_run_delta (acc_type account) txs a"
  using assms by (rule book.run_exact)

theorem balances_exact_witness:
  "\<exists>account'. find_account (apply_run apply_tx [example_sale 1 10] example_book) 1 = Some account' \<and>
     sint (balance account') = -10"
proof -
  have acc: "find_account example_book 1 = Some \<lparr>acc_id = 1, acc_type = Asset, balance = 0, overdraft_limit = 50000\<rparr>"
    by (simp add: find_account_def accounts_example_book)
  show ?thesis
    using balances_exact [OF _ acc, of "[example_sale 1 10]"]
    by (auto simp: example_sale_admitted exact_delta_def is_debit_normal_def)
qed

text \<open>Double entry is preserved: along any sequence of transactions that the validation
  admits, applied one after the other, the verdict of the trial balance never changes; a
  ledger that starts balanced stays balanced.\<close>

theorem trial_balance_preserved:
  assumes "admitted_run find_account apply_tx txs s"
  shows "validate_trial_balance (apply_run apply_tx txs s) = validate_trial_balance s"
  using assms by (rule book.run_trial)

theorem trial_balance_preserved_witness:
  "validate_trial_balance (apply_run apply_tx [example_sale 1 10] example_book) = ErrNone"
  using trial_balance_preserved [of "[example_sale 1 10]" example_book]
  by (simp add: example_sale_admitted validate_trial_balance_eq accounts_example_book ledger_sign_def)

text \<open>No overdraft: if no Asset or Expense account stands below minus its overdraft limit,
  then after any sequence of admitted transactions none does, and the set of accounts is the
  same.\<close>

theorem overdraft_floor_preserved:
  assumes "admitted_run find_account apply_tx txs s"
    and "solvent (find_account s)"
  shows "solvent (find_account (apply_run apply_tx txs s)) \<and>
    dom (find_account (apply_run apply_tx txs s)) = dom (find_account s)"
  using assms by (simp add: book.run_solvent book.run_dom)

theorem overdraft_floor_preserved_witness:
  "solvent (find_account (apply_run apply_tx [example_sale 1 10] example_book))"
proof -
  have "solvent (find_account example_book)"
    by (auto simp: solvent_def below_floor_def find_account_def accounts_example_book
        word_sless_alt split: if_splits)
  with overdraft_floor_preserved [of "[example_sale 1 10]" example_book] show ?thesis
    by (simp add: example_sale_admitted)
qed

text \<open>Applying a transaction with an unknown account reports \<open>AccountNotFound\<close> and stops at
  the first such leg: the legs before it stay applied, and the last applied id is left alone.
  The operation is not atomic on this path, which the header documents as a precondition.\<close>

theorem apply_stops_at_unknown_account:
  assumes "unknown_account (find_account s) (tx_legs tx)"
  shows "fst (apply_tx tx s) = AccountNotFound \<and>
    snd (apply_tx tx s) =
      snd (apply_legs (takeWhile (\<lambda>leg. account_id leg \<in> dom (find_account s)) (tx_legs tx)) s) \<and>
    last_applied_id (snd (apply_tx tx s)) = last_applied_id s"
  using assms by (simp add: apply_tx_def apply_legs_unknown)

theorem apply_stops_at_unknown_account_witness:
  "find_account (snd (apply_tx (make_tx 1 (IdempotencyKey 0 0)
      [\<lparr>account_id = 2, direction = Credit, amount = 5\<rparr>,
       \<lparr>account_id = 9, direction = Debit, amount = 5\<rparr>]) example_book)) 2 =
     Some \<lparr>acc_id = 2, acc_type = Revenue, balance = 5, overdraft_limit = 0\<rparr>"
proof -
  let ?tx = "make_tx 1 (IdempotencyKey 0 0)
      [\<lparr>account_id = 2, direction = Credit, amount = 5\<rparr>,
       \<lparr>account_id = 9, direction = Debit, amount = 5\<rparr>]"
  have "unknown_account (find_account example_book) (tx_legs ?tx)"
    by (simp add: unknown_account_def find_account_def accounts_example_book)
  from apply_stops_at_unknown_account [OF this] show ?thesis
    by (simp add: domIff find_account_def accounts_example_book store_account_def signed_delta_def
        is_debit_normal_def)
qed

text \<open>The trial balance does not depend on the iteration order of the account table.\<close>

theorem trial_balance_order_independent:
  assumes "mset (accounts s) = mset (accounts s')"
  shows "validate_trial_balance s = validate_trial_balance s'"
  using trial_sum_perm [OF assms] by (simp add: validate_trial_balance_eq)

theorem trial_balance_order_independent_witness:
  "validate_trial_balance example_book =
   validate_trial_balance (example_book\<lparr>accounts := rev (accounts example_book)\<rparr>)"
  by (rule trial_balance_order_independent) simp

end
