(* ===== verification/Wal_Codec.thy ===== *)
theory Wal_Codec
  imports Ledger_Types
begin

text \<open>
  \<open>include/ledger/wal_format.hpp\<close> and \<open>src/src/wal_codec.cpp\<close>: the packed record header and
  the binary encoding of a transaction's payload. The encoder writes into the fixed buffer of
  512 bytes and the decoder reads the buffer it is given, both through the bounds-checked
  \<open>put\<close> and \<open>get\<close>; the theorems show that neither ever leaves its buffer and that decoding
  inverts encoding in both directions.
\<close>

section \<open>The record header\<close>

definition kMagic :: u32 where
  "kMagic = 0x4C454447"

definition kVersion :: u16 where
  "kVersion = 1"

record RecordHeader =
  hdr_magic :: u32
  hdr_version :: u16
  hdr_flags :: u16
  hdr_payload_size :: u32
  hdr_transaction_id :: u64
  hdr_timestamp_ns :: i64

definition kHeaderSize :: nat where
  "kHeaderSize = 28"

definition kCrcSize :: nat where
  "kCrcSize = 4"

definition kMaxPayloadSize :: nat where
  "kMaxPayloadSize = 512"

definition kMaxRecordSize :: nat where
  "kMaxRecordSize = kHeaderSize + kMaxPayloadSize + kCrcSize"

datatype SyncMode = SyncEveryWrite | BatchSyncFlush

text \<open>The bytes of the packed struct and the struct read from its bytes.\<close>

definition header_bytes :: "RecordHeader \<Rightarrow> byte list" where
  "header_bytes h =
     le_bytes 4 (hdr_magic h) @ le_bytes 2 (hdr_version h) @ le_bytes 2 (hdr_flags h) @
     le_bytes 4 (hdr_payload_size h) @ le_bytes 8 (hdr_transaction_id h) @
     le_bytes 8 (hdr_timestamp_ns h)"

definition header_of_bytes :: "byte list \<Rightarrow> RecordHeader" where
  "header_of_bytes bs =
     \<lparr>hdr_magic = le_word (take 4 bs),
      hdr_version = le_word (take 2 (drop 4 bs)),
      hdr_flags = le_word (take 2 (drop 6 bs)),
      hdr_payload_size = le_word (take 4 (drop 8 bs)),
      hdr_transaction_id = le_word (take 8 (drop 12 bs)),
      hdr_timestamp_ns = le_word (take 8 (drop 20 bs))\<rparr>"

interpretation header_codec: fixed_codec 28 header_bytes header_of_bytes "\<lambda>_. True"
  by unfold_locales (simp_all add: header_bytes_def header_of_bytes_def)

section \<open>The payload encoder and decoder\<close>

record EncodedPayload =
  ep_bytes :: "byte list"
  ep_size :: u32

definition payload_span :: "EncodedPayload \<Rightarrow> byte list" where
  "payload_span p = take (unat (ep_size p)) (ep_bytes p)"

fun put_legs :: "byte list \<Rightarrow> nat \<Rightarrow> EntryLeg list \<Rightarrow> (byte list \<times> nat) option" where
  "put_legs dst offset [] = Some (dst, offset)"
| "put_legs dst offset (leg # ls) = do {
     (dst, offset) \<leftarrow> put dst offset (le_bytes 8 (account_id leg));
     (dst, offset) \<leftarrow> put dst offset (le_bytes 1 (byte_of_direction (direction leg)));
     (dst, offset) \<leftarrow> put dst offset (le_bytes 8 (amount leg));
     put_legs dst offset ls
   }"

definition encode_transaction_payload :: "Transaction \<Rightarrow> EncodedPayload result option" where
  "encode_transaction_payload tx =
     (let ls = tx_legs tx;
          required = 8 * 2 + 1 + length ls * (8 + 1 + 8) in
      if required > kMaxPayloadSize then Some (Inl WalPayloadTooLarge)
      else do {
        (dst, offset) \<leftarrow> put (replicate kMaxPayloadSize 0) 0
                            (le_bytes 8 (key_high (idempotency_key tx)));
        (dst, offset) \<leftarrow> put dst offset (le_bytes 8 (key_low (idempotency_key tx)));
        (dst, offset) \<leftarrow> put dst offset (le_bytes 1 (of_nat (length ls) :: byte));
        (dst, offset) \<leftarrow> put_legs dst offset ls;
        Some (Inr \<lparr>ep_bytes = dst, ep_size = of_nat offset\<rparr>)
      })"

fun decode_legs :: "byte list \<Rightarrow> nat \<Rightarrow> nat \<Rightarrow> LegList \<Rightarrow> LegList result option" where
  "decode_legs payload 0 offset acc = Some (Inr acc)"
| "decode_legs payload (Suc n) offset acc = do {
     (account, offset) \<leftarrow> get payload offset 8;
     (dir, offset) \<leftarrow> get payload offset 1;
     if (le_word dir :: byte) > byte_of_direction Credit then Some (Inl WalCorruptRecord)
     else do {
       (amt, offset) \<leftarrow> get payload offset 8;
       let leg = \<lparr>account_id = le_word account,
                  direction = (if (le_word dir :: byte) = 0 then Debit else Credit),
                  amount = le_word amt\<rparr>;
       let (ok, acc') = push_back leg acc;
       if \<not> ok then Some (Inl WalCorruptRecord) else decode_legs payload n offset acc'
     }
   }"

definition decode_transaction_payload ::
    "byte list \<Rightarrow> TransactionId \<Rightarrow> i64 \<Rightarrow> Transaction result option" where
  "decode_transaction_payload payload i timestamp_ns =
     (if length payload < 8 * 2 + 1 then Some (Inl WalCorruptRecord)
      else do {
        (high, offset) \<leftarrow> get payload 0 8;
        (low, offset) \<leftarrow> get payload offset 8;
        (cnt, offset) \<leftarrow> get payload offset 1;
        let leg_count = unat (le_word cnt :: byte);
        if leg_count > kMaxLegsPerTransaction then Some (Inl WalCorruptRecord)
        else if length payload \<noteq> offset + leg_count * (8 + 1 + 8) then Some (Inl WalCorruptRecord)
        else do {
          r \<leftarrow> decode_legs payload leg_count offset empty_legs;
          Some (case r of
              Inl e \<Rightarrow> Inl e
            | Inr ls \<Rightarrow> Inr \<lparr>tx_id = i,
                             idempotency_key = IdempotencyKey (le_word high) (le_word low),
                             created_at_ns = timestamp_ns, legs = ls\<rparr>)
        }
      })"

section \<open>The byte layout\<close>

definition leg_bytes :: "EntryLeg \<Rightarrow> byte list" where
  "leg_bytes leg =
     le_bytes 8 (account_id leg) @ le_bytes 1 (byte_of_direction (direction leg)) @
     le_bytes 8 (amount leg)"

definition leg_of_bytes :: "byte list \<Rightarrow> EntryLeg" where
  "leg_of_bytes bs =
     \<lparr>account_id = le_word (take 8 bs),
      direction = (if (le_word (take 1 (drop 8 bs)) :: byte) = 0 then Debit else Credit),
      amount = le_word (take 8 (drop 9 bs))\<rparr>"

definition payload_bytes :: "Transaction \<Rightarrow> byte list" where
  "payload_bytes tx =
     le_bytes 8 (key_high (idempotency_key tx)) @ le_bytes 8 (key_low (idempotency_key tx)) @
     le_bytes 1 (of_nat (length (tx_legs tx)) :: byte) @ concat (map leg_bytes (tx_legs tx))"

interpretation leg_codec: fixed_codec 17 leg_bytes leg_of_bytes "\<lambda>_. True"
proof
  fix leg :: EntryLeg
  show "length (leg_bytes leg) = 17" by (simp add: leg_bytes_def)
  show "leg_of_bytes (leg_bytes leg) = leg"
    by (cases "direction leg") (simp_all add: leg_bytes_def leg_of_bytes_def)
qed

lemma length_payload_bytes: "length (payload_bytes tx) = 17 + 17 * length (tx_legs tx)"
  by (simp add: payload_bytes_def leg_codec.length_concat_enc)

lemma put_legs_eq:
  assumes "length acc + 17 * length ls \<le> n"
  shows "put_legs (acc @ replicate (n - length acc) 0) (length acc) ls =
    Some ((acc @ concat (map leg_bytes ls)) @
            replicate (n - length (acc @ concat (map leg_bytes ls))) 0,
          length (acc @ concat (map leg_bytes ls)))"
  using assms
proof (induction ls arbitrary: acc)
  case Nil
  then show ?case by simp
next
  case (Cons leg ls)
  let ?a = "le_bytes 8 (account_id leg)"
  let ?d = "le_bytes 1 (byte_of_direction (direction leg))"
  let ?m = "le_bytes 8 (amount leg)"
  have "put_legs (acc @ replicate (n - length acc) 0) (length acc) (leg # ls) =
      put_legs (((acc @ ?a @ ?d @ ?m) @ replicate (n - length (acc @ ?a @ ?d @ ?m)) 0))
        (length (acc @ ?a @ ?d @ ?m)) ls"
    using Cons.prems put_extend [of acc ?a n] put_extend [of "acc @ ?a" ?d n]
      put_extend [of "acc @ ?a @ ?d" ?m n]
    by simp
  also have "\<dots> = Some (((acc @ ?a @ ?d @ ?m) @ concat (map leg_bytes ls)) @
        replicate (n - length ((acc @ ?a @ ?d @ ?m) @ concat (map leg_bytes ls))) 0,
      length ((acc @ ?a @ ?d @ ?m) @ concat (map leg_bytes ls)))"
    using Cons.prems by (intro Cons.IH) simp
  finally show ?case by (simp add: leg_bytes_def [of leg])
qed

lemma encode_transaction_payload_eq:
  assumes "length (tx_legs tx) \<le> 16"
  shows "encode_transaction_payload tx =
    Some (Inr \<lparr>ep_bytes = payload_bytes tx @ replicate (512 - length (payload_bytes tx)) 0,
               ep_size = of_nat (length (payload_bytes tx))\<rparr>)"
proof -
  let ?h = "le_bytes 8 (key_high (idempotency_key tx))"
  let ?l = "le_bytes 8 (key_low (idempotency_key tx))"
  let ?c = "le_bytes 1 (of_nat (length (tx_legs tx)) :: byte)"
  have "length (?h @ ?l @ ?c) + 17 * length (tx_legs tx) \<le> 512" using assms by simp
  from put_legs_eq [OF this] assms show ?thesis
    using put_extend [of "[]" ?h 512] put_extend [of ?h ?l 512] put_extend [of "?h @ ?l" ?c 512]
    by (simp add: encode_transaction_payload_def Let_def kMaxPayloadSize_def payload_bytes_def)
qed

lemma payload_span_encode:
  assumes "length (tx_legs tx) \<le> 16" and "encode_transaction_payload tx = Some (Inr p)"
  shows "payload_span p = payload_bytes tx"
    and "unat (ep_size p) = length (payload_bytes tx)"
    and "length (ep_bytes p) = 512"
    and "length (payload_bytes tx) \<le> 289"
proof -
  show bound: "length (payload_bytes tx) \<le> 289" using assms(1) by (simp add: length_payload_bytes)
  then have "unat (of_nat (length (payload_bytes tx)) :: u32) = length (payload_bytes tx)"
    by (simp add: unat_of_nat)
  with assms bound show "payload_span p = payload_bytes tx"
    and "unat (ep_size p) = length (payload_bytes tx)" and "length (ep_bytes p) = 512"
    by (auto simp: encode_transaction_payload_eq payload_span_def)
qed

section \<open>Decoding\<close>

lemma get_prefix:
  assumes "offset + n \<le> length src"
  shows "get src offset n = Some (take n (drop offset src), offset + n)"
  using assms by (simp add: get_def)

text \<open>One leg of the loop, on a buffer that still holds its seventeen bytes.\<close>

lemma decode_legs_Suc:
  assumes "offset + 17 \<le> length payload"
  shows "decode_legs payload (Suc n) offset acc =
    (let bs = take 17 (drop offset payload) in
     if (le_word (take 1 (drop 8 bs)) :: byte) > 1 then Some (Inl WalCorruptRecord)
     else case push_back (leg_of_bytes bs) acc of (ok, acc') \<Rightarrow>
       if \<not> ok then Some (Inl WalCorruptRecord) else decode_legs payload n (offset + 17) acc')"
  using assms
  by (simp add: get_prefix leg_of_bytes_def Let_def drop_take min_def case_prod_unfold ac_simps)

lemma leg_bytes_of:
  assumes "length bs = 17" and "(le_word (take 1 (drop 8 bs)) :: byte) \<le> 1"
  shows "leg_bytes (leg_of_bytes bs) = bs"
proof -
  let ?d = "le_word (take 1 (drop 8 bs)) :: byte"
  have "?d = 0 \<or> ?d = 1"
    using assms(2) by (metis word_le_sub1 word_le_0_iff word_less_1 word_neq_0_conv
        order_le_less diff_self)
  then have dir: "byte_of_direction (if ?d = 0 then Debit else Credit) = ?d" by auto
  have "le_bytes 8 (le_word (take 8 bs) :: u64) = take 8 bs"
    using le_bytes_le_word [where 'a = 64, of "take 8 bs"] assms(1) by simp
  moreover have "le_bytes 1 ?d = take 1 (drop 8 bs)"
    using le_bytes_le_word [where 'a = 8, of "take 1 (drop 8 bs)"] assms(1) by simp
  moreover have "le_bytes 8 (le_word (take 8 (drop 9 bs)) :: u64) = take 8 (drop 9 bs)"
    using le_bytes_le_word [where 'a = 64, of "take 8 (drop 9 bs)"] assms(1) by simp
  moreover have "take 8 bs @ take 1 (drop 8 bs) @ take 8 (drop 9 bs) = bs"
  proof -
    have "drop 9 bs = drop 1 (drop 8 bs)" by simp
    moreover have "take 8 (drop 9 bs) = drop 9 bs" using assms(1) by simp
    ultimately have "take 1 (drop 8 bs) @ take 8 (drop 9 bs) = drop 8 bs"
      by (metis append_take_drop_id)
    then show ?thesis by (metis append_take_drop_id)
  qed
  ultimately show ?thesis
    by (simp add: leg_bytes_def leg_of_bytes_def dir del: One_nat_def)
qed

lemma decode_legs_encoded:
  assumes "wf_legs acc" and "leg_count acc + length ls \<le> 16"
  shows "decode_legs (pre @ concat (map leg_bytes ls)) (length ls) (length pre) acc =
    Some (Inr (push_all ls acc))"
  using assms
proof (induction ls arbitrary: pre acc)
  case Nil
  then show ?case by simp
next
  case (Cons leg ls)
  have room: "leg_count acc < kMaxLegsPerTransaction"
    using Cons.prems by (simp add: kMaxLegsPerTransaction_def)
  let ?acc = "snd (push_back leg acc)"
  have cnt: "leg_count ?acc = leg_count acc + 1" using room by (simp add: push_back_def)
  have "(le_word (take 1 (drop 8 (leg_bytes leg))) :: byte) = byte_of_direction (direction leg)"
    by (simp add: leg_bytes_def)
  then have dir: "\<not> (le_word (take 1 (drop 8 (leg_bytes leg))) :: byte) > 1"
    by (simp add: not_less)
  have "decode_legs (pre @ concat (map leg_bytes (leg # ls))) (length (leg # ls)) (length pre) acc =
      decode_legs ((pre @ leg_bytes leg) @ concat (map leg_bytes ls)) (length ls)
        (length (pre @ leg_bytes leg)) ?acc"
    using dir push_back_room(1) [OF Cons.prems(1) room, of leg]
    by (simp add: decode_legs_Suc Let_def case_prod_unfold del: decode_legs.simps)
  also have "\<dots> = Some (Inr (push_all ls ?acc))"
    using Cons.prems cnt by (intro Cons.IH) (simp_all add: wf_push_back)
  finally show ?case by simp
qed

text \<open>Whatever the bytes are, the loop stays inside the buffer, and if it accepts them they are
  the encoding of the legs it returns.\<close>

lemma decode_legs_inv:
  assumes "wf_legs acc" and "leg_count acc + n \<le> 16" and "offset + 17 * n \<le> length payload"
  shows "\<exists>r. decode_legs payload n offset acc = Some r \<and>
    (case r of
       Inl e \<Rightarrow> e = WalCorruptRecord
     | Inr acc' \<Rightarrow> (\<exists>ls. length ls = n \<and> acc' = push_all ls acc \<and>
                     take (17 * n) (drop offset payload) = concat (map leg_bytes ls)))"
  using assms
proof (induction n arbitrary: offset acc)
  case 0
  then show ?case by simp
next
  case (Suc n)
  let ?bs = "take 17 (drop offset payload)"
  let ?leg = "leg_of_bytes ?bs"
  let ?acc = "snd (push_back ?leg acc)"
  have room: "leg_count acc < kMaxLegsPerTransaction"
    using Suc.prems by (simp add: kMaxLegsPerTransaction_def)
  have off: "offset + 17 \<le> length payload" using Suc.prems by simp
  show ?case
  proof (cases "(le_word (take 1 (drop 8 ?bs)) :: byte) > 1")
    case True
    then show ?thesis
      by (simp add: decode_legs_Suc [OF off] Let_def del: decode_legs.simps)
  next
    case False
    then have bs: "leg_bytes ?leg = ?bs"
      using off by (intro leg_bytes_of) simp_all
    have step: "decode_legs payload (Suc n) offset acc = decode_legs payload n (offset + 17) ?acc"
      using False push_back_room(1) [OF Suc.prems(1) room, of ?leg]
      by (simp add: decode_legs_Suc [OF off] Let_def case_prod_unfold del: decode_legs.simps)
    have cnt: "leg_count ?acc = leg_count acc + 1" using room by (simp add: push_back_def)
    obtain r where r: "decode_legs payload n (offset + 17) ?acc = Some r"
      and post: "case r of Inl e \<Rightarrow> e = WalCorruptRecord
        | Inr acc' \<Rightarrow> (\<exists>ls. length ls = n \<and> acc' = push_all ls ?acc \<and>
            take (17 * n) (drop (offset + 17) payload) = concat (map leg_bytes ls))"
      using Suc.IH [of ?acc "offset + 17"] Suc.prems cnt by (auto simp: wf_push_back)
    show ?thesis
    proof (cases r)
      case (Inl e)
      with step r post show ?thesis by simp
    next
      case (Inr acc')
      with post obtain ls where ls: "length ls = n" "acc' = push_all ls ?acc"
        "take (17 * n) (drop (offset + 17) payload) = concat (map leg_bytes ls)" by auto
      have "take (17 * Suc n) (drop offset payload) =
          ?bs @ take (17 * n) (drop (offset + 17) payload)"
        by (simp add: take_add add.commute)
      with ls bs have "take (17 * Suc n) (drop offset payload) =
          concat (map leg_bytes (?leg # ls))" by simp
      with ls have "\<exists>ls. length ls = Suc n \<and> acc' = push_all ls acc \<and>
          take (17 * Suc n) (drop offset payload) = concat (map leg_bytes ls)"
        by (intro exI [of _ "?leg # ls"]) simp
      with step r Inr show ?thesis by simp
    qed
  qed
qed

text \<open>The transaction a record gives back: the header supplies id and timestamp, the payload
  the key and the legs.\<close>

definition restored :: "Transaction \<Rightarrow> TransactionId \<Rightarrow> i64 \<Rightarrow> Transaction" where
  "restored tx i timestamp_ns =
     \<lparr>tx_id = i, idempotency_key = idempotency_key tx, created_at_ns = timestamp_ns,
      legs = push_all (tx_legs tx) empty_legs\<rparr>"

lemma restored_simps [simp]:
  "tx_id (restored tx i t) = i"
  "idempotency_key (restored tx i t) = idempotency_key tx"
  "created_at_ns (restored tx i t) = t"
  "wf_tx (restored tx i t)"
  by (simp_all add: restored_def wf_tx_def)

lemma tx_legs_restored [simp]:
  "length (tx_legs tx) \<le> 16 \<Longrightarrow> tx_legs (restored tx i t) = tx_legs tx"
  by (simp add: restored_def tx_legs_def span_push_all kMaxLegsPerTransaction_def)

lemma bind_Some_map: "Option.bind x (\<lambda>r. Some (f r)) = map_option f x"
  by (cases x) simp_all

lemma if_disj: "(if P \<or> Q then x else y) = (if P then x else if Q then x else y)"
  by simp

text \<open>The prologue of the decoder on a payload of at least seventeen bytes.\<close>

lemma decode_transaction_payload_long:
  assumes "17 \<le> length payload"
  shows "decode_transaction_payload payload i t =
    (let leg_count = unat (le_word (take 1 (drop 16 payload)) :: byte) in
     if leg_count > 16 \<or> length payload \<noteq> 17 + leg_count * 17 then Some (Inl WalCorruptRecord)
     else map_option (\<lambda>r. case r of
              Inl e \<Rightarrow> Inl e
            | Inr ls \<Rightarrow> Inr \<lparr>tx_id = i,
                idempotency_key =
                  IdempotencyKey (le_word (take 8 payload)) (le_word (take 8 (drop 8 payload))),
                created_at_ns = t, legs = ls\<rparr>) (decode_legs payload leg_count 17 empty_legs))"
proof -
  have "get payload 0 8 = Some (take 8 payload, 8)"
    and "get payload 8 8 = Some (take 8 (drop 8 payload), 16)"
    and "get payload 16 1 = Some (take 1 (drop 16 payload), 17)"
    using assms by (simp_all add: get_prefix)
  moreover have "\<not> length payload < 8 * 2 + 1" using assms by simp
  ultimately show ?thesis
    unfolding decode_transaction_payload_def kMaxLegsPerTransaction_def
    by (simp only: if_False Option.bind.simps prod.case Let_def bind_Some_map if_disj)
      simp
qed

lemma decode_payload_bytes:
  assumes "length (tx_legs tx) \<le> 16"
  shows "decode_transaction_payload (payload_bytes tx) i t = Some (Inr (restored tx i t))"
proof -
  let ?pre = "le_bytes 8 (key_high (idempotency_key tx)) @
    le_bytes 8 (key_low (idempotency_key tx)) @ le_bytes 1 (of_nat (length (tx_legs tx)) :: byte)"
  have cnt: "unat (of_nat (length (tx_legs tx)) :: byte) = length (tx_legs tx)"
    using assms by (simp add: unat_of_nat)
  have legs: "decode_legs (payload_bytes tx) (length (tx_legs tx)) 17 empty_legs =
      Some (Inr (push_all (tx_legs tx) empty_legs))"
    using decode_legs_encoded [of empty_legs "tx_legs tx" ?pre] assms
    by (simp add: payload_bytes_def)
  have "17 \<le> length (payload_bytes tx)" by (simp add: length_payload_bytes)
  note long = decode_transaction_payload_long [OF this, of i t]
  have high: "take 8 (payload_bytes tx) = le_bytes 8 (key_high (idempotency_key tx))"
    and low: "take 8 (drop 8 (payload_bytes tx)) = le_bytes 8 (key_low (idempotency_key tx))"
    and byte: "take 1 (drop 16 (payload_bytes tx)) =
      le_bytes 1 (of_nat (length (tx_legs tx)) :: byte)"
    by (simp_all add: payload_bytes_def)
  have count: "unat (le_word (take 1 (drop 16 (payload_bytes tx))) :: byte) = length (tx_legs tx)"
    unfolding byte using cnt by simp
  have "\<not> (length (tx_legs tx) > 16 \<or> length (payload_bytes tx) \<noteq> 17 + length (tx_legs tx) * 17)"
    using assms by (simp add: length_payload_bytes)
  then show ?thesis
    unfolding long count Let_def legs high low by (simp add: restored_def)
qed

lemma decode_transaction_payload_inv:
  "\<exists>r. decode_transaction_payload payload i t = Some r \<and>
     (case r of
        Inl e \<Rightarrow> e = WalCorruptRecord
      | Inr tx \<Rightarrow> payload = payload_bytes tx \<and> tx = restored tx i t \<and> length (tx_legs tx) \<le> 16)"
proof (cases "17 \<le> length payload")
  case False
  then show ?thesis by (simp add: decode_transaction_payload_def)
next
  case long: True
  define n where "n = unat (le_word (take 1 (drop 16 payload)) :: byte)"
  note decode = decode_transaction_payload_long [OF long, of i t, folded n_def]
  let ?k = "IdempotencyKey (le_word (take 8 payload)) (le_word (take 8 (drop 8 payload)))"
  show ?thesis
  proof (cases "n > 16 \<or> length payload \<noteq> 17 + n * 17")
    case True
    with decode show ?thesis by (simp add: Let_def)
  next
    case False
    then have n16: "n \<le> 16" and len: "length payload = 17 + 17 * n" by simp_all
    have "leg_count empty_legs + n \<le> 16" and "17 + 17 * n \<le> length payload"
      using n16 len by simp_all
    from decode_legs_inv [OF wf_empty_legs this]
    obtain r where r: "decode_legs payload n 17 empty_legs = Some r"
      and post: "case r of Inl e \<Rightarrow> e = WalCorruptRecord
        | Inr acc' \<Rightarrow> (\<exists>ls. length ls = n \<and> acc' = push_all ls empty_legs \<and>
            take (17 * n) (drop 17 payload) = concat (map leg_bytes ls))"
      by blast
    show ?thesis
    proof (cases r)
      case (Inl e)
      with decode r post False show ?thesis
        by (simp add: Let_def)
    next
      case (Inr acc)
      with post obtain ls where ls: "length ls = n" "acc = push_all ls empty_legs"
        "take (17 * n) (drop 17 payload) = concat (map leg_bytes ls)" by auto
      let ?tx = "\<lparr>tx_id = i, idempotency_key = ?k, created_at_ns = t, legs = acc\<rparr>"
      have txl: "tx_legs ?tx = ls"
        using ls n16 by (simp add: tx_legs_def span_push_all kMaxLegsPerTransaction_def)
      have h: "le_bytes 8 (le_word (take 8 payload) :: u64) = take 8 payload"
        using le_bytes_le_word [where 'a = 64, of "take 8 payload"] long by simp
      have l: "le_bytes 8 (le_word (take 8 (drop 8 payload)) :: u64) = take 8 (drop 8 payload)"
        using le_bytes_le_word [where 'a = 64, of "take 8 (drop 8 payload)"] long by simp
      have c: "le_bytes 1 (of_nat n :: byte) = take 1 (drop 16 payload)"
        using le_bytes_le_word [where 'a = 8, of "take 1 (drop 16 payload)"] long
        by (simp add: n_def)
      have "payload = take 8 payload @ take 8 (drop 8 payload) @ take 1 (drop 16 payload) @
          drop 17 payload"
        using append_take_drop_id [of 8 payload] append_take_drop_id [of 8 "drop 8 payload"]
          append_take_drop_id [of 1 "drop 16 payload"] by simp
      also have "\<dots> = payload_bytes ?tx"
        unfolding payload_bytes_def txl
        using ls len h l c by (simp del: One_nat_def)
      finally have "payload = payload_bytes ?tx" .
      moreover have "?tx = restored ?tx i t" unfolding restored_def txl using ls(2) by simp
      moreover have "decode_transaction_payload payload i t = Some (Inr ?tx)"
        using decode r Inr False by (simp add: Let_def)
      ultimately show ?thesis using txl ls n16 by simp
    qed
  qed
qed

section \<open>Properties\<close>

text \<open>C29. Encoding then decoding gives the transaction back: for every transaction built from a
  leg list, the encoder succeeds within its 512-byte buffer, its used part is at most 289
  bytes, and decoding that part with the header's id and timestamp yields the same
  idempotency key and the same legs.\<close>

theorem payload_roundtrip:
  assumes "wf_tx tx"
  shows "\<exists>p. encode_transaction_payload tx = Some (Inr p) \<and>
    length (ep_bytes p) = 512 \<and> unat (ep_size p) \<le> 289 \<and>
    (\<exists>tx'. decode_transaction_payload (payload_span p) i t = Some (Inr tx') \<and>
       tx_id tx' = i \<and> created_at_ns tx' = t \<and>
       idempotency_key tx' = idempotency_key tx \<and> tx_legs tx' = tx_legs tx)"
proof -
  have len: "length (tx_legs tx) \<le> 16" using assms by (rule length_tx_legs)
  obtain p where p: "encode_transaction_payload tx = Some (Inr p)"
    using encode_transaction_payload_eq [OF len] by blast
  from payload_span_encode [OF len p] decode_payload_bytes [OF len, of i t] p len show ?thesis
    by (intro exI [of _ p]) simp
qed

theorem payload_roundtrip_witness:
  "\<exists>p. encode_transaction_payload (make_tx 3 (IdempotencyKey 3 21)
        [\<lparr>account_id = 1, direction = Debit, amount = 100\<rparr>,
         \<lparr>account_id = 2, direction = Credit, amount = 100\<rparr>]) = Some (Inr p) \<and>
     unat (ep_size p) \<le> 289"
  using payload_roundtrip [of "make_tx 3 (IdempotencyKey 3 21)
        [\<lparr>account_id = 1, direction = Debit, amount = 100\<rparr>,
         \<lparr>account_id = 2, direction = Credit, amount = 100\<rparr>]" 0 0]
  by auto

text \<open>C30. The decoder is safe and strict on arbitrary bytes: it never reads outside the payload,
  the only error it reports is a corrupt record, and a payload it accepts is exactly the
  encoding of the transaction it returns, so no two payloads decode to the same transaction.\<close>

theorem payload_decoder_strict:
  "\<exists>r. decode_transaction_payload payload i t = Some r \<and>
     (case r of
        Inl e \<Rightarrow> e = WalCorruptRecord
      | Inr tx \<Rightarrow> wf_tx tx \<and> tx_id tx = i \<and> created_at_ns tx = t \<and>
          (\<exists>p. encode_transaction_payload tx = Some (Inr p) \<and> payload_span p = payload))"
proof -
  obtain r where r: "decode_transaction_payload payload i t = Some r"
    and post: "case r of Inl e \<Rightarrow> e = WalCorruptRecord
      | Inr tx \<Rightarrow> payload = payload_bytes tx \<and> tx = restored tx i t \<and> length (tx_legs tx) \<le> 16"
    using decode_transaction_payload_inv by blast
  show ?thesis
  proof (cases r)
    case (Inl e)
    with r post show ?thesis by simp
  next
    case (Inr tx)
    with post have tx: "payload = payload_bytes tx" "tx = restored tx i t"
      and len: "length (tx_legs tx) \<le> 16" by simp_all
    obtain p where p: "encode_transaction_payload tx = Some (Inr p)"
      using encode_transaction_payload_eq [OF len] by blast
    have "wf_tx tx" and "tx_id tx = i" and "created_at_ns tx = t"
      by (subst tx(2), simp)+
    with r Inr p payload_span_encode [OF len p] tx(1) show ?thesis by auto
  qed
qed

end
