(* ===== verification/Crc32.thy ===== *)
theory Crc32
  imports Prelude
begin

text \<open>
  \<open>src/src/crc32.cpp\<close>: the table-driven CRC-32. The table entries are the eight shift steps of
  the reflected polynomial; the byte-wise routine is shown equal to the bit-wise register it
  optimises, and the register is shown to detect every change confined to four consecutive
  bytes, which is what the log reader and the snapshot loader rely on.
\<close>

section \<open>The code\<close>

definition crc_shift :: "u32 \<Rightarrow> u32" where
  "crc_shift c = (if c AND 1 \<noteq> 0 then 0xEDB88320 XOR drop_bit 1 c else drop_bit 1 c)"

definition make_table :: "u32 list" where
  "make_table = map (\<lambda>i. (crc_shift ^^ 8) (of_nat i)) [0..<256]"

definition kTable :: "u32 list" where
  "kTable = make_table"

definition crc_update :: "u32 \<Rightarrow> byte \<Rightarrow> u32" where
  "crc_update crc b =
     (let idx = (ucast ((crc XOR ucast b) AND 0xFF) :: byte)
      in kTable ! unat idx XOR drop_bit 8 crc)"

definition compute :: "byte list \<Rightarrow> u32" where
  "compute data = foldl crc_update 0xFFFFFFFF data XOR 0xFFFFFFFF"

section \<open>The shift register\<close>

lemma word_xor_cancel: "a XOR b = a XOR c \<longleftrightarrow> b = (c :: 'a::len word)"
proof
  assume "a XOR b = a XOR c"
  then have "a XOR (a XOR b) = a XOR (a XOR c)" by (rule arg_cong)
  then show "b = c" by (simp only: xor.assoc [symmetric] xor_self_eq xor.left_neutral)
qed simp

lemma and_one_neq_0: "(c :: u32) AND 1 \<noteq> 0 \<longleftrightarrow> bit c 0"
  by (simp add: and_one_eq mod_2_eq_odd bit_0)

lemma crc_shift_bit: "crc_shift c = (if bit c 0 then 0xEDB88320 XOR drop_bit 1 c else drop_bit 1 c)"
  by (simp only: crc_shift_def and_one_neq_0)

lemma crc_shift_xor: "crc_shift (x XOR y) = crc_shift x XOR crc_shift y"
  by (simp add: crc_shift_bit bit_xor_iff drop_bit_xor ac_simps)

lemma crc_shifts_xor: "(crc_shift ^^ n) (x XOR y) = (crc_shift ^^ n) x XOR (crc_shift ^^ n) y"
  by (induction n) (simp_all add: crc_shift_xor)

text \<open>The polynomial has its top bit set, so the top bit after a step is the bit shifted out.\<close>

lemma crc_shift_top: "bit (crc_shift c) 31 \<longleftrightarrow> bit c 0"
proof -
  have "\<not> bit (drop_bit 1 c) 31"
    using bit_imp_le_length [of c 32] by (auto simp: bit_drop_bit_eq)
  moreover have "bit (0xEDB88320 :: u32) 31" by simp
  ultimately show ?thesis by (simp add: crc_shift_bit bit_xor_iff)
qed

lemma crc_shift_inject: "crc_shift x = crc_shift y \<longleftrightarrow> x = y"
proof
  assume eq: "crc_shift x = crc_shift y"
  then have b: "bit x 0 = bit y 0" by (metis crc_shift_top)
  have "drop_bit 1 x = drop_bit 1 y"
  proof (cases "bit x 0")
    case True
    with b eq have "0xEDB88320 XOR drop_bit 1 x = 0xEDB88320 XOR drop_bit 1 y"
      by (simp add: crc_shift_bit)
    then show ?thesis by (simp only: word_xor_cancel)
  next
    case False
    with b eq show ?thesis by (simp add: crc_shift_bit)
  qed
  show "x = y"
  proof (rule bit_word_eqI)
    fix i
    show "bit x i = bit y i"
    proof (cases i)
      case 0
      with b show ?thesis by simp
    next
      case (Suc j)
      from \<open>drop_bit 1 x = drop_bit 1 y\<close> have "bit (drop_bit 1 x) j = bit (drop_bit 1 y) j"
        by simp
      with Suc show ?thesis by (simp add: bit_drop_bit_eq)
    qed
  qed
qed simp

lemma crc_shifts_inject: "(crc_shift ^^ n) x = (crc_shift ^^ n) y \<longleftrightarrow> x = y"
  by (induction n) (simp_all add: crc_shift_inject)

lemma crc_shifts_low_zero:
  assumes "take_bit n x = 0"
  shows "(crc_shift ^^ n) x = drop_bit n x"
  using assms
proof (induction n)
  case 0
  then show ?case by simp
next
  case (Suc n)
  have low: "\<not> bit x i" if "i \<le> n" for i
    using Suc.prems that by (metis bit_0_eq bit_take_bit_iff bot_apply bot_bool_def le_imp_less_Suc)
  then have "take_bit n x = 0"
    by (intro bit_word_eqI) (simp add: bit_take_bit_iff)
  with Suc.IH low [of n] show ?case
    by (simp add: crc_shift_bit bit_drop_bit_eq)
qed

section \<open>Table and register agree\<close>

text \<open>The bit-wise routine: xor the byte into the register, then shift eight times.\<close>

definition crc_byte :: "u32 \<Rightarrow> byte \<Rightarrow> u32" where
  "crc_byte crc b = (crc_shift ^^ 8) (crc XOR ucast b)"

lemma kTable_nth: "kTable ! unat (idx :: byte) = (crc_shift ^^ 8) (ucast idx)"
proof -
  have "unat idx < 256" using unsigned_less [of idx] by simp
  moreover have "(of_nat (unat idx) :: u32) = ucast idx" by (simp add: unsigned_eq_0_iff)
  ultimately show ?thesis by (simp add: kTable_def make_table_def)
qed

lemma low_byte_split: "x = ucast (ucast (x AND 0xFF) :: byte) XOR push_bit 8 (drop_bit 8 (x :: u32))"
proof (rule bit_word_eqI)
  fix i
  assume i: "i < LENGTH(32)"
  have mask: "(0xFF :: u32) = mask 8" by (simp add: mask_eq_exp_minus_1)
  show "bit x i = bit (ucast (ucast (x AND 0xFF) :: byte) XOR push_bit 8 (drop_bit 8 x)) i"
    using i unfolding mask
    by (auto simp: bit_xor_iff bit_push_bit_iff bit_drop_bit_eq bit_ucast_iff bit_and_iff
        bit_mask_iff)
qed

lemma crc_update_eq: "crc_update crc b = crc_byte crc b"
proof -
  let ?x = "crc XOR ucast b :: u32"
  let ?idx = "ucast (?x AND 0xFF) :: byte"
  let ?hi = "push_bit 8 (drop_bit 8 ?x)"
  have "take_bit 8 ?hi = 0" by (simp add: take_bit_push_bit)
  then have hi: "(crc_shift ^^ 8) ?hi = drop_bit 8 ?hi" by (rule crc_shifts_low_zero)
  have drop: "drop_bit 8 ?hi = drop_bit 8 crc"
    by (rule bit_word_eqI)
      (auto simp: bit_drop_bit_eq bit_push_bit_iff bit_xor_iff bit_ucast_iff
        dest: bit_imp_le_length)
  have "(crc_shift ^^ 8) ?x = (crc_shift ^^ 8) (ucast ?idx XOR ?hi)"
    by (rule arg_cong [OF low_byte_split])
  also have "\<dots> = kTable ! unat ?idx XOR drop_bit 8 crc"
    by (simp only: crc_shifts_xor kTable_nth hi drop)
  finally show ?thesis by (simp only: crc_update_def crc_byte_def Let_def)
qed

section \<open>Absorbing several bytes\<close>

lemma ucast_push_shift:
  assumes "n \<le> 24"
  shows "(crc_shift ^^ n) (push_bit n (ucast (b :: byte))) = ucast b"
proof -
  have "(crc_shift ^^ n) (push_bit n (ucast b :: u32)) = drop_bit n (push_bit n (ucast b))"
    by (rule crc_shifts_low_zero) (simp add: take_bit_push_bit)
  also have "\<dots> = ucast b"
    using assms
    by (intro bit_word_eqI) (auto simp: bit_drop_bit_eq bit_push_bit_iff bit_ucast_iff
        dest: bit_imp_le_length)
  finally show ?thesis .
qed

text \<open>Up to four bytes at once: the register xored with their little-endian word.\<close>

lemma le_word_snoc:
  "(le_word (bs @ [b]) :: u32) = le_word bs OR push_bit (8 * length bs) (ucast b)"
  by (induction bs) (simp_all add: push_bit_or or.assoc)

lemma le_word_append_byte:
  "(le_word (bs @ [b]) :: u32) = le_word bs XOR push_bit (8 * length bs) (ucast b)"
proof -
  have "\<not> (bit (le_word bs :: u32) i \<and> bit (push_bit (8 * length bs) (ucast b :: u32)) i)" for i
    by (auto simp: bit_le_word bit_push_bit_iff div_less_iff_less_mult)
  then show ?thesis
    unfolding le_word_snoc by (intro bit_word_eqI) (auto simp: bit_or_iff bit_xor_iff)
qed

lemma crc_bytes_word:
  assumes "length bs \<le> 4"
  shows "foldl crc_byte s bs = (crc_shift ^^ (8 * length bs)) (s XOR le_word bs)"
  using assms
proof (induction bs rule: rev_induct)
  case Nil
  then show ?case by simp
next
  case (snoc b bs)
  let ?n = "8 * length bs"
  from snoc have IH: "foldl crc_byte s bs = (crc_shift ^^ ?n) (s XOR le_word bs)" by simp
  from snoc.prems have n: "?n \<le> 24" by simp
  have "foldl crc_byte s (bs @ [b]) =
      (crc_shift ^^ 8) ((crc_shift ^^ ?n) (s XOR le_word bs) XOR ucast b)"
    by (simp add: IH crc_byte_def)
  also have "\<dots> = (crc_shift ^^ 8) ((crc_shift ^^ ?n)
      (s XOR le_word bs XOR push_bit ?n (ucast b)))"
    by (simp only: crc_shifts_xor ucast_push_shift [OF n] xor.assoc)
  also have "\<dots> = (crc_shift ^^ (8 + ?n)) (s XOR le_word (bs @ [b]))"
    using snoc.prems by (simp add: funpow_add le_word_append_byte xor.assoc)
  finally show ?case by simp
qed

lemma crc_byte_inject: "crc_byte s b = crc_byte t b \<longleftrightarrow> s = t"
  unfolding crc_byte_def crc_shifts_inject
  by (simp only: xor.commute [of s] xor.commute [of t] word_xor_cancel)

lemma foldl_crc_byte_inject: "foldl crc_byte s bs = foldl crc_byte t bs \<longleftrightarrow> s = t"
  by (induction bs arbitrary: s t) (simp_all add: crc_byte_inject)

lemma le_word_inject:
  assumes "length xs = length ys" and "length xs \<le> 4"
  shows "(le_word xs :: u32) = le_word ys \<longleftrightarrow> xs = ys"
proof
  assume eq: "(le_word xs :: u32) = le_word ys"
  have "xs = le_bytes (length xs) (le_word xs :: u32)"
    using assms(2) by (simp add: le_bytes_le_word)
  also have "\<dots> = le_bytes (length ys) (le_word ys :: u32)"
    by (simp only: eq assms(1))
  also have "\<dots> = ys"
    using assms by (simp add: le_bytes_le_word)
  finally show "xs = ys" .
qed simp

lemma crc_burst_detected:
  assumes "length ys = length ys'" and "length ys \<le> 4"
  shows "foldl crc_byte s (xs @ ys @ zs) = foldl crc_byte s (xs @ ys' @ zs) \<longleftrightarrow> ys = ys'"
proof -
  let ?s = "foldl crc_byte s xs"
  have "foldl crc_byte s (xs @ ys @ zs) = foldl crc_byte s (xs @ ys' @ zs) \<longleftrightarrow>
      foldl crc_byte ?s ys = foldl crc_byte ?s ys'"
    by (simp add: foldl_crc_byte_inject)
  also have "\<dots> \<longleftrightarrow> (?s XOR le_word ys) = (?s XOR le_word ys')"
    using assms by (simp add: crc_bytes_word crc_shifts_inject)
  also have "\<dots> \<longleftrightarrow> (le_word ys :: u32) = le_word ys'"
    by (rule word_xor_cancel)
  also have "\<dots> \<longleftrightarrow> ys = ys'"
    using assms by (rule le_word_inject)
  finally show ?thesis .
qed

lemma compute_eq: "compute data = foldl crc_byte 0xFFFFFFFF data XOR 0xFFFFFFFF"
proof -
  have "crc_update = crc_byte" by (simp add: fun_eq_iff crc_update_eq)
  then show ?thesis by (simp add: compute_def)
qed

section \<open>The contract of a checksum\<close>

text \<open>
  The log and the snapshot file store a body followed by the checksum of the body. The
  contract is that a change of up to four consecutive bytes changes the checksum; the client
  lemma is that a stored record with one corrupted byte, in the body or in the trailer, fails
  verification.
\<close>

locale checksum =
  fixes sum_of :: "byte list \<Rightarrow> u32"
  assumes burst: "length ys = length ys' \<Longrightarrow> length ys \<le> 4 \<Longrightarrow>
      sum_of (xs @ ys @ zs) = sum_of (xs @ ys' @ zs) \<longleftrightarrow> ys = ys'"
begin

lemma sealed_verifies: "le_word (le_bytes 4 (sum_of body)) = sum_of body"
  by simp

lemma body_byte_changes_sum:
  assumes "i < length body" and "b \<noteq> body ! i"
  shows "sum_of (body[i := b]) \<noteq> sum_of body"
proof -
  have "body = take i body @ [body ! i] @ drop (Suc i) body"
    using assms(1) by (simp add: id_take_nth_drop)
  moreover have "body[i := b] = take i body @ [b] @ drop (Suc i) body"
    using assms(1) by (simp add: upd_conv_take_nth_drop)
  moreover have "sum_of (take i body @ [b] @ drop (Suc i) body)
      \<noteq> sum_of (take i body @ [body ! i] @ drop (Suc i) body)"
    using assms(2) burst [of "[b]" "[body ! i]"] by simp
  ultimately show ?thesis by simp
qed

lemma corrupted_byte_rejected:
  fixes body trailer :: "byte list"
  assumes "length trailer = 4" and "le_word trailer = sum_of body"
    and "i < length body + 4" and "b \<noteq> (body @ trailer) ! i"
    and "body' @ trailer' = (body @ trailer)[i := b]" and "length body' = length body"
  shows "le_word trailer' \<noteq> sum_of body'"
proof (cases "i < length body")
  case True
  with assms(5,6) have "body' = body[i := b]" and "trailer' = trailer"
    by (simp_all add: list_update_append1)
  with body_byte_changes_sum [of i body b] True assms(2,4) show ?thesis
    by (simp add: nth_append)
next
  case False
  then have "(body @ trailer)[i := b] = body @ trailer[i - length body := b]"
    by (simp add: list_update_append)
  with assms(5,6) have "body' = body" and tr: "trailer' = trailer[i - length body := b]"
    by simp_all
  have "trailer' \<noteq> trailer"
    using tr False assms(1,3,4) by (metis (no_types, lifting) add.commute less_diff_conv2 not_less
        nth_append nth_list_update_eq)
  then have "(le_word trailer' :: u32) \<noteq> le_word trailer"
    using le_word_inject [of trailer' trailer] tr assms(1) by simp
  with \<open>body' = body\<close> assms(2) show ?thesis by simp
qed

end

interpretation crc: checksum compute
  unfolding compute_eq
  by unfold_locales (simp only: xor.commute [of _ "0xFFFFFFFF :: u32"] word_xor_cancel crc_burst_detected)

section \<open>Properties\<close>

text \<open>C31. The table-driven checksum computes the bit-wise CRC-32 of the reflected polynomial
  0xEDB88320: every byte is xored into a register preset to all ones, the register is shifted
  eight times, and the result is complemented.\<close>

theorem crc_table_equals_register:
  "compute data =
     foldl (\<lambda>c b. (crc_shift ^^ 8) (c XOR ucast b)) 0xFFFFFFFF data XOR 0xFFFFFFFF"
  unfolding compute_eq by (simp add: crc_byte_def [abs_def])

text \<open>A burst of corruption confined to four consecutive bytes always changes the
  checksum.\<close>

theorem crc_detects_bursts:
  assumes "length ys = length ys'" and "length ys \<le> 4" and "ys \<noteq> ys'"
  shows "compute (xs @ ys @ zs) \<noteq> compute (xs @ ys' @ zs)"
  using crc.burst [OF assms(1,2)] assms(3) by simp

theorem crc_detects_bursts_witness:
  "compute ([1, 2] @ [3, 4, 5, 6] @ [7]) \<noteq> compute ([1, 2] @ [3, 4, 5, 0] @ [7])"
  by (rule crc_detects_bursts) simp_all

end
