(* ===== verification/Posix.thy ===== *)
theory Posix
  imports Prelude
begin

text \<open>
  The operating-system calls the engine makes (\<open>open\<close>, \<open>write\<close>, \<open>fsync\<close>, \<open>pread\<close>, \<open>read\<close>,
  \<open>fstat\<close>, \<open>ftruncate\<close>, \<open>rename\<close>, \<open>close\<close>, \<open>clock_gettime\<close>) over an explicit file system, and
  the descriptor wrapper of \<open>include/ledger/unique_fd.hpp\<close>.

  What a call answers is not under the program's control. The kernel's answers are a script,
  one integer per call, that every theorem quantifies over: a negative answer makes the call
  fail, a non-negative one bounds the number of bytes a transfer moves, so that a small answer
  makes it short. Given the answer, the effect of a call is the one POSIX documents. A file has
  its current contents and the contents of the last successful \<open>fsync\<close>, the part that is
  guaranteed to survive a crash.
\<close>

section \<open>Files, descriptors, system calls\<close>

record diskfile =
  contents :: "byte list"
  stable :: "byte list"

record open_file =
  of_inode :: nat
  of_offset :: nat
  of_append :: bool

record os =
  inodes :: "nat \<rightharpoonup> diskfile"
  next_inode :: nat
  names :: "string \<rightharpoonup> nat"
  fds :: "int \<rightharpoonup> open_file"
  next_fd :: int
  script :: "nat \<Rightarrow> int"
  tick :: nat

definition answer :: "os \<Rightarrow> int \<times> os" where
  "answer os = (script os (tick os), os\<lparr>tick := tick os + 1\<rparr>)"

definition put_file :: "nat \<Rightarrow> diskfile \<Rightarrow> os \<Rightarrow> os" where
  "put_file i f os = os\<lparr>inodes := (inodes os)(i \<mapsto> f)\<rparr>"

definition fd_file :: "os \<Rightarrow> int \<Rightarrow> diskfile option" where
  "fd_file os fd = (case fds os fd of None \<Rightarrow> None | Some h \<Rightarrow> inodes os (of_inode h))"

definition path_file :: "os \<Rightarrow> string \<Rightarrow> diskfile option" where
  "path_file os path = (case names os path of None \<Rightarrow> None | Some i \<Rightarrow> inodes os i)"

text \<open>\<open>open\<close> with the flags that matter here: create, truncate, append. The descriptor is one that
  is not in use.\<close>

definition sys_open :: "string \<Rightarrow> bool \<Rightarrow> bool \<Rightarrow> bool \<Rightarrow> os \<Rightarrow> int \<times> os" where
  "sys_open path o_creat o_trunc o_append os =
     (let (r, os) = answer os;
          fd = next_fd os in
      if r < 0 \<or> fd < 0 \<or> fds os fd \<noteq> None then (-1, os)
      else case names os path of
        Some i \<Rightarrow>
          let os = (case inodes os i of
              None \<Rightarrow> os
            | Some f \<Rightarrow> if o_trunc then put_file i (f\<lparr>contents := []\<rparr>) os else os) in
          (fd, os\<lparr>next_fd := fd + 1,
                  fds := (fds os)(fd \<mapsto> \<lparr>of_inode = i, of_offset = 0, of_append = o_append\<rparr>)\<rparr>)
      | None \<Rightarrow>
          if \<not> o_creat then (-1, os)
          else
            let i = next_inode os;
                os = put_file i \<lparr>contents = [], stable = []\<rparr> os in
            (fd, os\<lparr>next_inode := i + 1, names := (names os)(path \<mapsto> i), next_fd := fd + 1,
                    fds := (fds os)(fd \<mapsto> \<lparr>of_inode = i, of_offset = 0, of_append = o_append\<rparr>)\<rparr>))"

definition sys_close :: "int \<Rightarrow> os \<Rightarrow> os" where
  "sys_close fd os = os\<lparr>fds := (fds os)(fd := None)\<rparr>"

definition write_at :: "nat \<Rightarrow> byte list \<Rightarrow> byte list \<Rightarrow> byte list" where
  "write_at off new old =
     take off old @ replicate (off - length old) 0 @ new @ drop (off + length new) old"

definition sys_write :: "int \<Rightarrow> byte list \<Rightarrow> os \<Rightarrow> int \<times> os" where
  "sys_write fd bs os =
     (let (r, os) = answer os in
      case fds os fd of
        None \<Rightarrow> (-1, os)
      | Some h \<Rightarrow>
          (case inodes os (of_inode h) of
             None \<Rightarrow> (-1, os)
           | Some f \<Rightarrow>
               if r < 0 then (-1, os)
               else
                 let n = min (nat r) (length bs);
                     off = (if of_append h then length (contents f) else of_offset h);
                     os = put_file (of_inode h)
                            (f\<lparr>contents := write_at off (take n bs) (contents f)\<rparr>) os in
                 (int n, os\<lparr>fds := (fds os)(fd \<mapsto> h\<lparr>of_offset := off + n\<rparr>)\<rparr>)))"

definition sys_fsync :: "int \<Rightarrow> os \<Rightarrow> int \<times> os" where
  "sys_fsync fd os =
     (let (r, os) = answer os in
      case fds os fd of
        None \<Rightarrow> (-1, os)
      | Some h \<Rightarrow>
          (case inodes os (of_inode h) of
             None \<Rightarrow> (-1, os)
           | Some f \<Rightarrow>
               if r < 0 then (-1, os)
               else (0, put_file (of_inode h) (f\<lparr>stable := contents f\<rparr>) os)))"

text \<open>An offset is an \<open>off_t\<close>, a signed 64-bit value; a negative one is an invalid argument. A
  read of a regular file may be short, but it returns zero bytes only at the end of the file.\<close>

definition sys_pread :: "int \<Rightarrow> nat \<Rightarrow> u64 \<Rightarrow> os \<Rightarrow> int \<times> byte list \<times> os" where
  "sys_pread fd n off os =
     (let (r, os) = answer os in
      case fd_file os fd of
        None \<Rightarrow> (-1, [], os)
      | Some f \<Rightarrow>
          if r < 0 \<or> sint off < 0 then (-1, [], os)
          else let bs = take (min n (max 1 (nat r))) (drop (unat off) (contents f))
               in (int (length bs), bs, os))"

definition sys_read :: "int \<Rightarrow> nat \<Rightarrow> os \<Rightarrow> int \<times> byte list \<times> os" where
  "sys_read fd n os =
     (let (r, os) = answer os in
      case fds os fd of
        None \<Rightarrow> (-1, [], os)
      | Some h \<Rightarrow>
          (case inodes os (of_inode h) of
             None \<Rightarrow> (-1, [], os)
           | Some f \<Rightarrow>
               if r < 0 then (-1, [], os)
               else let bs = take (min n (max 1 (nat r))) (drop (of_offset h) (contents f))
                    in (int (length bs), bs,
                        os\<lparr>fds := (fds os)(fd \<mapsto> h\<lparr>of_offset := of_offset h + length bs\<rparr>)\<rparr>)))"

text \<open>\<open>fstat\<close>, of which only the size is used.\<close>

definition sys_fstat :: "int \<Rightarrow> os \<Rightarrow> int \<times> u64 \<times> os" where
  "sys_fstat fd os =
     (let (r, os) = answer os in
      case fd_file os fd of
        None \<Rightarrow> (-1, 0, os)
      | Some f \<Rightarrow> if r < 0 then (-1, 0, os) else (0, of_nat (length (contents f)), os))"

definition sys_ftruncate :: "int \<Rightarrow> u64 \<Rightarrow> os \<Rightarrow> int \<times> os" where
  "sys_ftruncate fd len os =
     (let (r, os) = answer os in
      case fds os fd of
        None \<Rightarrow> (-1, os)
      | Some h \<Rightarrow>
          (case inodes os (of_inode h) of
             None \<Rightarrow> (-1, os)
           | Some f \<Rightarrow>
               if r < 0 \<or> sint len < 0 then (-1, os)
               else (0, put_file (of_inode h)
                      (f\<lparr>contents := take (unat len) (contents f) @
                           replicate (unat len - length (contents f)) 0\<rparr>) os)))"

definition sys_rename :: "string \<Rightarrow> string \<Rightarrow> os \<Rightarrow> int \<times> os" where
  "sys_rename old new os =
     (let (r, os) = answer os in
      case names os old of
        None \<Rightarrow> (-1, os)
      | Some i \<Rightarrow>
          if r < 0 then (-1, os)
          else if old = new then (0, os)
          else (0, os\<lparr>names := ((names os)(old := None))(new \<mapsto> i)\<rparr>))"

text \<open>The two fields of the \<open>timespec\<close> that \<open>clock_gettime(CLOCK_MONOTONIC)\<close> fills in, and the
  conversion to nanoseconds that the writer and the engine both define.\<close>

definition sys_clock_gettime :: "os \<Rightarrow> int \<times> int \<times> os" where
  "sys_clock_gettime os =
     (let (sec, os) = answer os; (nsec, os) = answer os in (sec, nsec, os))"

definition monotonic_now_ns :: "os \<Rightarrow> i64 \<times> os" where
  "monotonic_now_ns os =
     (let (tv_sec, tv_nsec, os) = sys_clock_gettime os
      in (of_int tv_sec * 1000000000 + of_int tv_nsec, os))"

section \<open>The descriptor wrapper\<close>

type_synonym UniqueFd = int

definition ufd_new :: UniqueFd where
  "ufd_new = -1"

definition ufd_valid :: "UniqueFd \<Rightarrow> bool" where
  "ufd_valid u \<longleftrightarrow> u \<ge> 0"

definition ufd_reset :: "int \<Rightarrow> UniqueFd \<Rightarrow> os \<Rightarrow> UniqueFd \<times> os" where
  "ufd_reset new_fd u os = (new_fd, if u \<ge> 0 then sys_close u os else os)"

definition ufd_release :: "UniqueFd \<Rightarrow> int \<times> UniqueFd" where
  "ufd_release u = (u, -1)"

text \<open>Move construction yields the new wrapper and the emptied source. Move assignment closes the
  target's descriptor first and takes over the other's; assigned to itself, the wrapper stays as
  it is. The destructor is a reset.\<close>

definition ufd_move :: "UniqueFd \<Rightarrow> UniqueFd \<times> UniqueFd" where
  "ufd_move other = (other, -1)"

definition ufd_move_assign ::
    "bool \<Rightarrow> UniqueFd \<Rightarrow> UniqueFd \<Rightarrow> os \<Rightarrow> (UniqueFd \<times> UniqueFd) \<times> os" where
  "ufd_move_assign same_object this_fd other os =
     (if same_object then ((this_fd, other), os)
      else let (_, os) = ufd_reset (-1) this_fd os in ((other, -1), os))"

definition ufd_destroy :: "UniqueFd \<Rightarrow> os \<Rightarrow> os" where
  "ufd_destroy u os = snd (ufd_reset (-1) u os)"

section \<open>Facts about the calls\<close>

lemma path_file_cong: "names os' = names os \<Longrightarrow> inodes os' = inodes os \<Longrightarrow> path_file os' = path_file os"
  by (simp add: path_file_def fun_eq_iff cong: option.case_cong)

lemma fd_file_cong: "fds os' = fds os \<Longrightarrow> inodes os' = inodes os \<Longrightarrow> fd_file os' = fd_file os"
  by (simp add: fd_file_def fun_eq_iff cong: option.case_cong)

lemma answer_simps [simp]:
  "fst (answer os) = script os (tick os)"
  "inodes (snd (answer os)) = inodes os"
  "next_inode (snd (answer os)) = next_inode os"
  "names (snd (answer os)) = names os"
  "fds (snd (answer os)) = fds os"
  "next_fd (snd (answer os)) = next_fd os"
  "script (snd (answer os)) = script os"
  "tick (snd (answer os)) = Suc (tick os)"
  by (simp_all add: answer_def)

lemma answer_files [simp]:
  "fd_file (snd (answer os)) = fd_file os"
  "path_file (snd (answer os)) = path_file os"
  by (auto intro!: fd_file_cong path_file_cong)

lemma put_file_simps [simp]:
  "inodes (put_file i f os) = (inodes os)(i \<mapsto> f)"
  "next_inode (put_file i f os) = next_inode os"
  "names (put_file i f os) = names os"
  "fds (put_file i f os) = fds os"
  "next_fd (put_file i f os) = next_fd os"
  "script (put_file i f os) = script os"
  "tick (put_file i f os) = tick os"
  by (simp_all add: put_file_def)

lemma write_at_end [simp]: "write_at (length old) new old = old @ new"
  by (simp add: write_at_def)

lemma sys_close_simps [simp]:
  "inodes (sys_close fd os) = inodes os"
  "names (sys_close fd os) = names os"
  "script (sys_close fd os) = script os"
  "tick (sys_close fd os) = tick os"
  "next_inode (sys_close fd os) = next_inode os"
  "next_fd (sys_close fd os) = next_fd os"
  "fds (sys_close fd os) = (fds os)(fd := None)"
  by (simp_all add: sys_close_def)

lemma path_file_close [simp]: "path_file (sys_close fd os) = path_file os"
  by (rule path_file_cong) simp_all

lemma path_file_reset [simp]: "path_file (snd (ufd_reset new u os)) = path_file os"
  by (simp add: ufd_reset_def)

lemma monotonic_now_ns_simps [simp]:
  "inodes (snd (monotonic_now_ns os)) = inodes os"
  "names (snd (monotonic_now_ns os)) = names os"
  "fds (snd (monotonic_now_ns os)) = fds os"
  "next_fd (snd (monotonic_now_ns os)) = next_fd os"
  "next_inode (snd (monotonic_now_ns os)) = next_inode os"
  "script (snd (monotonic_now_ns os)) = script os"
  "tick (snd (monotonic_now_ns os)) = tick os + 2"
  by (simp_all add: monotonic_now_ns_def sys_clock_gettime_def answer_def)

lemma monotonic_now_ns_files [simp]:
  "fd_file (snd (monotonic_now_ns os)) = fd_file os"
  "path_file (snd (monotonic_now_ns os)) = path_file os"
  by (auto intro!: fd_file_cong path_file_cong)

text \<open>A kernel that fails no call from here on and moves up to \<open>n\<close> bytes in each transfer.\<close>

definition reliable :: "nat \<Rightarrow> os \<Rightarrow> bool" where
  "reliable n os \<longleftrightarrow> (\<forall>k \<ge> tick os. int n \<le> script os k)"

lemma reliable_answer [simp]: "reliable n os \<Longrightarrow> reliable n (snd (answer os))"
  by (simp add: reliable_def)

lemma reliable_script: "reliable n os \<Longrightarrow> int n \<le> script os (tick os)"
  by (simp add: reliable_def)

text \<open>The kernel has moved on: answers were consumed and descriptors handed out.\<close>

definition later :: "os \<Rightarrow> os \<Rightarrow> bool" where
  "later os os' \<longleftrightarrow> script os' = script os \<and> tick os \<le> tick os' \<and> next_fd os \<le> next_fd os'"

lemma later_trans: "later a b \<Longrightarrow> later b c \<Longrightarrow> later a c"
  by (auto simp: later_def)

lemma later_reliable: "later os os' \<Longrightarrow> reliable n os \<Longrightarrow> reliable n os'"
  by (auto simp: later_def reliable_def)

lemma reliable_mono: "reliable n os \<Longrightarrow> m \<le> n \<Longrightarrow> reliable m os"
  by (force simp: reliable_def)

lemma later_answer [simp]: "later os (snd (answer os))"
  by (simp add: later_def)

text \<open>A descriptor is to be had.\<close>

definition fresh_fds :: "os \<Rightarrow> bool" where
  "fresh_fds os \<longleftrightarrow> 0 \<le> next_fd os \<and> (\<forall>fd \<ge> next_fd os. fds os fd = None)"

lemma fresh_fds_later: "fresh_fds os \<Longrightarrow> later os os' \<Longrightarrow> fds os' = fds os \<Longrightarrow> fresh_fds os'"
  by (auto simp: fresh_fds_def later_def)

text \<open>A descriptor open on an existing file.\<close>

definition open_on :: "os \<Rightarrow> int \<Rightarrow> open_file \<Rightarrow> diskfile \<Rightarrow> bool" where
  "open_on os fd h f \<longleftrightarrow> fds os fd = Some h \<and> inodes os (of_inode h) = Some f"

lemma open_on_fd_file: "open_on os fd h f \<Longrightarrow> fd_file os fd = Some f"
  by (simp add: open_on_def fd_file_def)

lemma open_on_cong:
  "fds os' = fds os \<Longrightarrow> inodes os' = inodes os \<Longrightarrow> open_on os' fd h f = open_on os fd h f"
  by (simp add: open_on_def)

text \<open>A write at the end of the file, by an appending descriptor or by one positioned there, adds
  the bytes the kernel takes, and nothing else happens.\<close>

lemma sys_write_end:
  assumes "open_on os fd h f" and "of_append h \<or> of_offset h = length (contents f)"
  shows "sys_write fd bs os =
    (let n = min (nat (script os (tick os))) (length bs) in
     if script os (tick os) < 0 then (-1, snd (answer os))
     else (int n, (put_file (of_inode h) (f\<lparr>contents := contents f @ take n bs\<rparr>) (snd (answer os)))
            \<lparr>fds := (fds os)(fd \<mapsto> h\<lparr>of_offset := length (contents f) + n\<rparr>)\<rparr>))"
proof -
  have "(if of_append h then length (contents f) else of_offset h) = length (contents f)"
    using assms(2) by auto
  with assms(1) show ?thesis
    by (simp add: sys_write_def open_on_def case_prod_unfold Let_def)
qed

lemmas sys_write_append = sys_write_end [OF _ disjI1]

lemma sys_fsync_cases:
  assumes "open_on os fd h f"
  shows "sys_fsync fd os =
    (if script os (tick os) < 0 then (-1, snd (answer os))
     else (0, put_file (of_inode h) (f\<lparr>stable := contents f\<rparr>) (snd (answer os))))"
  using assms by (simp add: sys_fsync_def open_on_def case_prod_unfold Let_def)

lemma sys_pread_eq:
  assumes "fd_file os fd = Some f"
  shows "sys_pread fd n off os =
    (if script os (tick os) < 0 \<or> sint off < 0 then (-1, [], snd (answer os))
     else (int (length (take (min n (max 1 (nat (script os (tick os))))) (drop (unat off) (contents f)))),
           take (min n (max 1 (nat (script os (tick os))))) (drop (unat off) (contents f)),
           snd (answer os)))"
  using assms by (simp add: sys_pread_def case_prod_unfold Let_def)

text \<open>A well-formed directory: every name refers to an existing file, no two names to the same
  one, and the next inode number is fresh.\<close>

definition wf_fs :: "os \<Rightarrow> bool" where
  "wf_fs os \<longleftrightarrow>
     inj_on (names os) (dom (names os)) \<and>
     (\<forall>p i. names os p = Some i \<longrightarrow> i < next_inode os \<and> inodes os i \<noteq> None)"

lemma sys_open_existing:
  assumes "names os path = Some i" and "sys_open path c False ap os = (fd, os')"
  shows "inodes os' = inodes os" and "names os' = names os" and "next_inode os' = next_inode os"
    and "script os' = script os" and "tick os' = tick os + 1"
    and "0 \<le> fd \<Longrightarrow> fds os fd = None \<and> fd = next_fd os \<and> next_fd os' = fd + 1 \<and>
      fds os' = (fds os)(fd \<mapsto> \<lparr>of_inode = i, of_offset = 0, of_append = ap\<rparr>)"
    and "fd < 0 \<Longrightarrow> fds os' = fds os \<and> next_fd os' = next_fd os"
  using assms
  by (auto simp: sys_open_def case_prod_unfold Let_def split: if_splits option.splits)

section \<open>Well-formed directories are kept\<close>

lemma wf_fs_cong:
  "names os' = names os \<Longrightarrow> next_inode os \<le> next_inode os' \<Longrightarrow> dom (inodes os) \<subseteq> dom (inodes os') \<Longrightarrow>
     wf_fs os \<Longrightarrow> wf_fs os'"
  unfolding wf_fs_def by (metis domD domI order.strict_trans2 option.distinct(1) subsetD option.exhaust)

lemma wf_fs_answer [simp]: "wf_fs os \<Longrightarrow> wf_fs (snd (answer os))"
  by (rule wf_fs_cong [of _ os]) simp_all

lemma sys_write_dirs:
  "sys_write fd bs os = (n, os') \<Longrightarrow> names os' = names os \<and> (wf_fs os \<longrightarrow> wf_fs os')"
  by (auto simp: sys_write_def case_prod_unfold Let_def split: option.splits if_splits
      intro!: wf_fs_cong [of _ os])

lemma sys_fsync_dirs:
  "sys_fsync fd os = (n, os') \<Longrightarrow> names os' = names os \<and> (wf_fs os \<longrightarrow> wf_fs os')"
  by (auto simp: sys_fsync_def case_prod_unfold Let_def split: option.splits if_splits
      intro!: wf_fs_cong [of _ os])

lemma sys_close_dirs: "names (sys_close fd os) = names os \<and> (wf_fs os \<longrightarrow> wf_fs (sys_close fd os))"
  by (auto intro!: wf_fs_cong [of _ os])

lemma ufd_destroy_dirs: "names (ufd_destroy fd os) = names os \<and> (wf_fs os \<longrightarrow> wf_fs (ufd_destroy fd os))"
  using sys_close_dirs by (simp add: ufd_destroy_def ufd_reset_def)

lemma sys_rename_dirs:
  assumes "sys_rename old new os = (rc, os')"
  shows "p \<noteq> old \<Longrightarrow> p \<noteq> new \<Longrightarrow> names os' p = names os p" and "wf_fs os \<Longrightarrow> wf_fs os'"
proof -
  show "p \<noteq> old \<Longrightarrow> p \<noteq> new \<Longrightarrow> names os' p = names os p"
    using assms by (auto simp: sys_rename_def case_prod_unfold Let_def split: option.splits if_splits)
  assume wf: "wf_fs os"
  show "wf_fs os'"
  proof (cases "names os' = names os \<and> next_inode os' = next_inode os \<and> inodes os' = inodes os")
    case True
    then show ?thesis using wf wf_fs_cong [of os' os] by simp
  next
    case False
    with assms obtain i where i: "names os old = Some i" "old \<noteq> new" "names os' = ((names os)(old := None))(new \<mapsto> i)"
      "inodes os' = inodes os" "next_inode os' = next_inode os"
      by (auto simp: sys_rename_def case_prod_unfold Let_def split: option.splits if_splits)
    have inj: "p = p'" if "names os p = Some j" "names os p' = Some j" for p p' j
      using inj_onD [of "names os" "dom (names os)" p p'] wf that by (auto simp: wf_fs_def)
    have "inj_on (names os') (dom (names os'))"
      using i(2) inj [OF _ i(1)] inj by (auto simp: inj_on_def i(3) split: if_splits)
    then show ?thesis using wf i by (auto simp: wf_fs_def split: if_splits)
  qed
qed

lemma wf_fs_create:
  assumes "wf_fs os" and "names os' = (names os)(path \<mapsto> next_inode os)"
    and "inodes os' = (inodes os)(next_inode os \<mapsto> f)" and "next_inode os' = next_inode os + 1"
  shows "wf_fs os'"
proof -
  have "names os p \<noteq> Some (next_inode os)" for p using assms(1) by (auto simp: wf_fs_def)
  then have "inj_on (names os') (dom (names os'))"
    using assms(1) by (auto simp: wf_fs_def inj_on_def assms(2) split: if_splits)
  then show ?thesis using assms(1) by (auto simp: wf_fs_def assms(2-4) less_Suc_eq split: if_splits)
qed

lemma sys_open_dirs:
  assumes "sys_open path c t a os = (fd, os')"
  shows "p \<noteq> path \<Longrightarrow> names os' p = names os p" and "wf_fs os \<Longrightarrow> wf_fs os'"
proof -
  show "p \<noteq> path \<Longrightarrow> names os' p = names os p"
    using assms by (auto simp: sys_open_def case_prod_unfold Let_def split: option.splits if_splits)
  assume wf: "wf_fs os"
  show "wf_fs os'"
  proof (cases "names os' = names os")
    case True
    then show ?thesis
      using assms wf by (intro wf_fs_cong [of os' os])
        (auto simp: sys_open_def case_prod_unfold Let_def split: option.splits if_splits)
  next
    case False
    with assms have new: "names os path = None" "names os' = (names os)(path \<mapsto> next_inode os)"
      "inodes os' = (inodes os)(next_inode os \<mapsto> \<lparr>contents = [], stable = []\<rparr>)" "next_inode os' = next_inode os + 1"
      by (auto simp: sys_open_def case_prod_unfold Let_def split: option.splits if_splits)
    from wf_fs_create [OF wf this(2-4)] show ?thesis .
  qed
qed

end
