(* ===== verification/Wal_Writer.thy ===== *)
theory Wal_Writer
  imports Wal_Codec Crc32 Posix
begin

text \<open>
  \<open>src/src/wal_writer.cpp\<close>: the append-only log writer. \<open>wal_append\<close> assembles header, payload and
  checksum in its record buffer, hands the record to one \<open>write\<close> and, in the synchronous mode,
  calls \<open>fsync\<close> before it returns. The central lemma \<open>wal_append_cases\<close> lists every outcome with its
  exact effect on the file.
\<close>

section \<open>The code\<close>

record BinaryWalWriter =
  w_fd :: UniqueFd
  w_sync_mode :: SyncMode
  w_offset :: u64
  w_dirty_since_sync :: bool

definition new_writer :: BinaryWalWriter where
  "new_writer = \<lparr>w_fd = ufd_new, w_sync_mode = SyncEveryWrite, w_offset = 0,
                 w_dirty_since_sync = False\<rparr>"

definition size_bytes :: "BinaryWalWriter \<Rightarrow> u64" where
  "size_bytes w = w_offset w"

definition is_open :: "BinaryWalWriter \<Rightarrow> bool" where
  "is_open w = ufd_valid (w_fd w)"

definition writer_close :: "BinaryWalWriter \<Rightarrow> os \<Rightarrow> BinaryWalWriter \<times> os" where
  "writer_close w os =
     (let (w, os) =
        (if ufd_valid (w_fd w) then
           let (_, os) = sys_fsync (w_fd w) os;
               (u, os) = ufd_reset (-1) (w_fd w) os
           in (w\<lparr>w_fd := u\<rparr>, os)
         else (w, os))
      in (w\<lparr>w_offset := 0, w_dirty_since_sync := False\<rparr>, os))"

definition writer_open ::
    "string \<Rightarrow> SyncMode \<Rightarrow> BinaryWalWriter \<Rightarrow> os \<Rightarrow> result_void \<times> BinaryWalWriter \<times> os" where
  "writer_open path mode w os =
     (let (w, os) = writer_close w os;
          (fd, os) = sys_open path True False True os in
      if fd < 0 then (WalOpenFailed, w, os)
      else
        let (rc, st_size, os) = sys_fstat fd os in
        if rc \<noteq> 0 then (WalOpenFailed, w, sys_close fd os)
        else
          let (u, os) = ufd_reset fd (w_fd w) os in
          (ErrNone,
           w\<lparr>w_fd := u, w_sync_mode := mode, w_offset := st_size, w_dirty_since_sync := False\<rparr>,
           os))"

definition flush :: "BinaryWalWriter \<Rightarrow> os \<Rightarrow> result_void \<times> BinaryWalWriter \<times> os" where
  "flush w os =
     (if \<not> ufd_valid (w_fd w) then (WalOpenFailed, w, os)
      else if \<not> w_dirty_since_sync w then (ErrNone, w, os)
      else
        let (rc, os) = sys_fsync (w_fd w) os in
        if rc \<noteq> 0 then (WalSyncFailed, w, os)
        else (ErrNone, w\<lparr>w_dirty_since_sync := False\<rparr>, os))"

definition wal_append ::
    "Transaction \<Rightarrow> BinaryWalWriter \<Rightarrow> os \<Rightarrow> (result_void \<times> BinaryWalWriter \<times> os) option" where
  "wal_append tx w os =
     (if \<not> ufd_valid (w_fd w) then Some (WalOpenFailed, w, os)
      else do {
        payload \<leftarrow> encode_transaction_payload tx;
        case payload of
          Inl e \<Rightarrow> Some (e, w, os)
        | Inr p \<Rightarrow> do {
            let (now, os) = monotonic_now_ns os;
            let header = \<lparr>hdr_magic = kMagic, hdr_version = kVersion, hdr_flags = 0,
                          hdr_payload_size = ep_size p, hdr_transaction_id = tx_id tx,
                          hdr_timestamp_ns = now\<rparr>;
            (rec, offset) \<leftarrow> put (replicate kMaxRecordSize 0) 0 (header_bytes header);
            (body, _) \<leftarrow> get (ep_bytes p) 0 (unat (ep_size p));
            (rec, offset) \<leftarrow> put rec offset body;
            (sealed, _) \<leftarrow> get rec 0 offset;
            (rec, offset) \<leftarrow> put rec offset (le_bytes 4 (compute sealed));
            (out, _) \<leftarrow> get rec 0 offset;
            let (written, os) = sys_write (w_fd w) out os;
            if written < 0 \<or> nat written \<noteq> offset then Some (WalWriteFailed, w, os)
            else do {
              let w = w\<lparr>w_offset := w_offset w + of_nat offset, w_dirty_since_sync := True\<rparr>;
              if w_sync_mode w = SyncEveryWrite then Some (flush w os)
              else Some (ErrNone, w, os)
            }
          }
      })"

section \<open>The record layout\<close>

definition record_header :: "Transaction \<Rightarrow> i64 \<Rightarrow> RecordHeader" where
  "record_header tx now =
     \<lparr>hdr_magic = kMagic, hdr_version = kVersion, hdr_flags = 0,
      hdr_payload_size = of_nat (length (payload_bytes tx)), hdr_transaction_id = tx_id tx,
      hdr_timestamp_ns = now\<rparr>"

definition record_body :: "Transaction \<Rightarrow> i64 \<Rightarrow> byte list" where
  "record_body tx now = header_bytes (record_header tx now) @ payload_bytes tx"

definition record_bytes :: "Transaction \<Rightarrow> i64 \<Rightarrow> byte list" where
  "record_bytes tx now = record_body tx now @ le_bytes 4 (compute (record_body tx now))"

lemma length_record_body: "length (record_body tx now) = 45 + 17 * length (tx_legs tx)"
  by (simp add: record_body_def length_payload_bytes)

lemma length_record_bytes: "length (record_bytes tx now) = 49 + 17 * length (tx_legs tx)"
  by (simp add: record_bytes_def length_record_body)

lemma get_whole_prefix:
  assumes "n = length acc"
  shows "get (acc @ rest) 0 n = Some (acc, n)"
  using assms by (simp add: get_def)

text \<open>The buffer work of \<open>wal_append\<close> stays within its 544 bytes and yields the record.\<close>

lemma wal_append_eq:
  assumes "wf_tx tx" and "0 \<le> w_fd w"
  shows "wal_append tx w os =
    (let (now, os) = monotonic_now_ns os;
         (written, os) = sys_write (w_fd w) (record_bytes tx now) os in
     if written < 0 \<or> nat written \<noteq> length (record_bytes tx now) then Some (WalWriteFailed, w, os)
     else
       let w = w\<lparr>w_offset := w_offset w + of_nat (length (record_bytes tx now)),
                 w_dirty_since_sync := True\<rparr> in
       if w_sync_mode w = SyncEveryWrite then Some (flush w os) else Some (ErrNone, w, os))"
proof -
  have len: "length (tx_legs tx) \<le> 16" using assms(1) by (rule length_tx_legs)
  let ?p = "\<lparr>ep_bytes = payload_bytes tx @ replicate (512 - length (payload_bytes tx)) 0,
    ep_size = of_nat (length (payload_bytes tx))\<rparr> :: EncodedPayload"
  have enc: "encode_transaction_payload tx = Some (Inr ?p)"
    using len by (rule encode_transaction_payload_eq)
  have plen: "length (payload_bytes tx) \<le> 289" using len by (simp add: length_payload_bytes)
  have psize: "unat (ep_size ?p) = length (payload_bytes tx)"
    using payload_span_encode(2) [OF len enc] .
  obtain now os1 where now: "monotonic_now_ns os = (now, os1)" by (cases "monotonic_now_ns os")
  let ?hb = "header_bytes (record_header tx now)"
  let ?fill = "\<lambda>acc. acc @ replicate (544 - length acc) (0 :: byte)"
  have hdr: "\<lparr>hdr_magic = kMagic, hdr_version = kVersion, hdr_flags = 0,
      hdr_payload_size = ep_size ?p, hdr_transaction_id = tx_id tx,
      hdr_timestamp_ns = now\<rparr> = record_header tx now"
    by (simp add: record_header_def)
  have p1: "put (replicate kMaxRecordSize 0) 0 ?hb = Some (?fill ?hb, 28)"
    using put_extend [of "[]" ?hb 544]
    by (simp add: kMaxRecordSize_def kHeaderSize_def kMaxPayloadSize_def kCrcSize_def)
  have g1: "get (ep_bytes ?p) 0 (unat (ep_size ?p)) = Some (payload_bytes tx, length (payload_bytes tx))"
    unfolding psize by (simp add: get_whole_prefix)
  have p2: "put (?fill ?hb) 28 (payload_bytes tx) =
      Some (?fill (record_body tx now), length (record_body tx now))"
    using put_extend [of ?hb "payload_bytes tx" 544] plen by (simp add: record_body_def)
  have g2: "get (?fill (record_body tx now)) 0 (length (record_body tx now)) =
      Some (record_body tx now, length (record_body tx now))"
    by (simp add: get_whole_prefix)
  have p3: "put (?fill (record_body tx now)) (length (record_body tx now))
      (le_bytes 4 (compute (record_body tx now))) =
      Some (?fill (record_bytes tx now), length (record_bytes tx now))"
    using put_extend [of "record_body tx now" "le_bytes 4 (compute (record_body tx now))" 544] len
    by (simp add: record_bytes_def length_record_body)
  have g3: "get (?fill (record_bytes tx now)) 0 (length (record_bytes tx now)) =
      Some (record_bytes tx now, length (record_bytes tx now))"
    by (simp add: get_whole_prefix)
  have valid: "ufd_valid (w_fd w)" using assms(2) by (simp add: ufd_valid_def)
  show ?thesis
    unfolding wal_append_def
    by (simp only: valid not_True_eq_False if_False enc Option.bind.simps sum.case now prod.case
        Let_def hdr p1 g1 p2 g2 p3 g3)
qed

section \<open>Effect of an append on the file\<close>

text \<open>The writer holds a descriptor opened for appending on the file at \<open>path\<close>.\<close>

definition writer_on :: "BinaryWalWriter \<Rightarrow> os \<Rightarrow> string \<Rightarrow> diskfile \<Rightarrow> bool" where
  "writer_on w os path f \<longleftrightarrow>
     0 \<le> w_fd w \<and>
     (\<exists>h. open_on os (w_fd w) h f \<and> of_append h \<and> names os path = Some (of_inode h))"

lemma writer_on_path_file: "writer_on w os path f \<Longrightarrow> path_file os path = Some f"
  by (auto simp: writer_on_def path_file_def open_on_def)

text \<open>
  The outcomes of an append at time \<open>now\<close>: success, with the record at the end of the file and,
  in the synchronous mode, on stable storage; a failed \<open>fsync\<close>, with the record in the file but
  not known to be stable; a failed or short \<open>write\<close>, which leaves a proper prefix of the record
  at the end of the file and the writer as it was.
\<close>

definition append_effect ::
    "Transaction \<Rightarrow> i64 \<Rightarrow> BinaryWalWriter \<Rightarrow> diskfile \<Rightarrow> result_void \<Rightarrow> BinaryWalWriter \<Rightarrow> diskfile \<Rightarrow> bool"
where
  "append_effect tx now w f r w' f' \<longleftrightarrow>
     w_fd w' = w_fd w \<and> w_sync_mode w' = w_sync_mode w \<and>
     (r = ErrNone \<and> contents f' = contents f @ record_bytes tx now \<and>
        w_offset w' = w_offset w + of_nat (length (record_bytes tx now)) \<and>
        (if w_sync_mode w = SyncEveryWrite
         then stable f' = contents f' \<and> \<not> w_dirty_since_sync w'
         else stable f' = stable f \<and> w_dirty_since_sync w')
      \<or> r = WalSyncFailed \<and> w_sync_mode w = SyncEveryWrite \<and>
        contents f' = contents f @ record_bytes tx now \<and> stable f' = stable f \<and>
        w_offset w' = w_offset w + of_nat (length (record_bytes tx now)) \<and> w_dirty_since_sync w'
      \<or> r = WalWriteFailed \<and> w' = w \<and> stable f' = stable f \<and>
        (\<exists>k < length (record_bytes tx now). contents f' = contents f @ take k (record_bytes tx now)))"

lemma append_effect_results:
  "append_effect tx now w f r w' f' \<Longrightarrow> r \<in> {ErrNone, WalSyncFailed, WalWriteFailed}"
  by (auto simp: append_effect_def)

text \<open>The write of \<open>n\<close> bytes by an appending descriptor, seen through the path.\<close>

lemma writer_write:
  assumes "writer_on w os path f"
  defines "a \<equiv> script os (tick os)"
  obtains os' where "sys_write (w_fd w) bs os = (if a < 0 then -1 else int (min (nat a) (length bs)), os')"
    "writer_on w os' path (if a < 0 then f else f\<lparr>contents := contents f @ take (nat a) bs\<rparr>)"
    "names os' = names os" "script os' = script os" "tick os' = Suc (tick os)"
proof -
  from assms(1) obtain h where h: "open_on os (w_fd w) h f" "of_append h"
    "names os path = Some (of_inode h)" "0 \<le> w_fd w"
    by (auto simp: writer_on_def)
  let ?n = "min (nat a) (length bs)"
  let ?os1 = "(put_file (of_inode h) (f\<lparr>contents := contents f @ take ?n bs\<rparr>) (snd (answer os)))
      \<lparr>fds := (fds os)(w_fd w \<mapsto> h\<lparr>of_offset := length (contents f) + ?n\<rparr>)\<rparr>"
  have "take ?n bs = take (nat a) bs" by (simp add: min_def)
  then show thesis
    using h by (intro that [of "if a < 0 then snd (answer os) else ?os1"])
      (auto simp: sys_write_append [OF h(1,2)] a_def Let_def writer_on_def open_on_def)
qed

lemma writer_flush:
  assumes "writer_on w os path f" and "w_dirty_since_sync w"
  defines "b \<equiv> script os (tick os)"
  obtains os' where
    "flush w os = (if b < 0 then (WalSyncFailed, w, os') else (ErrNone, w\<lparr>w_dirty_since_sync := False\<rparr>, os'))"
    "writer_on w os' path (if b < 0 then f else f\<lparr>stable := contents f\<rparr>)"
    "names os' = names os" "script os' = script os" "tick os' = Suc (tick os)"
proof -
  from assms(1) obtain h where h: "open_on os (w_fd w) h f" "of_append h"
    "names os path = Some (of_inode h)" "0 \<le> w_fd w"
    by (auto simp: writer_on_def)
  let ?os1 = "put_file (of_inode h) (f\<lparr>stable := contents f\<rparr>) (snd (answer os))"
  show thesis
    using h assms(2) by (intro that [of "if b < 0 then snd (answer os) else ?os1"])
      (auto simp: sys_fsync_cases [OF h(1)] b_def flush_def ufd_valid_def writer_on_def open_on_def)
qed

lemma writer_on_update [simp]:
  "writer_on (w\<lparr>w_offset := x\<rparr>) os path f = writer_on w os path f"
  "writer_on (w\<lparr>w_dirty_since_sync := b\<rparr>) os path f = writer_on w os path f"
  by (simp_all add: writer_on_def)

lemma writer_on_answers:
  "writer_on w os path f \<Longrightarrow> writer_on w (snd (monotonic_now_ns os)) path f"
  by (simp add: writer_on_def open_on_def)

text \<open>
  An append reads the clock twice, writes, and syncs if it has to: the third and the fourth answer of
  the operating system decide what it reports.
\<close>

definition append_result :: "SyncMode \<Rightarrow> nat \<Rightarrow> int \<Rightarrow> int \<Rightarrow> LedgerError" where
  "append_result mode len a b =
     (if a < int len then WalWriteFailed else if mode = SyncEveryWrite \<and> b < 0 then WalSyncFailed else ErrNone)"

lemma wal_append_cases:
  assumes "wf_tx tx" and "writer_on w os path f"
  obtains r w' os' f' where "wal_append tx w os = Some (r, w', os')"
    and "append_effect tx (fst (monotonic_now_ns os)) w f r w' f'"
    and "writer_on w' os' path f'" and "names os' = names os" and "script os' = script os" and "tick os + 3 \<le> tick os'"
    and "r = append_result (w_sync_mode w) (length (record_bytes tx (fst (monotonic_now_ns os))))
           (script os (tick os + 2)) (script os (tick os + 3))"
proof -
  obtain now os1 where now: "monotonic_now_ns os = (now, os1)" by (cases "monotonic_now_ns os")
  have os1: "writer_on w os1 path f" "names os1 = names os" "script os1 = script os" "tick os1 = tick os + 2"
    using writer_on_answers [OF assms(2)] monotonic_now_ns_simps [of os] now by simp_all
  have fd: "0 \<le> w_fd w" using assms(2) by (simp add: writer_on_def)
  let ?rec = "record_bytes tx now" and ?a = "script os (tick os + 2)" and ?b = "script os (tick os + 3)"
  let ?w = "w\<lparr>w_offset := w_offset w + of_nat (length ?rec), w_dirty_since_sync := True\<rparr>"
  let ?f = "if ?a < 0 then f else f\<lparr>contents := contents f @ take (nat ?a) ?rec\<rparr>"
  obtain os2 where os2: "sys_write (w_fd w) ?rec os1 = (if ?a < 0 then -1 else int (min (nat ?a) (length ?rec)), os2)"
    "writer_on w os2 path ?f" "names os2 = names os" "script os2 = script os" "tick os2 = Suc (tick os + 2)"
    by (rule writer_write [OF os1(1), of ?rec, unfolded os1(2-4)])
  have short: "(written < 0 \<or> nat written \<noteq> length ?rec) = (?a < int (length ?rec))"
    if "written = (if ?a < 0 then -1 else int (min (nat ?a) (length ?rec)))" for written
    using that by auto
  have app: "wal_append tx w os = (if ?a < int (length ?rec) then Some (WalWriteFailed, w, os2)
      else if w_sync_mode w = SyncEveryWrite then Some (flush ?w os2) else Some (ErrNone, ?w, os2))"
    unfolding wal_append_eq [OF assms(1) fd, of os] now Let_def os2(1) prod.case short [OF refl] by simp
  have rec: "0 < length ?rec" by (simp add: length_record_bytes)
  consider (failed) "?a < int (length ?rec)"
    | (batch) "\<not> ?a < int (length ?rec)" "w_sync_mode w \<noteq> SyncEveryWrite"
    | (sync) "\<not> ?a < int (length ?rec)" "w_sync_mode w = SyncEveryWrite"
    by blast
  then show thesis
  proof cases
    case failed
    then have "append_effect tx now w f WalWriteFailed w ?f"
      using rec by (cases "?a < 0") (auto simp: append_effect_def intro: exI [of _ "nat ?a"] exI [of _ 0])
    then show thesis using failed app now os2 by (intro that [of WalWriteFailed w os2 ?f]) (simp_all add: append_result_def)
  next
    case batch
    then have "append_effect tx now w f ErrNone ?w ?f" by (simp add: append_effect_def)
    then show thesis using batch app now os2 by (intro that [of ErrNone ?w os2 ?f]) (simp_all add: append_result_def)
  next
    case sync
    let ?g = "f\<lparr>contents := contents f @ ?rec\<rparr>"
    have "?f = ?g" using sync(1) by simp
    then have on: "writer_on ?w os2 path ?g" using os2(2) by simp
    obtain os3 where os3: "flush ?w os2 = (if ?b < 0 then (WalSyncFailed, ?w, os3) else (ErrNone, ?w\<lparr>w_dirty_since_sync := False\<rparr>, os3))"
      "writer_on w os3 path (if ?b < 0 then ?g else ?g\<lparr>stable := contents ?g\<rparr>)" "names os3 = names os"
      "script os3 = script os" "tick os + 3 \<le> tick os3"
    proof (rule writer_flush [OF on], goal_cases)
      case (2 os')
      have b: "script os2 (tick os2) = ?b" using os2(4,5) by (simp add: numeral_3_eq_3)
      show ?case by (rule 2(1) [of os']) (use 2(2-6) [unfolded b] os2(3-5) in \<open>simp_all split: if_splits\<close>)
    qed simp
    then show thesis
      using sync app now
      by (intro that [of "if ?b < 0 then WalSyncFailed else ErrNone" "if ?b < 0 then ?w else ?w\<lparr>w_dirty_since_sync := False\<rparr>" os3
            "if ?b < 0 then ?g else ?g\<lparr>stable := contents ?g\<rparr>"])
        (simp_all add: append_result_def append_effect_def split: if_splits)
  qed
qed

section \<open>Opening\<close>

lemma writer_close_fresh:
  "w_fd w < 0 \<Longrightarrow> writer_close w os = (w\<lparr>w_offset := 0, w_dirty_since_sync := False\<rparr>, os)"
  by (simp add: writer_close_def ufd_valid_def)

text \<open>A successful \<open>open\<close> holds a descriptor on the file at the path, with the old contents, or
  empty if the file is new.\<close>

lemma sys_open_append:
  assumes "sys_open path True False True os = (fd, os')" and "0 \<le> fd"
  shows "\<exists>h. fds os' fd = Some h \<and> of_append h \<and> names os' path = Some (of_inode h) \<and>
      (path_file os path = inodes os' (of_inode h) \<or>
       names os path = None \<and> inodes os' (of_inode h) = Some \<lparr>contents = [], stable = []\<rparr>)"
  using assms
  by (auto simp: sys_open_def case_prod_unfold Let_def path_file_def
      split: if_splits option.splits)

lemma writer_open_success:
  assumes "writer_open path mode w os = (ErrNone, w', os')" and "w_fd w < 0"
  obtains f where "writer_on w' os' path f" and "w_offset w' = of_nat (length (contents f))"
    and "w_sync_mode w' = mode" and "\<not> w_dirty_since_sync w'"
    and "path_file os path = Some f \<or>
         names os path = None \<and> f = \<lparr>contents = [], stable = []\<rparr>"
proof -
  obtain fd os1 where o: "sys_open path True False True os = (fd, os1)"
    by (cases "sys_open path True False True os")
  obtain rc st_size os2 where st: "sys_fstat fd os1 = (rc, st_size, os2)"
    by (cases "sys_fstat fd os1")
  have step: "writer_open path mode w os =
    (if fd < 0 then (WalOpenFailed, w\<lparr>w_offset := 0, w_dirty_since_sync := False\<rparr>, os1)
     else if rc \<noteq> 0
     then (WalOpenFailed, w\<lparr>w_offset := 0, w_dirty_since_sync := False\<rparr>, sys_close fd os2)
     else (ErrNone, w\<lparr>w_fd := fd, w_sync_mode := mode, w_offset := st_size,
                      w_dirty_since_sync := False\<rparr>, os2))"
    using assms(2) o st by (simp add: writer_open_def writer_close_fresh ufd_reset_def Let_def)
  with assms(1) have fd: "0 \<le> fd" and rc: "rc = 0" and os': "os' = os2"
    and w': "w' = w\<lparr>w_fd := fd, w_sync_mode := mode, w_offset := st_size,
                      w_dirty_since_sync := False\<rparr>"
    by (auto split: if_splits)
  from sys_open_append [OF o fd] obtain h where h: "fds os1 fd = Some h" "of_append h"
    "names os1 path = Some (of_inode h)"
    "path_file os path = inodes os1 (of_inode h) \<or>
     names os path = None \<and> inodes os1 (of_inode h) = Some \<lparr>contents = [], stable = []\<rparr>"
    by auto
  from st rc obtain f where f: "inodes os1 (of_inode h) = Some f"
    "st_size = of_nat (length (contents f))" "os2 = snd (answer os1)"
    using h(1)
    by (auto simp: sys_fstat_def case_prod_unfold Let_def fd_file_def split: option.splits if_splits)
  have "writer_on w' os' path f"
    using h f fd by (auto simp: w' os' writer_on_def open_on_def)
  with h(4) f show thesis by (intro that [of f]) (auto simp: w')
qed

section \<open>Properties\<close>

text \<open>C24. What an append can do, for every answer the operating system may give: it always
  returns, without leaving its record buffer; on success the complete record is at the end of
  the file and, in the synchronous mode, on stable storage before the call returns; after a
  failed \<open>fsync\<close> the complete record is in the file; after a failed or short \<open>write\<close> a proper
  prefix of it is, and the writer's own offset has not moved.\<close>

theorem append_outcomes:
  assumes "wf_tx tx" and "writer_on w os path f"
  shows "\<exists>r w' os' f' now. wal_append tx w os = Some (r, w', os') \<and> writer_on w' os' path f' \<and>
    (r = ErrNone \<and> contents f' = contents f @ record_bytes tx now \<and>
       w_offset w' = w_offset w + of_nat (length (record_bytes tx now)) \<and>
       (w_sync_mode w = SyncEveryWrite \<longrightarrow> stable f' = contents f') \<or>
     r = WalSyncFailed \<and> w_sync_mode w = SyncEveryWrite \<and>
       contents f' = contents f @ record_bytes tx now \<and> stable f' = stable f \<or>
     r = WalWriteFailed \<and> w' = w \<and> stable f' = stable f \<and>
       (\<exists>k < length (record_bytes tx now). contents f' = contents f @ take k (record_bytes tx now)))"
proof -
  from assms obtain r w' os' f' where "wal_append tx w os = Some (r, w', os')"
    and eff: "append_effect tx (fst (monotonic_now_ns os)) w f r w' f'"
    and "writer_on w' os' path f'"
    by (rule wal_append_cases)
  moreover from eff have "r = ErrNone \<and>
       contents f' = contents f @ record_bytes tx (fst (monotonic_now_ns os)) \<and>
       w_offset w' = w_offset w + of_nat (length (record_bytes tx (fst (monotonic_now_ns os)))) \<and>
       (w_sync_mode w = SyncEveryWrite \<longrightarrow> stable f' = contents f') \<or>
     r = WalSyncFailed \<and> w_sync_mode w = SyncEveryWrite \<and>
       contents f' = contents f @ record_bytes tx (fst (monotonic_now_ns os)) \<and> stable f' = stable f \<or>
     r = WalWriteFailed \<and> w' = w \<and> stable f' = stable f \<and>
       (\<exists>k < length (record_bytes tx (fst (monotonic_now_ns os))).
          contents f' = contents f @ take k (record_bytes tx (fst (monotonic_now_ns os))))"
    by (auto simp: append_effect_def)
  ultimately show ?thesis by blast
qed

text \<open>A fresh file system with one descriptor on an empty log, and a kernel that answers every
  call with the same number.\<close>

definition example_os :: "int \<Rightarrow> os" where
  "example_os r =
     \<lparr>inodes = [0 \<mapsto> \<lparr>contents = [], stable = []\<rparr>], next_inode = 1,
      names = [''wal.bin'' \<mapsto> 0],
      fds = [3 \<mapsto> \<lparr>of_inode = 0, of_offset = 0, of_append = True\<rparr>],
      next_fd = 4, script = (\<lambda>_. r), tick = 0\<rparr>"

definition example_writer :: BinaryWalWriter where
  "example_writer = \<lparr>w_fd = 3, w_sync_mode = SyncEveryWrite, w_offset = 0,
                     w_dirty_since_sync = False\<rparr>"

lemma example_writer_on:
  "writer_on example_writer (example_os r) ''wal.bin'' \<lparr>contents = [], stable = []\<rparr>"
  by (simp add: writer_on_def example_writer_def example_os_def open_on_def)

theorem append_outcomes_witness:
  "\<exists>r w' os' f'. wal_append (make_tx 1 (IdempotencyKey 1 1) []) example_writer (example_os 20) =
     Some (r, w', os') \<and> writer_on w' os' ''wal.bin'' f'"
  using append_outcomes [OF _ example_writer_on, of "make_tx 1 (IdempotencyKey 1 1) []" 20]
  by fastforce

end
