(* ===== verification/Wal_Reader.thy ===== *)
theory Wal_Reader
  imports Wal_Writer
begin

text \<open>
  \<open>src/src/wal_reader.cpp\<close>: the sequential log reader used by recovery, and \<open>truncate_wal\<close>. The
  reader is shown to be the parser \<open>parse_record\<close> applied to the bytes at its cursor: exactly
  when the kernel serves the reads in full, and never reporting a record that the parser does
  not find whatever the kernel answers. The parser inverts the writer, and classifies torn and
  corrupted records.
\<close>

section \<open>The code\<close>

datatype ReadOutcome = Read_Ok | EndOfLog | Corrupt | Truncated

record ReadResult =
  outcome :: ReadOutcome
  transaction :: Transaction

definition default_tx :: Transaction where
  "default_tx = \<lparr>tx_id = 0, idempotency_key = IdempotencyKey 0 0, created_at_ns = 0,
                 legs = empty_legs\<rparr>"

record BinaryWalReader =
  r_fd :: UniqueFd
  r_cursor :: u64
  r_last_valid_offset :: u64

definition new_reader :: BinaryWalReader where
  "new_reader = \<lparr>r_fd = ufd_new, r_cursor = 0, r_last_valid_offset = 0\<rparr>"

definition reader_close :: "BinaryWalReader \<Rightarrow> os \<Rightarrow> BinaryWalReader \<times> os" where
  "reader_close r os =
     (let (u, os) = ufd_reset (-1) (r_fd r) os
      in (r\<lparr>r_fd := u, r_cursor := 0, r_last_valid_offset := 0\<rparr>, os))"

definition reader_open ::
    "string \<Rightarrow> BinaryWalReader \<Rightarrow> os \<Rightarrow> result_void \<times> BinaryWalReader \<times> os" where
  "reader_open path r os =
     (let (r, os) = reader_close r os;
          (fd, os) = sys_open path False False False os in
      if fd < 0 then (WalOpenFailed, r, os)
      else
        let (u, os) = ufd_reset fd (r_fd r) os in
        (ErrNone, r\<lparr>r_fd := u, r_cursor := 0, r_last_valid_offset := 0\<rparr>, os))"

definition seek :: "u64 \<Rightarrow> BinaryWalReader \<Rightarrow> BinaryWalReader" where
  "seek offset r = r\<lparr>r_cursor := offset, r_last_valid_offset := offset\<rparr>"

text \<open>A result that leaves the reader where it is.\<close>

definition stop_at :: "ReadOutcome \<Rightarrow> BinaryWalReader \<Rightarrow> os \<Rightarrow> ReadResult \<times> BinaryWalReader \<times> os" where
  "stop_at oc r os = (\<lparr>outcome = oc, transaction = default_tx\<rparr>, r, os)"

text \<open>The second \<open>pread\<close> fills the record buffer behind the header; the \<open>get\<close> before it checks
  that the region handed to the kernel lies inside the buffer.\<close>

definition read_next ::
    "BinaryWalReader \<Rightarrow> os \<Rightarrow> (ReadResult \<times> BinaryWalReader \<times> os) option" where
  "read_next r os =
     (if \<not> ufd_valid (r_fd r) then Some (stop_at EndOfLog r os)
      else do {
        let (n, hb, os) = sys_pread (r_fd r) kHeaderSize (r_cursor r) os;
        if n = 0 then Some (stop_at EndOfLog r os)
        else if n < 0 \<or> nat n < kHeaderSize then Some (stop_at Truncated r os)
        else do {
          let header = header_of_bytes hb;
          let payload_size = unat (hdr_payload_size header);
          if hdr_magic header \<noteq> kMagic \<or> hdr_version header \<noteq> kVersion
             \<or> payload_size > kMaxPayloadSize
          then Some (stop_at Corrupt r os)
          else do {
            let record_size = kHeaderSize + payload_size + kCrcSize;
            (buffer, _) \<leftarrow> put (replicate kMaxRecordSize 0) 0 (header_bytes header);
            _ \<leftarrow> get buffer kHeaderSize (payload_size + kCrcSize);
            let (n, bs, os) = sys_pread (r_fd r) (payload_size + kCrcSize)
                                (r_cursor r + of_nat kHeaderSize) os;
            (buffer, _) \<leftarrow> put buffer kHeaderSize bs;
            if n < 0 \<or> nat n < payload_size + kCrcSize then Some (stop_at Truncated r os)
            else do {
              (stored, _) \<leftarrow> get buffer (kHeaderSize + payload_size) kCrcSize;
              (sealed, _) \<leftarrow> get buffer 0 (kHeaderSize + payload_size);
              if le_word stored \<noteq> compute sealed then Some (stop_at Corrupt r os)
              else do {
                (payload, _) \<leftarrow> get buffer kHeaderSize payload_size;
                tx \<leftarrow> decode_transaction_payload payload (hdr_transaction_id header)
                        (hdr_timestamp_ns header);
                Some (case tx of
                    Inl _ \<Rightarrow> stop_at Corrupt r os
                  | Inr tx \<Rightarrow>
                      let cursor = r_cursor r + of_nat record_size in
                      (\<lparr>outcome = Read_Ok, transaction = tx\<rparr>,
                       r\<lparr>r_cursor := cursor, r_last_valid_offset := cursor\<rparr>, os))
              }
            }
          }
        }
      })"

definition truncate_wal :: "string \<Rightarrow> u64 \<Rightarrow> os \<Rightarrow> result_void \<times> os" where
  "truncate_wal path valid_offset os =
     (let (fd, os) = sys_open path False False False os in
      if fd < 0 then (WalOpenFailed, os)
      else
        let (rc, os) = sys_ftruncate fd valid_offset os in
        if rc \<noteq> 0 then (WalWriteFailed, ufd_destroy fd os)
        else
          let (rc, os) = sys_fsync fd os in
          if rc \<noteq> 0 then (WalSyncFailed, ufd_destroy fd os)
          else (ErrNone, ufd_destroy fd os))"

section \<open>The parser\<close>

text \<open>What follows a complete header \<open>h\<close>, with bytes \<open>hb\<close>: \<open>tail\<close> holds payload and checksum.\<close>

definition finish_record ::
    "RecordHeader \<Rightarrow> byte list \<Rightarrow> byte list \<Rightarrow> ReadOutcome + Transaction \<times> nat" where
  "finish_record h hb tail =
     (let n = unat (hdr_payload_size h) in
      if le_word (take 4 (drop n tail)) \<noteq> compute (hb @ take n tail) then Inl Corrupt
      else case decode_transaction_payload (take n tail) (hdr_transaction_id h)
                  (hdr_timestamp_ns h) of
             Some (Inr tx) \<Rightarrow> Inr (tx, 28 + n + 4)
           | _ \<Rightarrow> Inl Corrupt)"

definition bad_header :: "RecordHeader \<Rightarrow> bool" where
  "bad_header h \<longleftrightarrow> hdr_magic h \<noteq> kMagic \<or> hdr_version h \<noteq> kVersion \<or> unat (hdr_payload_size h) > 512"

definition parse_record :: "byte list \<Rightarrow> ReadOutcome + Transaction \<times> nat" where
  "parse_record bs =
     (if bs = [] then Inl EndOfLog
      else if length bs < 28 then Inl Truncated
      else
        let h = header_of_bytes (take 28 bs);
            n = unat (hdr_payload_size h) in
        if bad_header h then Inl Corrupt
        else if length bs < 28 + n + 4 then Inl Truncated
        else finish_record h (take 28 bs) (take (n + 4) (drop 28 bs)))"

text \<open>The result of a read at the cursor, given what the parser says about the bytes there.\<close>

fun read_as :: "BinaryWalReader \<Rightarrow> os \<Rightarrow> ReadOutcome + Transaction \<times> nat
    \<Rightarrow> ReadResult \<times> BinaryWalReader \<times> os" where
  "read_as r os (Inl oc) = stop_at oc r os"
| "read_as r os (Inr (tx, n)) =
     (\<lparr>outcome = Read_Ok, transaction = tx\<rparr>,
      r\<lparr>r_cursor := r_cursor r + of_nat n, r_last_valid_offset := r_cursor r + of_nat n\<rparr>, os)"

lemma header_bytes_of:
  assumes "length bs = 28"
  shows "header_bytes (header_of_bytes bs) = bs"
proof -
  have w2: "le_bytes 2 (le_word xs :: u16) = xs" if "length xs = 2" for xs
    using le_bytes_le_word [where 'a = 16, of xs] that by simp
  have w4: "le_bytes 4 (le_word xs :: u32) = xs" if "length xs = 4" for xs
    using le_bytes_le_word [where 'a = 32, of xs] that by simp
  have w8: "le_bytes 8 (le_word xs :: u64) = xs" if "length xs = 8" for xs
    using le_bytes_le_word [where 'a = 64, of xs] that by simp
  have chain: "take 4 bs @ take 2 (drop 4 bs) @ take 2 (drop 6 bs) @ take 4 (drop 8 bs) @
      take 8 (drop 12 bs) @ take 8 (drop 20 bs) = bs"
  proof -
    have split: "take n (drop m bs) @ drop (m + n) bs = drop m bs" for n m
      by (metis add.commute append_take_drop_id drop_drop)
    have "take 8 (drop 20 bs) = drop 20 bs" using assms by simp
    with split [of 8 12] split [of 4 8] split [of 2 6] split [of 2 4] split [of 4 0]
    show ?thesis by simp
  qed
  show ?thesis
    using assms chain by (simp add: header_bytes_def header_of_bytes_def w2 w4 w8)
qed

lemma finish_record_ok:
  assumes "finish_record h hb tail = Inr (tx, n)"
  shows "n = 28 + unat (hdr_payload_size h) + 4"
    and "le_word (take 4 (drop (unat (hdr_payload_size h)) tail)) =
           compute (hb @ take (unat (hdr_payload_size h)) tail)"
    and "decode_transaction_payload (take (unat (hdr_payload_size h)) tail) (hdr_transaction_id h)
           (hdr_timestamp_ns h) = Some (Inr tx)"
  using assms by (auto simp: finish_record_def Let_def split: if_splits option.splits sum.splits)

lemma finish_record_not_ok: "finish_record h hb tail = Inl oc \<Longrightarrow> oc = Corrupt"
  by (auto simp: finish_record_def Let_def split: if_splits option.splits sum.splits)

lemma parse_record_bounds:
  assumes "parse_record bs = Inr (tx, n)"
  shows "32 \<le> n" and "n \<le> length bs" and "n \<le> 544"
  using assms finish_record_ok(1)
  by (fastforce simp: parse_record_def bad_header_def Let_def split: if_splits)+

text \<open>What a successful parse has checked.\<close>

lemma parse_record_ok:
  assumes "parse_record bs = Inr (tx, k)"
  shows "\<exists>h. take 28 bs = header_bytes h \<and> \<not> bad_header h \<and>
    k = 28 + unat (hdr_payload_size h) + 4 \<and> k \<le> length bs \<and>
    decode_transaction_payload (take (unat (hdr_payload_size h)) (drop 28 bs))
      (hdr_transaction_id h) (hdr_timestamp_ns h) = Some (Inr tx) \<and>
    (le_word (take 4 (drop (28 + unat (hdr_payload_size h)) bs)) :: u32) =
      compute (take (28 + unat (hdr_payload_size h)) bs)"
proof -
  define h where "h = header_of_bytes (take 28 bs)"
  define n where "n = unat (hdr_payload_size h)"
  from assms have bs: "28 + n + 4 \<le> length bs" "\<not> bad_header h"
    "finish_record h (take 28 bs) (take (n + 4) (drop 28 bs)) = Inr (tx, k)"
    by (auto simp: parse_record_def Let_def h_def [symmetric] n_def [symmetric] split: if_splits)
  note fin = finish_record_ok [OF bs(3), folded n_def]
  have "take 4 (drop n (take (n + 4) (drop 28 bs))) = take 4 (drop (28 + n) bs)"
    using bs(1) by (simp add: drop_take add.commute [of n])
  moreover have "take 28 bs @ take n (take (n + 4) (drop 28 bs)) = take (28 + n) bs"
    using take_add [of 28 n bs] by simp
  moreover have "take 28 bs = header_bytes h"
    using bs(1) by (simp add: h_def header_bytes_of)
  ultimately show ?thesis
    using bs fin by (intro exI [of _ h]) (simp add: n_def [symmetric])
qed

lemma parse_record_not_ok: "parse_record bs = Inl oc \<Longrightarrow> oc \<noteq> Read_Ok"
  using finish_record_not_ok by (fastforce simp: parse_record_def Let_def split: if_splits)

section \<open>The reader is the parser\<close>

lemma unat_less_half: "0 \<le> sint (w :: u64) \<longleftrightarrow> unat w < 2 ^ 63"
proof -
  have "sint w = (uint w + 2 ^ 63) mod 2 ^ 64 - 2 ^ 63"
    by (simp add: sint_uint signed_take_bit_eq_take_bit_shift take_bit_eq_mod)
  moreover have "(uint w + 2 ^ 63) mod 2 ^ 64 =
      (if uint w < 2 ^ 63 then uint w + 2 ^ 63 else uint w - 2 ^ 63)"
  proof (cases "uint w < 2 ^ 63")
    case True
    then show ?thesis by (simp add: mod_pos_pos_trivial)
  next
    case False
    have "uint w < 2 ^ 64" using uint_lt2p [of w] by simp
    with False have "(uint w - 2 ^ 63 + 1 * 2 ^ 64) mod 2 ^ 64 = uint w - 2 ^ 63"
      unfolding mod_mult_self1 by (intro mod_pos_pos_trivial) simp_all
    with False show ?thesis by (simp add: algebra_simps)
  qed
  ultimately have eq: "sint w = (if uint w < 2 ^ 63 then uint w else uint w - 2 ^ 64)" by simp
  have iff: "unat w < 2 ^ 63 \<longleftrightarrow> uint w < 2 ^ 63"
    using of_nat_less_iff [of "unat w" "2 ^ 63", where 'a = int] by simp
  have "0 \<le> uint w" and "uint w < 2 ^ 64"
    using uint_lt2p [of w] by simp_all
  then show ?thesis unfolding eq iff by auto
qed

text \<open>A transfer that the kernel may cut short, seen as a prefix.\<close>

definition served :: "os \<Rightarrow> nat \<Rightarrow> nat" where
  "served os k = max 1 (nat (script os (tick os + k)))"

lemma put_header:
  "length hb = 28 \<Longrightarrow> put (replicate kMaxRecordSize 0) 0 hb = Some (hb @ replicate 516 0, 28)"
  by (simp add: put_def kMaxRecordSize_def kHeaderSize_def kMaxPayloadSize_def kCrcSize_def)

lemma put_tail:
  "length hb = 28 \<Longrightarrow> length bs \<le> 516 \<Longrightarrow>
    put (hb @ replicate 516 0) 28 bs = Some (hb @ bs @ replicate (516 - length bs) 0, 28 + length bs)"
  by (simp add: put_def)

lemma get_checked:
  "offset + n \<le> length src \<Longrightarrow> get src offset n = Some (take n (drop offset src), offset + n)"
  by (rule get_prefix)

text \<open>The work on the buffer, once both reads are done.\<close>

lemma read_next_tail:
  assumes "length hb = 28" and "n \<le> 512" and "length tail = n + 4"
    and h: "n = unat (hdr_payload_size h)"
  shows "do {
      (stored, _) \<leftarrow> get (hb @ tail @ replicate (516 - length tail) 0) (28 + n) 4;
      (sealed, _) \<leftarrow> get (hb @ tail @ replicate (516 - length tail) 0) 0 (28 + n);
      if le_word stored \<noteq> compute sealed then Some (stop_at Corrupt r os)
      else do {
        (payload, _) \<leftarrow> get (hb @ tail @ replicate (516 - length tail) 0) 28 n;
        tx \<leftarrow> decode_transaction_payload payload (hdr_transaction_id h) (hdr_timestamp_ns h);
        Some (case tx of
            Inl _ \<Rightarrow> stop_at Corrupt r os
          | Inr tx \<Rightarrow>
              let cursor = r_cursor r + of_nat (28 + n + 4) in
              (\<lparr>outcome = Read_Ok, transaction = tx\<rparr>,
               r\<lparr>r_cursor := cursor, r_last_valid_offset := cursor\<rparr>, os))
      }
    } = Some (read_as r os (finish_record h hb tail))"
proof -
  let ?buf = "hb @ tail @ replicate (516 - length tail) (0 :: byte)"
  have g1: "get ?buf (28 + n) 4 = Some (take 4 (drop n tail), 28 + n + 4)"
    and g2: "get ?buf 0 (28 + n) = Some (hb @ take n tail, 28 + n)"
    and g3: "get ?buf 28 n = Some (take n tail, 28 + n)"
    using assms(1,2,3) by (simp_all add: get_checked)
  obtain rr where d: "decode_transaction_payload (take n tail) (hdr_transaction_id h)
      (hdr_timestamp_ns h) = Some rr"
    using decode_transaction_payload_inv by blast
  show ?thesis
  proof (cases "(le_word (take 4 (drop n tail)) :: u32) = compute (hb @ take n tail)")
    case False
    then show ?thesis
      unfolding g1 g2 by (simp add: finish_record_def h [symmetric])
  next
    case True
    then show ?thesis
      unfolding g1 g2 g3 using d
      by (cases rr) (simp_all add: finish_record_def h [symmetric] Let_def)
  qed
qed

lemma read_next_bad_header:
  assumes "0 \<le> r_fd r" and "sys_pread (r_fd r) 28 (r_cursor r) os = (28, hb, os1)"
    and "bad_header (header_of_bytes hb)"
  shows "read_next r os = Some (stop_at Corrupt r os1)"
proof -
  have valid: "ufd_valid (r_fd r)" using assms(1) by (simp add: ufd_valid_def)
  have c: "((28 :: int) = 0) = False" "((28 :: int) < 0 \<or> nat 28 < 28) = False"
    "(hdr_magic (header_of_bytes hb) \<noteq> kMagic \<or> hdr_version (header_of_bytes hb) \<noteq> kVersion \<or>
      512 < unat (hdr_payload_size (header_of_bytes hb))) = True"
    using assms(3) by (simp_all add: bad_header_def)
  show ?thesis
    by (simp only: read_next_def valid not_True_eq_False if_False kHeaderSize_def
        kMaxPayloadSize_def assms(2) prod.case Let_def c if_True)
qed

text \<open>A good header, and a second read that moved \<open>m\<close> bytes or failed with a negative \<open>m\<close>.\<close>

lemma read_next_good_header:
  assumes "0 \<le> r_fd r" and p1: "sys_pread (r_fd r) 28 (r_cursor r) os = (28, hb, os1)" and "length hb = 28"
    and h: "h = header_of_bytes hb" and "\<not> bad_header h" and n: "n = unat (hdr_payload_size h)"
    and p2: "sys_pread (r_fd r) (n + 4) (r_cursor r + 28) os1 = (m, tail, os2)"
    and "length tail \<le> n + 4" and "0 \<le> m \<Longrightarrow> m = int (length tail)"
  shows "read_next r os = Some (
    if m < 0 \<or> nat m < n + 4 then stop_at Truncated r os2 else read_as r os2 (finish_record h hb tail))"
proof -
  have valid: "ufd_valid (r_fd r)" using assms(1) by (simp add: ufd_valid_def)
  have hd: "hdr_magic h = kMagic" "hdr_version h = kVersion" "n \<le> 512"
    using assms(5) by (simp_all add: bad_header_def n)
  then have tl: "length tail \<le> 516" using assms(8) by simp
  have c: "((28 :: int) = 0) = False" "((28 :: int) < 0 \<or> nat 28 < 28) = False"
    "(hdr_magic h \<noteq> kMagic \<or> hdr_version h \<noteq> kVersion \<or> 512 < n) = False"
    using hd by simp_all
  have ph: "put (replicate kMaxRecordSize 0) 0 (header_bytes h) = Some (hb @ replicate 516 0, 28)"
    using assms(3) by (simp add: put_header header_bytes_of h)
  have gc: "get (hb @ replicate 516 0) 28 (n + 4) = Some (take (n + 4) (replicate 516 0), 28 + (n + 4))"
    using assms(3) hd by (simp add: get_checked)
  have c28: "of_nat 28 = (28 :: u64)" by simp
  note steps = read_next_def valid not_True_eq_False if_False kHeaderSize_def kCrcSize_def
    kMaxPayloadSize_def p1 prod.case Let_def h [symmetric] n [symmetric] c ph
    Option.bind.simps gc c28 p2 put_tail [OF assms(3) tl]
  show ?thesis
  proof (cases "m < 0 \<or> nat m < n + 4")
    case True
    then have mc: "(m < 0 \<or> nat m < n + 4) = True" by simp
    show ?thesis by (simp only: steps mc if_True)
  next
    case False
    then have mc: "(m < 0 \<or> nat m < n + 4) = False" by simp
    have "length tail = n + 4" using False assms(8,9) by simp
    from read_next_tail [OF assms(3) hd(3) this n, of r os2] show ?thesis by (simp only: steps mc if_False)
  qed
qed

lemma unat_plus_header: "0 \<le> sint (c :: u64) \<Longrightarrow> unat (c + 28) = unat c + 28"
  using unat_less_half [of c] by (simp add: unat_word_ariths)

lemma read_next_eq:
  assumes "fd_file os (r_fd r) = Some f" and "0 \<le> r_fd r"
  defines "bs \<equiv> drop (unat (r_cursor r)) (contents f)"
    and "os1 \<equiv> snd (answer os)" and "os2 \<equiv> snd (answer (snd (answer os)))"
  shows "read_next r os = Some (
    if script os (tick os) < 0 \<or> sint (r_cursor r) < 0 then stop_at Truncated r os1
    else if bs = [] then stop_at EndOfLog r os1
    else if length bs < 28 \<or> served os 0 < 28 then stop_at Truncated r os1
    else
      let h = header_of_bytes (take 28 bs);
          n = unat (hdr_payload_size h) in
      if bad_header h then stop_at Corrupt r os1
      else if script os (tick os + 1) < 0 \<or> sint (r_cursor r + 28) < 0
              \<or> length bs < 28 + n + 4 \<or> served os 1 < n + 4
      then stop_at Truncated r os2
      else read_as r os2 (finish_record h (take 28 bs) (take (n + 4) (drop 28 bs))))"
proof -
  have valid: "ufd_valid (r_fd r)" using assms(2) by (simp add: ufd_valid_def)
  let ?bad1 = "script os (tick os) < 0 \<or> sint (r_cursor r) < 0"
  define hb where "hb = take (min 28 (served os 0)) bs"
  have pread1: "sys_pread (r_fd r) 28 (r_cursor r) os = (if ?bad1 then (-1, [], os1) else (int (length hb), hb, os1))"
    using sys_pread_eq [OF assms(1)] by (simp add: served_def bs_def os1_def hb_def)
  consider (fail) "?bad1" | (eof) "\<not> ?bad1" "bs = []"
    | (short) "\<not> ?bad1" "bs \<noteq> []" "length bs < 28 \<or> served os 0 < 28"
    | (full) "\<not> ?bad1" "28 \<le> length bs" "28 \<le> served os 0" by fastforce
  then show ?thesis
  proof cases
    case fail
    then show ?thesis using valid pread1 by (simp add: read_next_def kHeaderSize_def)
  next
    case eof
    then show ?thesis using valid pread1 by (simp add: read_next_def kHeaderSize_def hb_def)
  next
    case short
    have "1 \<le> served os 0" by (simp add: served_def)
    with short have "length hb < 28" "hb \<noteq> []" by (auto simp: hb_def min_def)
    with short valid pread1 show ?thesis by (simp add: read_next_def kHeaderSize_def)
  next
    case full
    then have hb: "hb = take 28 bs" "length hb = 28" by (simp_all add: hb_def min_def)
    have p1: "sys_pread (r_fd r) 28 (r_cursor r) os = (28, hb, os1)" using full(1) pread1 hb(2) by simp
    define h where "h = header_of_bytes hb"
    define n where "n = unat (hdr_payload_size h)"
    let ?bad2 = "script os (tick os + 1) < 0 \<or> sint (r_cursor r + 28) < 0"
    define tail where "tail = (if ?bad2 then [] else take (min (n + 4) (served os 1)) (drop 28 bs))"
    define m where "m = (if ?bad2 then -1 else int (length tail))"
    have p2: "sys_pread (r_fd r) (n + 4) (r_cursor r + 28) os1 = (m, tail, os2)"
      using sys_pread_eq [of os1 "r_fd r" f] assms(1) unat_plus_header [of "r_cursor r"] full(1)
      by (simp add: os1_def os2_def tail_def m_def served_def bs_def add.commute not_less)
    have "length tail \<le> n + 4" by (auto simp: tail_def min_def)
    from read_next_good_header [OF assms(2) p1 hb(2) h_def _ n_def p2 this] read_next_bad_header [OF assms(2) p1]
    have r: "read_next r os = Some (if bad_header h then stop_at Corrupt r os1
        else if m < 0 \<or> nat m < n + 4 then stop_at Truncated r os2 else read_as r os2 (finish_record h hb tail))"
      by (auto simp: h_def m_def)
    have m: "m < 0 \<or> nat m < n + 4 \<longleftrightarrow> ?bad2 \<or> length bs < 28 + n + 4 \<or> served os 1 < n + 4"
      by (auto simp: m_def tail_def)
    have "tail = take (n + 4) (drop 28 bs)" if "\<not> (m < 0 \<or> nat m < n + 4)"
      using that unfolding m by (simp add: tail_def min_def)
    then show ?thesis
      unfolding r m using full by (auto simp: hb(1) [symmetric] h_def [symmetric] n_def [symmetric] Let_def m)
  qed
qed

text \<open>Reading changes nothing but the count of answers consumed.\<close>

definition same_disk :: "os \<Rightarrow> os \<Rightarrow> bool" where
  "same_disk os os' \<longleftrightarrow> (\<exists>k. os' = os\<lparr>tick := tick os + k\<rparr>)"

lemma same_disk_refl [simp]: "same_disk os os"
  unfolding same_disk_def by (intro exI [of _ 0]) simp

lemma same_disk_trans: "same_disk a b \<Longrightarrow> same_disk b c \<Longrightarrow> same_disk a c"
  unfolding same_disk_def by (auto simp: add.assoc)

lemma same_disk_answer [simp]: "same_disk os (snd (answer os))"
  unfolding same_disk_def by (intro exI [of _ 1]) (simp add: answer_def)

lemma same_disk_answer2 [simp]: "same_disk os (snd (answer (snd (answer os))))"
  by (rule same_disk_trans [OF same_disk_answer same_disk_answer])

lemma same_diskD:
  assumes "same_disk os os'"
  shows "inodes os' = inodes os" and "names os' = names os" and "fds os' = fds os"
    and "next_fd os' = next_fd os" and "next_inode os' = next_inode os"
    and "fd_file os' = fd_file os" and "path_file os' = path_file os"
    and "reliable n os \<Longrightarrow> reliable n os'"
  using assms
  by (auto simp: same_disk_def fd_file_def path_file_def reliable_def fun_eq_iff
      cong: option.case_cong)

text \<open>Whatever the kernel answers, the reader says what the parser says about the bytes at the
  cursor, or that the record is truncated.\<close>

lemma read_next_cases:
  assumes "fd_file os (r_fd r) = Some f" and "0 \<le> r_fd r"
  obtains (parsed) os' where "same_disk os os'"
      "read_next r os = Some (read_as r os' (parse_record (drop (unat (r_cursor r)) (contents f))))"
  | (cut) os' where "same_disk os os'" "read_next r os = Some (stop_at Truncated r os')"
      "\<not> (reliable 516 os \<and> unat (r_cursor r) + 28 < 2 ^ 63)"
proof -
  define bs where "bs = drop (unat (r_cursor r)) (contents f)"
  define h where "h = header_of_bytes (take 28 bs)"
  define n where "n = unat (hdr_payload_size h)"
  note eq = read_next_eq [OF assms, folded bs_def, folded h_def]
  have rel: "516 \<le> script os (tick os)" "516 \<le> script os (tick os + 1)" "516 \<le> served os 0"
    "516 \<le> served os 1" if "reliable 516 os"
  proof -
    from that show "516 \<le> script os (tick os)" "516 \<le> script os (tick os + 1)"
      by (simp_all add: reliable_def)
    then show "516 \<le> served os 0" "516 \<le> served os 1" by (auto simp: served_def)
  qed
  have off: "0 \<le> sint (r_cursor r)" "0 \<le> sint (r_cursor r + 28)"
    if "unat (r_cursor r) + 28 < 2 ^ 63"
    using that by (simp_all add: unat_less_half unat_word_ariths)
  consider (io1) "script os (tick os) < 0 \<or> sint (r_cursor r) < 0 \<or> bs \<noteq> [] \<and> served os 0 < 28"
    | (stop1) "\<not> script os (tick os) < 0" "\<not> sint (r_cursor r) < 0" "bs = [] \<or> 28 \<le> served os 0"
        "length bs < 28 \<or> bad_header h"
    | (io2) "\<not> script os (tick os) < 0" "\<not> sint (r_cursor r) < 0" "28 \<le> served os 0"
        "28 \<le> length bs" "\<not> bad_header h"
        "script os (tick os + 1) < 0 \<or> sint (r_cursor r + 28) < 0 \<or> served os 1 < n + 4"
    | (tail) "\<not> script os (tick os) < 0" "\<not> sint (r_cursor r) < 0" "28 \<le> served os 0"
        "28 \<le> length bs" "\<not> bad_header h"
        "\<not> script os (tick os + 1) < 0" "\<not> sint (r_cursor r + 28) < 0" "n + 4 \<le> served os 1"
    by fastforce
  then show thesis
  proof cases
    case io1
    then have "\<not> (reliable 516 os \<and> unat (r_cursor r) + 28 < 2 ^ 63)" using rel off by force
    moreover from io1 have "read_next r os = Some (stop_at Truncated r (snd (answer os))) \<or>
        read_next r os = Some (read_as r (snd (answer os)) (parse_record bs))"
      unfolding eq by (auto simp: parse_record_def)
    ultimately show thesis 
      using parsed [of "snd (answer os)"] cut [of "snd (answer os)"] by (auto simp: bs_def)
  next
    case stop1
    then have "read_next r os = Some (read_as r (snd (answer os)) (parse_record bs))"
      unfolding eq by (auto simp: parse_record_def Let_def h_def [symmetric])
    then show thesis by (intro parsed) (simp_all add: bs_def)
  next
    case io2
    have "n \<le> 512" using io2 by (simp add: bad_header_def n_def)
    then have "\<not> (reliable 516 os \<and> unat (r_cursor r) + 28 < 2 ^ 63)" using io2 rel off by force
    moreover have "bs \<noteq> []" using io2 by auto
    with io2 have "read_next r os = Some (stop_at Truncated r (snd (answer (snd (answer os)))))"
      unfolding eq by (auto simp: Let_def n_def [symmetric])
    ultimately show thesis by (intro cut) simp_all
  next
    case tail
    have "bs \<noteq> []" using tail by auto
    with tail have "read_next r os =
        Some (read_as r (snd (answer (snd (answer os)))) (parse_record bs))"
      unfolding eq
      by (auto simp: parse_record_def Let_def h_def [symmetric] n_def [symmetric])
    then show thesis by (intro parsed) (simp_all add: bs_def)
  qed
qed

section \<open>The parser inverts the writer\<close>

lemma take_record_header:
  "take 28 (record_bytes tx now @ rest) = header_bytes (record_header tx now)"
  by (simp add: record_bytes_def record_body_def)

lemma record_header_fields:
  assumes "length (tx_legs tx) \<le> 16"
  shows "unat (hdr_payload_size (record_header tx now)) = length (payload_bytes tx)"
    and "\<not> bad_header (record_header tx now)"
proof -
  have "length (payload_bytes tx) \<le> 289" using assms by (simp add: length_payload_bytes)
  then show "unat (hdr_payload_size (record_header tx now)) = length (payload_bytes tx)"
    and "\<not> bad_header (record_header tx now)"
    by (simp_all add: record_header_def bad_header_def unat_of_nat)
qed

lemma parse_record_header:
  assumes "length (tx_legs tx) \<le> 16" and "28 \<le> length bs"
    and "take 28 bs = header_bytes (record_header tx now)"
  shows "parse_record bs =
    (if length bs < length (record_bytes tx now) then Inl Truncated
     else finish_record (record_header tx now) (take 28 bs)
            (take (length (payload_bytes tx) + 4) (drop 28 bs)))"
proof -
  have "bs \<noteq> []" using assms(2) by auto
  with assms record_header_fields [OF assms(1), of now] show ?thesis
    by (simp add: parse_record_def Let_def length_record_bytes length_payload_bytes)
qed

lemma parse_record_bytes:
  assumes "length (tx_legs tx) \<le> 16"
  shows "parse_record (record_bytes tx now @ rest) =
    Inr (restored tx (tx_id tx) now, length (record_bytes tx now))"
proof -
  have "parse_record (record_bytes tx now @ rest) =
      finish_record (record_header tx now) (header_bytes (record_header tx now))
        (payload_bytes tx @ le_bytes 4 (compute (record_body tx now)))"
    using parse_record_header [OF assms, of "record_bytes tx now @ rest" now]
    unfolding take_record_header
    by (simp add: length_record_bytes) (simp add: record_bytes_def record_body_def
      length_payload_bytes [symmetric])
  moreover have "hdr_transaction_id (record_header tx now) = tx_id tx"
    and "hdr_timestamp_ns (record_header tx now) = now" by (simp_all add: record_header_def)
  ultimately show ?thesis
    using decode_payload_bytes [OF assms] record_header_fields(1) [OF assms]
    by (simp add: finish_record_def record_body_def length_record_bytes length_payload_bytes)
qed

lemma parse_torn_record:
  assumes "length (tx_legs tx) \<le> 16" and "k < length (record_bytes tx now)"
  shows "parse_record (take k (record_bytes tx now)) = Inl (if k = 0 then EndOfLog else Truncated)"
proof (cases "28 \<le> k")
  case True
  have "take 28 (take k (record_bytes tx now)) = header_bytes (record_header tx now)"
    using True take_record_header [of tx now "[]"] by (simp add: min_def)
  from parse_record_header [OF assms(1) _ this] show ?thesis using True assms(2) by simp
next
  case False
  with assms(2) show ?thesis by (auto simp: parse_record_def)
qed

text \<open>A record with one corrupted byte outside the length field is rejected, whatever follows
  it in the file.\<close>

lemma header_size_unchanged:
  assumes "i < 8 \<or> 12 \<le> i"
  shows "hdr_payload_size (header_of_bytes (take 28 (bs[i := b]))) =
         hdr_payload_size (header_of_bytes (take 28 bs))"
proof -
  have "take 4 (drop 8 (take 28 (bs[i := b]))) = take 4 (drop 8 (take 28 bs))"
    using assms by (intro nth_equalityI) (auto simp: nth_list_update)
  then show ?thesis by (simp add: header_of_bytes_def)
qed

lemma parse_corrupted_record:
  assumes len: "length (tx_legs tx) \<le> 16" and i: "i < length (record_bytes tx now)"
    and outside: "i < 8 \<or> 12 \<le> i" and b: "b \<noteq> record_bytes tx now ! i"
  shows "parse_record ((record_bytes tx now)[i := b] @ rest) = Inl Corrupt"
proof -
  let ?rec = "record_bytes tx now"
  let ?bad = "?rec[i := b]"
  define n where "n = length (payload_bytes tx)"
  define h where "h = header_of_bytes (take 28 ?bad)"
  have lr: "length ?rec = 28 + n + 4" by (simp add: n_def length_record_bytes length_payload_bytes)
  have size: "unat (hdr_payload_size h) = n"
    using record_header_fields(1) [OF len] take_record_header [of tx now "[]"]
    by (simp add: h_def header_size_unchanged [OF outside] n_def)
  have body: "length (record_body tx now) = 28 + n"
    by (simp add: length_record_body n_def length_payload_bytes)
  have "(le_word (drop (28 + n) ?bad) :: u32) \<noteq> compute (take (28 + n) ?bad)"
  proof (rule crc.corrupted_byte_rejected)
    show "(le_word (le_bytes 4 (compute (record_body tx now))) :: u32) = compute (record_body tx now)"
      by (rule crc.sealed_verifies)
    show "i < length (record_body tx now) + 4" using i lr body by simp
    show "b \<noteq> (record_body tx now @ le_bytes 4 (compute (record_body tx now))) ! i"
      using b by (simp add: record_bytes_def)
    show "take (28 + n) ?bad @ drop (28 + n) ?bad =
        (record_body tx now @ le_bytes 4 (compute (record_body tx now)))[i := b]"
      by (simp add: record_bytes_def)
  qed (use lr body in simp_all)
  moreover have "take 4 (drop n (take (n + 4) (drop 28 ?bad))) = drop (28 + n) ?bad"
    using lr by (simp add: drop_take add.commute [of n])
  moreover have "take 28 ?bad @ take n (drop 28 ?bad) = take (28 + n) ?bad"
    by (simp add: take_add)
  ultimately have "finish_record h (take 28 ?bad) (take (n + 4) (drop 28 ?bad)) = Inl Corrupt"
    unfolding finish_record_def size Let_def by (simp only: take_take min.absorb1 le_add1) simp
  moreover have "?rec \<noteq> []" using lr by auto
  ultimately show ?thesis
    using lr size by (simp add: parse_record_def h_def [symmetric])
qed

section \<open>Parsing a whole log\<close>

function parse_log :: "byte list \<Rightarrow> Transaction list \<times> nat \<times> ReadOutcome" where
  "parse_log bs =
     (case parse_record bs of
        Inl oc \<Rightarrow> ([], 0, oc)
      | Inr (tx, n) \<Rightarrow>
          let (txs, m, oc) = parse_log (drop n bs) in (tx # txs, n + m, oc))"
  by pat_completeness auto
termination
proof (relation "measure length")
  fix bs r tx n
  assume "parse_record bs = Inr r" and "(tx, n) = r"
  then have "32 \<le> n" and "n \<le> length bs" using parse_record_bounds [of bs tx n] by auto
  then show "(drop n bs, bs) \<in> measure length" by simp
qed simp

declare parse_log.simps [simp del]

text \<open>The parser looks at no byte behind the record it returns.\<close>

lemma parse_record_local:
  assumes "parse_record bs = Inr (tx, n)"
  shows "parse_record (take n bs @ rest) = Inr (tx, n)"
proof -
  define h where "h = header_of_bytes (take 28 bs)"
  define m where "m = unat (hdr_payload_size h)"
  from assms have bs: "28 + m + 4 \<le> length bs" "\<not> bad_header h"
    "finish_record h (take 28 bs) (take (m + 4) (drop 28 bs)) = Inr (tx, n)"
    by (auto simp: parse_record_def Let_def h_def [symmetric] m_def [symmetric] split: if_splits)
  have n: "n = 28 + m + 4" using finish_record_ok(1) [OF bs(3)] by (simp add: m_def)
  let ?bs = "take n bs @ rest"
  have hd: "take 28 ?bs = take 28 bs" and tl: "take (m + 4) (drop 28 ?bs) = take (m + 4) (drop 28 bs)"
    using bs(1) by (simp_all add: n drop_take)
  have "?bs \<noteq> []" and "28 + m + 4 \<le> length ?bs" using bs(1) n by auto
  then show ?thesis
    unfolding parse_record_def hd h_def [symmetric] Let_def m_def [symmetric] tl
    using bs by simp
qed

lemma parse_log_stop: "parse_record bs = Inl oc \<Longrightarrow> parse_log bs = ([], 0, oc)"
  by (simp add: parse_log.simps)

lemma parse_log_step:
  "parse_record bs = Inr (tx, n) \<Longrightarrow> parse_log (drop n bs) = (txs, m, oc) \<Longrightarrow>
    parse_log bs = (tx # txs, n + m, oc)"
  by (simp add: parse_log.simps [of bs])

lemma parse_log_cases:
  obtains (stop) oc where "parse_record bs = Inl oc" "parse_log bs = ([], 0, oc)"
  | (step) tx n txs m oc where "parse_record bs = Inr (tx, n)" "parse_log (drop n bs) = (txs, m, oc)"
      "parse_log bs = (tx # txs, n + m, oc)"
proof (cases "parse_record bs")
  case (Inl oc)
  then show thesis by (intro stop parse_log_stop)
next
  case (Inr p)
  obtain tx n where p: "p = (tx, n)" by (cases p)
  obtain txs m oc where "parse_log (drop n bs) = (txs, m, oc)" by (cases "parse_log (drop n bs)")
  with Inr p show thesis by (intro step parse_log_step) simp_all
qed

text \<open>The valid length lies within the file, and the valid part on its own is a complete log
  with the same transactions.\<close>

lemma parse_record_end: "parse_record bs = Inl EndOfLog \<longleftrightarrow> bs = []"
  using finish_record_not_ok
  by (fastforce simp: parse_record_def Let_def split: if_splits)

lemma parse_log_valid:
  assumes "parse_log bs = (txs, m, oc)"
  shows "m \<le> length bs \<and> oc \<noteq> Read_Ok \<and> (oc = EndOfLog \<longleftrightarrow> m = length bs) \<and>
    parse_log (take m bs) = (txs, m, EndOfLog)"
  using assms
proof (induction "length bs" arbitrary: bs txs m rule: less_induct)
  case less
  show ?case
  proof (cases bs rule: parse_log_cases)
    case (stop oc')
    with less.prems have "oc' = oc" "m = 0" "txs = []" by simp_all
    with stop(1) show ?thesis
      using parse_record_not_ok [of bs] parse_record_end [of bs] parse_log_stop [of "[]" EndOfLog]
        parse_record_end [of "[]"]
      by auto
  next
    case (step tx n txs' m' oc')
    with less.prems have eqs: "oc' = oc" "m = n + m'" "txs = tx # txs'" by simp_all
    have n: "32 \<le> n" "n \<le> length bs" using parse_record_bounds [OF step(1)] by simp_all
    have IH: "m' \<le> length (drop n bs)" "oc' \<noteq> Read_Ok" "oc' = EndOfLog \<longleftrightarrow> m' = length (drop n bs)"
      "parse_log (take m' (drop n bs)) = (txs', m', EndOfLog)"
      using less.hyps [of "drop n bs" txs' m'] step(2) eqs(1) n by auto
    have "take m bs = take n bs @ take m' (drop n bs)" using eqs by (simp add: take_add)
    moreover from this have "drop n (take m bs) = take m' (drop n bs)" using n by simp
    ultimately have "parse_log (take m bs) = (tx # txs', n + m', EndOfLog)"
      using parse_log_step [of "take m bs" tx n txs' m' EndOfLog] IH(4)
        parse_record_local [OF step(1)] by simp
    with IH eqs n show ?thesis by auto
  qed
qed

definition log_bytes :: "(Transaction \<times> i64) list \<Rightarrow> byte list" where
  "log_bytes rs = concat (map (\<lambda>(tx, now). record_bytes tx now) rs)"

definition restored_log :: "(Transaction \<times> i64) list \<Rightarrow> Transaction list" where
  "restored_log rs = map (\<lambda>(tx, now). restored tx (tx_id tx) now) rs"

lemma parse_log_records:
  assumes "\<forall>(tx, now) \<in> set rs. length (tx_legs tx) \<le> 16" and "parse_log rest = (txs, m, oc)"
  shows "parse_log (log_bytes rs @ rest) = (restored_log rs @ txs, length (log_bytes rs) + m, oc)"
  using assms
proof (induction rs)
  case Nil
  then show ?case by (simp add: log_bytes_def restored_log_def)
next
  case (Cons p rs)
  obtain tx now where p: "p = (tx, now)" by (cases p)
  have "parse_record (record_bytes tx now @ log_bytes rs @ rest) =
      Inr (restored tx (tx_id tx) now, length (record_bytes tx now))"
    using Cons.prems p by (intro parse_record_bytes) simp
  from parse_log_step [OF this, of "restored_log rs @ txs" "length (log_bytes rs) + m" oc]
  show ?case using Cons p by (simp add: log_bytes_def restored_log_def)
qed

section \<open>Truncating the log\<close>

text \<open>Cutting and syncing the opened file, for each answer of the two calls.\<close>

lemma truncate_opened:
  assumes "sys_open path False False False os = (fd, os1)" and "0 \<le> fd" and "open_on os1 fd h f"
    and "unat n \<le> length (contents f)"
  defines "f1 \<equiv> f\<lparr>contents := take (unat n) (contents f)\<rparr>"
  defines "os2 \<equiv> snd (answer os1)"
  defines "os3 \<equiv> put_file (of_inode h) f1 os2"
  shows "truncate_wal path n os =
    (if script os1 (tick os1) < 0 \<or> sint n < 0 then (WalWriteFailed, ufd_destroy fd os2)
     else if script os1 (tick os1 + 1) < 0 then (WalSyncFailed, ufd_destroy fd (snd (answer os3)))
     else (ErrNone, ufd_destroy fd (put_file (of_inode h) (f1\<lparr>stable := contents f1\<rparr>) (snd (answer os3)))))"
proof -
  have "sys_ftruncate fd n os1 = (if script os1 (tick os1) < 0 \<or> sint n < 0 then (-1, os2) else (0, os3))"
    using assms(3,4) by (simp add: sys_ftruncate_def case_prod_unfold Let_def open_on_def os2_def os3_def f1_def)
  moreover have "open_on os3 fd h f1" using assms(3) by (simp add: open_on_def os3_def os2_def)
  then have "sys_fsync fd os3 = (if script os3 (tick os3) < 0 then (-1, snd (answer os3))
      else (0, put_file (of_inode h) (f1\<lparr>stable := contents f1\<rparr>) (snd (answer os3))))"
    by (rule sys_fsync_cases)
  moreover have "script os3 (tick os3) = script os1 (tick os1 + 1)" by (simp add: os3_def os2_def)
  ultimately show ?thesis using assms(1,2) by (simp add: truncate_wal_def)
qed

text \<open>Whatever happens, the file is left as it was or cut to the given length; success means it
  was cut and the cut is on stable storage. No descriptor is leaked.\<close>

lemma truncate_wal_cases:
  assumes "path_file os path = Some f" and "unat n \<le> length (contents f)"
  obtains r os' f' where "truncate_wal path n os = (r, os')" "path_file os' path = Some f'"
    "names os' = names os" "fds os' = fds os"
    "f' = f \<or> contents f' = take (unat n) (contents f)"
    "r = ErrNone \<Longrightarrow> contents f' = take (unat n) (contents f) \<and> stable f' = contents f'"
    "later os os'" "r \<noteq> ErrNone \<Longrightarrow> \<not> (reliable k os \<and> fresh_fds os \<and> 0 \<le> sint n)"
proof -
  from assms obtain i where i: "names os path = Some i" "inodes os i = Some f"
    by (auto simp: path_file_def split: option.splits)
  obtain fd os1 where o: "sys_open path False False False os = (fd, os1)"
    by (cases "sys_open path False False False os")
  note o1 = sys_open_existing [OF i(1) o]
  have lt1: "later os os1" using o1(4-7) by (cases "fd < 0") (auto simp: later_def)
  show thesis
  proof (cases "fd < 0")
    case True
    have "\<not> (reliable k os \<and> fresh_fds os)"
      using o i True reliable_script [of k os]
      by (auto simp: sys_open_def case_prod_unfold Let_def fresh_fds_def split: if_splits)
    with True o o1 i lt1 show thesis
      by (intro that [of WalOpenFailed os1 f]) (simp_all add: truncate_wal_def path_file_def, blast)
  next
    case False
    then have fds: "fds os1 = (fds os)(fd \<mapsto> \<lparr>of_inode = i, of_offset = 0, of_append = False\<rparr>)" and "fds os fd = None"
      using o1 by auto
    then have restore: "(fds os1)(fd := None) = fds os" by auto
    have on: "open_on os1 fd \<lparr>of_inode = i, of_offset = 0, of_append = False\<rparr> f" using fds o1(1) i by (simp add: open_on_def)
    have rel: "0 \<le> script os1 (tick os1)" "0 \<le> script os1 (tick os1 + 1)" if "reliable k os"
      using later_reliable [OF lt1 that] unfolding reliable_def by (auto intro: order_trans [of 0 "int k"])
    have "0 \<le> fd" using False by simp
    note tr = truncate_opened [OF o this on assms(2)]
    note close = ufd_destroy_def ufd_reset_def path_file_def later_def
    let ?f1 = "f\<lparr>contents := take (unat n) (contents f)\<rparr>"
    consider (t) "script os1 (tick os1) < 0 \<or> sint n < 0"
      | (s) "\<not> (script os1 (tick os1) < 0 \<or> sint n < 0)" "script os1 (tick os1 + 1) < 0"
      | (ok) "\<not> (script os1 (tick os1) < 0 \<or> sint n < 0)" "\<not> script os1 (tick os1 + 1) < 0" by blast
    then show thesis
    proof cases
      case t
      then show thesis
        using tr restore o1(1,2) i False lt1 rel(1)
        by (intro that [of WalWriteFailed "ufd_destroy fd (snd (answer os1))" f]) (simp_all add: close, fastforce)
    next
      case s
      then show thesis
        using tr restore o1(1,2) i False lt1 rel(2)
        by (intro that [of WalSyncFailed "ufd_destroy fd (snd (answer (put_file i ?f1 (snd (answer os1)))))" ?f1])
          (simp_all add: close, fastforce)
    next
      case ok
      then show thesis
        using tr restore o1(1,2) i False lt1
        by (intro that [of ErrNone "ufd_destroy fd (put_file i (?f1\<lparr>stable := contents ?f1\<rparr>)
              (snd (answer (put_file i ?f1 (snd (answer os1))))))" "?f1\<lparr>stable := contents ?f1\<rparr>"])
          (simp_all add: close)
    qed
  qed
qed

section \<open>Properties\<close>

text \<open>C21. The reader is safe and sound for every file and every answer of the operating system:
  it returns without leaving its record buffer and without changing the file system; it moves
  its cursor only when it reports a record, and then the file holds at the cursor a header with
  the right magic, version and length, a payload that decodes to the reported transaction, and
  the checksum of both.\<close>

theorem reader_sound:
  "\<exists>rr r' os'. read_next r os = Some (rr, r', os') \<and> same_disk os os' \<and>
    (if outcome rr = Read_Ok then
       \<exists>f h. fd_file os (r_fd r) = Some f \<and>
         (let at = drop (unat (r_cursor r)) (contents f); n = unat (hdr_payload_size h) in
          take 28 at = header_bytes h \<and> hdr_magic h = kMagic \<and> hdr_version h = kVersion \<and>
          n \<le> 512 \<and> 28 + n + 4 \<le> length at \<and>
          decode_transaction_payload (take n (drop 28 at)) (hdr_transaction_id h)
            (hdr_timestamp_ns h) = Some (Inr (transaction rr)) \<and>
          le_word (take 4 (drop (28 + n) at)) = compute (take (28 + n) at) \<and>
          r' = seek (r_cursor r + of_nat (28 + n + 4)) r)
     else r' = r)"
proof (cases "0 \<le> r_fd r")
  case False
  then show ?thesis by (simp add: read_next_def ufd_valid_def stop_at_def)
next
  case fd: True
  show ?thesis
  proof (cases "fd_file os (r_fd r)")
    case None
    with fd show ?thesis
      by (simp add: read_next_def ufd_valid_def stop_at_def sys_pread_def case_prod_unfold Let_def)
  next
    case (Some f)
    let ?at = "drop (unat (r_cursor r)) (contents f)"
    from Some fd show ?thesis
    proof (cases rule: read_next_cases)
      case (cut os')
      then show ?thesis by (auto simp: stop_at_def)
    next
      case (parsed os')
      show ?thesis
      proof (cases "parse_record ?at")
        case (Inl oc)
        with parsed parse_record_not_ok [of ?at] show ?thesis by (auto simp: stop_at_def)
      next
        case (Inr p)
        obtain tx k where p: "p = (tx, k)" by (cases p)
        from parse_record_ok [OF Inr [unfolded p]] obtain h where h:
          "take 28 ?at = header_bytes h" "\<not> bad_header h" "k = 28 + unat (hdr_payload_size h) + 4"
          "k \<le> length ?at"
          "decode_transaction_payload (take (unat (hdr_payload_size h)) (drop 28 ?at))
             (hdr_transaction_id h) (hdr_timestamp_ns h) = Some (Inr tx)"
          "(le_word (take 4 (drop (28 + unat (hdr_payload_size h)) ?at)) :: u32) =
             compute (take (28 + unat (hdr_payload_size h)) ?at)"
          by blast
        have "read_next r os = Some (\<lparr>outcome = Read_Ok, transaction = tx\<rparr>,
            seek (r_cursor r + of_nat k) r, os')"
          using parsed(2) Inr p by (simp add: seek_def)
        then show ?thesis
          using parsed(1) Some h by (fastforce simp: bad_header_def Let_def)
      qed
    qed
  qed
qed

text \<open>C22. What the writer appended, the reader gives back: with the cursor at the start of a
  record written by \<open>wal_append\<close>, and a kernel that serves the reads, \<open>read_next\<close> reports the
  record's transaction id, idempotency key and legs, and moves the cursor behind the record.\<close>

theorem reader_reads_appended:
  assumes "wf_tx tx" and "0 \<le> r_fd r" and "fd_file os (r_fd r) = Some f"
    and "contents f = pre @ record_bytes tx now @ rest" and "unat (r_cursor r) = length pre"
    and "length pre + 28 < 2 ^ 63" and "reliable 516 os"
  shows "\<exists>tx' os'. read_next r os = Some (\<lparr>outcome = Read_Ok, transaction = tx'\<rparr>,
        seek (r_cursor r + of_nat (length (record_bytes tx now))) r, os') \<and>
      tx_id tx' = tx_id tx \<and> idempotency_key tx' = idempotency_key tx \<and> tx_legs tx' = tx_legs tx"
  using assms(3,2)
proof (cases rule: read_next_cases)
  case (cut os')
  with assms(5-7) show ?thesis by simp
next
  case (parsed os')
  have len: "length (tx_legs tx) \<le> 16" using assms(1) by (rule length_tx_legs)
  from parsed show ?thesis
    using parse_record_bytes [OF len, of now rest] assms(4,5) len by (simp add: seek_def)
qed

text \<open>A torn record is never taken for a record: if the log ends in a non-empty proper prefix
  of what \<open>wal_append\<close> was writing, the reader reports it as truncated, whatever the operating
  system answers, and keeps its cursor at the boundary before it.\<close>

theorem torn_record_detected:
  assumes "wf_tx tx" and "0 \<le> r_fd r" and "fd_file os (r_fd r) = Some f"
    and "contents f = pre @ take k (record_bytes tx now)" and "unat (r_cursor r) = length pre"
    and "0 < k" and "k < length (record_bytes tx now)"
  shows "\<exists>rr os'. read_next r os = Some (rr, r, os') \<and> outcome rr = Truncated"
  using assms(3,2)
proof (cases rule: read_next_cases)
  case (cut os')
  then show ?thesis by (simp add: stop_at_def)
next
  case (parsed os')
  have len: "length (tx_legs tx) \<le> 16" using assms(1) by (rule length_tx_legs)
  from parsed show ?thesis
    using parse_torn_record [OF len assms(7)] assms(4-6) by (simp add: stop_at_def)
qed

text \<open>C23. A record with one corrupted byte anywhere but in its length field, whatever follows it in
  the file, is never accepted, and it is reported as corrupt unless a read fails or is cut
  short.\<close>

theorem corrupted_record_rejected:
  assumes "wf_tx tx" and "0 \<le> r_fd r" and "fd_file os (r_fd r) = Some f"
    and "contents f = pre @ (record_bytes tx now)[i := b] @ rest"
    and "unat (r_cursor r) = length pre"
    and "i < length (record_bytes tx now)" and "i < 8 \<or> 12 \<le> i" and "b \<noteq> record_bytes tx now ! i"
  shows "\<exists>rr os'. read_next r os = Some (rr, r, os') \<and> outcome rr \<in> {Corrupt, Truncated} \<and>
    (reliable 516 os \<longrightarrow> length pre + 28 < 2 ^ 63 \<longrightarrow> outcome rr = Corrupt)"
  using assms(3,2)
proof (cases rule: read_next_cases)
  case (cut os')
  with assms(5) show ?thesis by (simp add: stop_at_def)
next
  case (parsed os')
  have len: "length (tx_legs tx) \<le> 16" using assms(1) by (rule length_tx_legs)
  from parsed show ?thesis
    using parse_corrupted_record [OF len assms(6-8)] assms(4,5) by (simp add: stop_at_def)
qed

definition example_tx :: Transaction where
  "example_tx = make_tx 1 (IdempotencyKey 1 1)
     [\<lparr>account_id = 1, direction = Debit, amount = 5\<rparr>, \<lparr>account_id = 2, direction = Credit, amount = 5\<rparr>]"

definition example_log_os :: "byte list \<Rightarrow> int \<Rightarrow> os" where
  "example_log_os bs r =
     \<lparr>inodes = [0 \<mapsto> \<lparr>contents = bs, stable = []\<rparr>], next_inode = 1, names = [''wal.bin'' \<mapsto> 0],
      fds = [3 \<mapsto> \<lparr>of_inode = 0, of_offset = 0, of_append = False\<rparr>],
      next_fd = 4, script = (\<lambda>_. r), tick = 0\<rparr>"

definition example_reader :: BinaryWalReader where
  "example_reader = \<lparr>r_fd = 3, r_cursor = 0, r_last_valid_offset = 0\<rparr>"

lemma example_log_file:
  "0 \<le> r_fd example_reader"
  "fd_file (example_log_os bs r) (r_fd example_reader) = Some \<lparr>contents = bs, stable = []\<rparr>"
  "unat (r_cursor example_reader) = length []"
  "reliable n (example_log_os bs (int n))"
  by (simp_all add: example_log_os_def example_reader_def fd_file_def reliable_def)

lemma example_tx_facts [simp]:
  "wf_tx example_tx" "length (record_bytes example_tx now) = 83" "tx_id example_tx = 1"
  by (simp_all add: example_tx_def length_record_bytes)

theorem reader_reads_appended_witness:
  "\<exists>tx' os'. read_next example_reader (example_log_os (record_bytes example_tx 7) 516) =
     Some (\<lparr>outcome = Read_Ok, transaction = tx'\<rparr>, seek (0 + 83) example_reader, os') \<and> tx_id tx' = 1"
  using reader_reads_appended [of example_tx example_reader
      "example_log_os (record_bytes example_tx 7) 516" _ "[]" 7 "[]",
      OF _ example_log_file(1,2) _ example_log_file(3)] example_log_file(4) [of 516]
  by (auto simp: example_reader_def)

theorem torn_record_detected_witness:
  "\<exists>rr os'. read_next example_reader (example_log_os (take 40 (record_bytes example_tx 7)) 9) =
     Some (rr, example_reader, os') \<and> outcome rr = Truncated"
  using torn_record_detected [OF _ example_log_file(1,2) _ example_log_file(3), of example_tx _ 40 7 9]
  by simp

theorem corrupted_record_rejected_witness:
  "\<exists>rr os'. read_next example_reader
       (example_log_os ((record_bytes example_tx 7)[50 := record_bytes example_tx 7 ! 50 + 1]) 9) =
     Some (rr, example_reader, os') \<and> outcome rr \<in> {Corrupt, Truncated}"
  using corrupted_record_rejected [OF _ example_log_file(1,2) _ example_log_file(3),
      of example_tx _ 7 50 "record_bytes example_tx 7 ! 50 + 1" "[]" 9]
  by auto

end
