(* ===== verification/Snapshot.thy ===== *)
theory Snapshot
  imports Ledger_State Wal_Reader
begin

text \<open>
  \<open>src/src/snapshot.cpp\<close>: the snapshot file. \<open>write_snapshot\<close> serialises the account table into a
  temporary file, seals it with a checksum, syncs it and renames it over the target;
  \<open>load_snapshot\<close> reads it back. The theorems show that the target is replaced atomically
  whatever the operating system answers, that a sealed file loads back to the state that was
  written, and that damaged files are refused.

  The header structure is not packed: on the supported 64-bit targets four padding bytes follow
  the account count. Their value is unspecified, so it is a parameter of the writer; the loader
  carries the bytes it read.
\<close>

section \<open>The code\<close>

record SnapshotHeader =
  sh_magic :: u32
  sh_version :: u16
  sh_reserved :: u16
  sh_account_count :: u32
  sh_last_applied_tx_id :: u64
  sh_wal_offset :: u64

definition snap_kMagic :: u32 where
  "snap_kMagic = 0x534E4150"

definition snap_kVersion :: u16 where
  "snap_kVersion = 1"

definition snapshot_header_bytes :: "u32 \<Rightarrow> SnapshotHeader \<Rightarrow> byte list" where
  "snapshot_header_bytes pad h =
     le_bytes 4 (sh_magic h) @ le_bytes 2 (sh_version h) @ le_bytes 2 (sh_reserved h) @
     le_bytes 4 (sh_account_count h) @ le_bytes 4 pad @
     le_bytes 8 (sh_last_applied_tx_id h) @ le_bytes 8 (sh_wal_offset h)"

definition snapshot_header_of_bytes :: "byte list \<Rightarrow> SnapshotHeader" where
  "snapshot_header_of_bytes bs =
     \<lparr>sh_magic = le_word (take 4 bs),
      sh_version = le_word (take 2 (drop 4 bs)),
      sh_reserved = le_word (take 2 (drop 6 bs)),
      sh_account_count = le_word (take 4 (drop 8 bs)),
      sh_last_applied_tx_id = le_word (take 8 (drop 16 bs)),
      sh_wal_offset = le_word (take 8 (drop 24 bs))\<rparr>"

definition account_record_bytes :: "Account \<Rightarrow> byte list" where
  "account_record_bytes account =
     le_bytes 8 (acc_id account) @ le_bytes 1 (byte_of_account_type (acc_type account)) @
     le_bytes 8 (balance account) @ le_bytes 8 (overdraft_limit account)"

definition account_of_record :: "byte list \<Rightarrow> Account" where
  "account_of_record bs =
     \<lparr>acc_id = le_word (take 8 bs),
      acc_type = account_type_of_byte (le_word (take 1 (drop 8 bs))),
      balance = le_word (take 8 (drop 9 bs)),
      overdraft_limit = le_word (take 8 (drop 17 bs))\<rparr>"

definition parent_dir :: "string \<Rightarrow> string" where
  "parent_dir path =
     (if CHR ''/'' \<in> set path then rev (tl (dropWhile (\<lambda>c. c \<noteq> CHR ''/'') (rev path))) else ''.'')"

definition fsync_parent_dir :: "string \<Rightarrow> os \<Rightarrow> os" where
  "fsync_parent_dir path os =
     (let (dir_fd, os) = sys_open (parent_dir path) False False False os in
      if dir_fd \<ge> 0 then
        let (_, os) = sys_fsync dir_fd os in sys_close dir_fd os
      else os)"

fun put_accounts ::
    "byte list \<Rightarrow> nat \<Rightarrow> (AccountId \<times> Account) list \<Rightarrow> (byte list \<times> nat) option" where
  "put_accounts buffer offset [] = Some (buffer, offset)"
| "put_accounts buffer offset ((a, account) # as) = do {
     (buffer, offset) \<leftarrow> put buffer offset (account_record_bytes account);
     put_accounts buffer offset as
   }"

definition snapshot_buffer :: "u32 \<Rightarrow> LedgerState \<Rightarrow> u64 \<Rightarrow> byte list option" where
  "snapshot_buffer pad state wal_offset = do {
     let header = \<lparr>sh_magic = snap_kMagic, sh_version = snap_kVersion, sh_reserved = 0,
                   sh_account_count = of_nat (length (accounts state)),
                   sh_last_applied_tx_id = last_applied_id state,
                   sh_wal_offset = wal_offset\<rparr>;
     (buffer, offset) \<leftarrow> put (replicate (32 + length (accounts state) * 25) 0) 0
                           (snapshot_header_bytes pad header);
     (buffer, offset) \<leftarrow> put_accounts buffer offset (accounts state);
     Some buffer
   }"

definition write_snapshot ::
    "u32 \<Rightarrow> string \<Rightarrow> LedgerState \<Rightarrow> u64 \<Rightarrow> os \<Rightarrow> (result_void \<times> os) option" where
  "write_snapshot pad path state wal_offset os =
     (let tmp_path = path @ ''.tmp'';
          (fd, os) = sys_open tmp_path True True False os in
      if fd < 0 then Some (SnapshotOpenFailed, os)
      else do {
        buffer \<leftarrow> snapshot_buffer pad state wal_offset;
        let crc = compute buffer;
        let (n, os) = sys_write fd buffer os;
        if n \<noteq> int (length buffer) then Some (SnapshotWriteFailed, ufd_destroy fd os)
        else do {
          let (n, os) = sys_write fd (le_bytes 4 crc) os;
          if n \<noteq> 4 then Some (SnapshotWriteFailed, ufd_destroy fd os)
          else do {
            let (rc, os) = sys_fsync fd os;
            if rc \<noteq> 0 then Some (SnapshotWriteFailed, ufd_destroy fd os)
            else do {
              let (guard, os) = ufd_reset (-1) fd os;
              let (rc, os) = sys_rename tmp_path path os;
              if rc \<noteq> 0 then Some (SnapshotWriteFailed, ufd_destroy guard os)
              else Some (ErrNone, ufd_destroy guard (fsync_parent_dir path os))
            }
          }
        }
      })"

text \<open>The detached thread works on the path, state and offset it captured by value, and discards
  the result.\<close>

record SnapshotJob =
  job_path :: string
  job_state :: LedgerState
  job_wal_offset :: u64

definition write_snapshot_async ::
    "string \<Rightarrow> LedgerState \<Rightarrow> u64 \<Rightarrow> SnapshotJob list \<Rightarrow> SnapshotJob list" where
  "write_snapshot_async path state wal_offset threads =
     threads @ [\<lparr>job_path = path, job_state = state, job_wal_offset = wal_offset\<rparr>]"

definition run_snapshot_job :: "u32 \<Rightarrow> SnapshotJob \<Rightarrow> os \<Rightarrow> os option" where
  "run_snapshot_job pad job os =
     map_option snd (write_snapshot pad (job_path job) (job_state job) (job_wal_offset job) os)"

record LoadedSnapshot =
  snap_state :: LedgerState
  snap_wal_offset :: u64

fun load_accounts :: "byte list \<Rightarrow> nat \<Rightarrow> nat \<Rightarrow> LedgerState \<Rightarrow> LedgerState option" where
  "load_accounts buffer i 0 s = Some s"
| "load_accounts buffer i (Suc n) s = do {
     (rec, _) \<leftarrow> get buffer (32 + i * 25) 25;
     load_accounts buffer (Suc i) n (snd (add_account (account_of_record rec) s))
   }"

text \<open>The header is copied into the buffer and the account records are read behind it, if there are
  any; the \<open>get\<close> before the \<open>read\<close> checks that the region handed to the kernel lies inside the
  buffer. The flag says that the read was not complete.\<close>

definition read_records :: "int \<Rightarrow> byte list \<Rightarrow> nat \<Rightarrow> os \<Rightarrow> (bool \<times> byte list \<times> os) option" where
  "read_records fd hb records_size os = do {
     (buffer, _) \<leftarrow> put (replicate (32 + records_size) 0) 0 hb;
     (if records_size > 0 then do {
        _ \<leftarrow> get buffer 32 records_size;
        let (n, bs, os) = sys_read fd records_size os;
        (buffer, _) \<leftarrow> put buffer 32 bs;
        Some (n < 0 \<or> nat n \<noteq> records_size, buffer, os)
      }
      else Some (False, buffer, os))
   }"

text \<open>The checksum is read and compared, and the accounts are taken from the buffer.\<close>

definition read_trailer ::
    "int \<Rightarrow> SnapshotHeader \<Rightarrow> byte list \<Rightarrow> os \<Rightarrow> (LoadedSnapshot result \<times> os) option" where
  "read_trailer fd header buffer os = do {
     let (n, stored, os) = sys_read fd 4 os;
     if n \<noteq> 4 then Some (Inl SnapshotCorrupt, os)
     else if compute buffer \<noteq> le_word stored then Some (Inl SnapshotCorrupt, os)
     else do {
       s \<leftarrow> load_accounts buffer 0 (unat (sh_account_count header))
             (set_last_applied_id (sh_last_applied_tx_id header) empty_state);
       Some (Inr \<lparr>snap_state = s, snap_wal_offset = sh_wal_offset header\<rparr>, os)
     }
   }"

text \<open>The body of \<open>load_snapshot\<close> between opening the file and the destructor of the guard.\<close>

definition read_snapshot :: "int \<Rightarrow> os \<Rightarrow> (LoadedSnapshot result \<times> os) option" where
  "read_snapshot fd os =
     (let (n, hb, os) = sys_read fd 32 os in
      if n \<noteq> 32 then Some (Inl SnapshotCorrupt, os)
      else do {
        let header = snapshot_header_of_bytes hb;
        if sh_magic header \<noteq> snap_kMagic \<or> sh_version header \<noteq> snap_kVersion
        then Some (Inl SnapshotCorrupt, os)
        else do {
          let account_count = unat (sh_account_count header);
          (failed, buffer, os) \<leftarrow> read_records fd hb (account_count * 25) os;
          if failed then Some (Inl SnapshotCorrupt, os)
          else read_trailer fd header buffer os
        }
      })"

definition load_snapshot :: "string \<Rightarrow> os \<Rightarrow> (LoadedSnapshot result \<times> os) option" where
  "load_snapshot path os =
     (let (fd, os) = sys_open path False False False os in
      if fd < 0 then Some (Inl SnapshotReadFailed, os)
      else do {
        (r, os) \<leftarrow> read_snapshot fd os;
        Some (r, ufd_destroy fd os)
      })"

section \<open>The file layout\<close>

interpretation account_codec:
  fixed_codec 25 account_record_bytes account_of_record "\<lambda>account. named_type (acc_type account)"
  by unfold_locales (simp_all add: account_record_bytes_def account_of_record_def)

definition snapshot_header :: "LedgerState \<Rightarrow> u64 \<Rightarrow> SnapshotHeader" where
  "snapshot_header state wal_offset =
     \<lparr>sh_magic = snap_kMagic, sh_version = snap_kVersion, sh_reserved = 0,
      sh_account_count = of_nat (length (accounts state)),
      sh_last_applied_tx_id = last_applied_id state, sh_wal_offset = wal_offset\<rparr>"

definition snapshot_body :: "u32 \<Rightarrow> LedgerState \<Rightarrow> u64 \<Rightarrow> byte list" where
  "snapshot_body pad state wal_offset =
     snapshot_header_bytes pad (snapshot_header state wal_offset) @
     concat (map account_record_bytes (map snd (accounts state)))"

definition snapshot_bytes :: "u32 \<Rightarrow> LedgerState \<Rightarrow> u64 \<Rightarrow> byte list" where
  "snapshot_bytes pad state wal_offset =
     snapshot_body pad state wal_offset @ le_bytes 4 (compute (snapshot_body pad state wal_offset))"

lemma length_snapshot_header_bytes [simp]: "length (snapshot_header_bytes pad h) = 32"
  by (simp add: snapshot_header_bytes_def)

lemma snapshot_header_roundtrip [simp]:
  "snapshot_header_of_bytes (snapshot_header_bytes pad h @ rest) = h"
  by (simp add: snapshot_header_bytes_def snapshot_header_of_bytes_def)

lemma length_snapshot_body:
  "length (snapshot_body pad s off) = 32 + 25 * length (accounts s)"
  by (simp add: snapshot_body_def account_codec.length_concat_enc del: map_map)

lemma length_snapshot_bytes:
  "length (snapshot_bytes pad s off) = 36 + 25 * length (accounts s)"
  by (simp add: snapshot_bytes_def length_snapshot_body)

lemma put_accounts_eq:
  assumes "length acc + 25 * length as \<le> n"
  shows "put_accounts (acc @ replicate (n - length acc) 0) (length acc) as =
    Some ((acc @ concat (map account_record_bytes (map snd as))) @
            replicate (n - length (acc @ concat (map account_record_bytes (map snd as)))) 0,
          length (acc @ concat (map account_record_bytes (map snd as))))"
  using assms
proof (induction as arbitrary: acc)
  case Nil
  then show ?case by simp
next
  case (Cons p as)
  obtain a account where p: "p = (a, account)" by (cases p)
  have "length (acc @ account_record_bytes account) + 25 * length as \<le> n" using Cons.prems by simp
  from Cons.IH [OF this] Cons.prems show ?case
    using put_extend [of acc "account_record_bytes account" n] by (simp add: p)
qed

lemma snapshot_buffer_eq: "snapshot_buffer pad s off = Some (snapshot_body pad s off)"
proof -
  let ?n = "32 + length (accounts s) * 25"
  let ?hb = "snapshot_header_bytes pad (snapshot_header s off)"
  have "put (replicate ?n 0) 0 ?hb = Some (?hb @ replicate (?n - length ?hb) 0, length ?hb)"
    using put_extend [of "[]" ?hb ?n] by simp
  moreover have "put_accounts (?hb @ replicate (?n - length ?hb) 0) (length ?hb) (accounts s) =
      Some (snapshot_body pad s off, length (snapshot_body pad s off))"
    using put_accounts_eq [of ?hb "accounts s" ?n] length_snapshot_body [of pad s off]
    by (simp add: snapshot_body_def)
  ultimately show ?thesis by (simp add: snapshot_buffer_def Let_def flip: snapshot_header_def)
qed

section \<open>Writing\<close>

text \<open>The file system while the temporary file \<open>f\<close> is being written: nothing but the name of the
  temporary file and its inode has changed, and no other name refers to that inode.\<close>

definition drafting :: "os \<Rightarrow> string \<Rightarrow> nat \<Rightarrow> int \<Rightarrow> os \<Rightarrow> diskfile \<Rightarrow> bool" where
  "drafting os0 tmp i fd os f \<longleftrightarrow>
     0 \<le> fd \<and> fds os0 fd = None \<and> (\<forall>p. p \<noteq> tmp \<longrightarrow> names os0 p \<noteq> Some i) \<and>
     names os = (names os0)(tmp \<mapsto> i) \<and> inodes os = (inodes os0)(i \<mapsto> f) \<and>
     later os0 os \<and>
     fds os = (fds os0)(fd \<mapsto> \<lparr>of_inode = i, of_offset = length (contents f), of_append = False\<rparr>)"

lemma drafting_open:
  assumes "wf_fs os0" and "sys_open tmp True True False os0 = (fd, os)"
  shows "(fd < 0 \<and> names os = names os0 \<and> inodes os = inodes os0 \<and> fds os = fds os0 \<and>
      later os0 os \<and> \<not> (reliable n os0 \<and> fresh_fds os0)) \<or>
    (\<exists>i f. drafting os0 tmp i fd os f \<and> contents f = [])"
proof (cases "fd < 0")
  case True
  with assms(2) show ?thesis
    using reliable_script [of n os0]
    by (auto simp: sys_open_def case_prod_unfold Let_def later_def fresh_fds_def
        split: if_splits option.splits)
next
  case False
  show ?thesis
  proof (cases "names os0 tmp")
    case None
    have "\<forall>p. names os0 p \<noteq> Some (next_inode os0)"
      using assms(1) by (auto simp: wf_fs_def)
    with assms(2) None False
    have "drafting os0 tmp (next_inode os0) fd os \<lparr>contents = [], stable = []\<rparr>"
      by (auto simp: sys_open_def drafting_def later_def case_prod_unfold Let_def split: if_splits)
    moreover have "contents (\<lparr>contents = [], stable = []\<rparr> :: diskfile) = []" by simp
    ultimately show ?thesis by blast
  next
    case (Some i)
    with assms(1) obtain f where f: "inodes os0 i = Some f" by (auto simp: wf_fs_def)
    have "\<forall>p. p \<noteq> tmp \<longrightarrow> names os0 p \<noteq> Some i"
    proof (intro allI impI notI)
      fix p
      assume "p \<noteq> tmp" and p: "names os0 p = Some i"
      have "inj_on (names os0) (dom (names os0))" using assms(1) by (simp add: wf_fs_def)
      then have "p = tmp" by (rule inj_onD) (use p Some in auto)
      with \<open>p \<noteq> tmp\<close> show False by simp
    qed
    with assms(2) Some f False have "drafting os0 tmp i fd os (f\<lparr>contents := []\<rparr>)"
      by (auto simp: sys_open_def drafting_def later_def case_prod_unfold Let_def split: if_splits)
    moreover have "contents (f\<lparr>contents := []\<rparr>) = []" by simp
    ultimately show ?thesis by blast
  qed
qed

lemma drafting_open_on:
  "drafting os0 tmp i fd os f \<Longrightarrow>
    open_on os fd \<lparr>of_inode = i, of_offset = length (contents f), of_append = False\<rparr> f"
  by (simp add: drafting_def open_on_def)

lemma drafting_script:
  "drafting os0 tmp i fd os f \<Longrightarrow> reliable k os0 \<Longrightarrow> int k \<le> script os (tick os)"
  by (simp add: drafting_def later_def reliable_def)

lemma drafting_write:
  assumes "drafting os0 tmp i fd os f"
  obtains os' where "sys_write fd bs os = (-1, os')" "drafting os0 tmp i fd os' f"
      "\<And>k. reliable k os0 \<Longrightarrow> False"
  | n os' where "sys_write fd bs os = (int n, os')" "n \<le> length bs"
      "drafting os0 tmp i fd os' (f\<lparr>contents := contents f @ take n bs\<rparr>)"
      "reliable (length bs) os0 \<Longrightarrow> n = length bs"
proof (cases "script os (tick os) < 0")
  case True
  then show thesis
    using sys_write_end [OF drafting_open_on [OF assms]] assms drafting_script [OF assms]
    by (intro that(1) [of "snd (answer os)"]) (simp_all add: Let_def drafting_def later_def)
next
  case False
  define n where "n = min (nat (script os (tick os))) (length bs)"
  let ?h = "\<lparr>of_inode = i, of_offset = length (contents f), of_append = False\<rparr>"
  let ?os' = "(put_file i (f\<lparr>contents := contents f @ take n bs\<rparr>) (snd (answer os)))
      \<lparr>fds := (fds os)(fd \<mapsto> ?h\<lparr>of_offset := length (contents f) + n\<rparr>)\<rparr>"
  have "sys_write fd bs os = (int n, ?os')"
    using False sys_write_end [OF drafting_open_on [OF assms]]
    by (simp add: n_def [symmetric] Let_def)
  moreover have "n \<le> length bs" by (simp add: n_def)
  moreover from this have "drafting os0 tmp i fd ?os' (f\<lparr>contents := contents f @ take n bs\<rparr>)"
    using assms by (simp add: drafting_def min_def later_def)
  moreover have "n = length bs" if "reliable (length bs) os0"
    using drafting_script [OF assms that] by (simp add: n_def)
  ultimately show thesis by (rule that(2))
qed

lemma drafting_fsync:
  assumes "drafting os0 tmp i fd os f"
  obtains os' where "sys_fsync fd os = (-1, os')" "drafting os0 tmp i fd os' f"
      "\<And>k. reliable k os0 \<Longrightarrow> False"
  | os' where "sys_fsync fd os = (0, os')"
      "drafting os0 tmp i fd os' (f\<lparr>stable := contents f\<rparr>)"
proof (cases "script os (tick os) < 0")
  case True
  then show thesis
    using sys_fsync_cases [OF drafting_open_on [OF assms]] assms drafting_script [OF assms]
    by (intro that(1) [of "snd (answer os)"]) (simp_all add: drafting_def later_def)
next
  case False
  then show thesis
    using that(2) [of "put_file i (f\<lparr>stable := contents f\<rparr>) (snd (answer os))"]
      sys_fsync_cases [OF drafting_open_on [OF assms]] assms
    by (simp add: drafting_def later_def)
qed

text \<open>Giving up leaves every other file as it was and no descriptor behind.\<close>

lemma drafting_abandon:
  assumes "drafting os0 tmp i fd os f"
  shows "p \<noteq> tmp \<Longrightarrow> path_file (ufd_destroy fd os) p = path_file os0 p"
    and "fds (ufd_destroy fd os) = fds os0" and "later os0 (ufd_destroy fd os)"
  using assms
  by (auto simp: drafting_def later_def ufd_destroy_def ufd_reset_def path_file_def
      split: option.splits)

lemma drafting_rename:
  assumes "drafting os0 tmp i fd os f" and "tmp \<noteq> path"
  obtains os' where "sys_rename tmp path (ufd_destroy fd os) = (-1, os')"
      "fds os' = fds os0" "later os0 os'" "\<And>k. reliable k os0 \<Longrightarrow> False"
      "\<And>p. p \<noteq> tmp \<Longrightarrow> path_file os' p = path_file os0 p"
  | os' where "sys_rename tmp path (ufd_destroy fd os) = (0, os')"
      "fds os' = fds os0" "later os0 os'" "path_file os' path = Some f" "names os' tmp = None"
      "\<And>p. p \<noteq> tmp \<Longrightarrow> p \<noteq> path \<Longrightarrow> path_file os' p = path_file os0 p"
proof -
  let ?os = "ufd_destroy fd os"
  have nm: "names ?os = (names os0)(tmp \<mapsto> i)" and ino: "inodes ?os = (inodes os0)(i \<mapsto> f)"
    and fd: "fds ?os = fds os0"
    using assms(1) by (auto simp: drafting_def ufd_destroy_def ufd_reset_def)
  have lt: "later os0 ?os" by (rule drafting_abandon(3) [OF assms(1)])
  have lt1: "later os0 (snd (answer ?os))" by (rule later_trans [OF lt]) simp
  show thesis
  proof (cases "script ?os (tick ?os) < 0")
    case True
    then have "sys_rename tmp path ?os = (-1, snd (answer ?os))"
      using nm by (simp add: sys_rename_def case_prod_unfold Let_def)
    then show thesis
      using fd drafting_abandon(1) [OF assms(1)] True lt1
        reliable_script [OF later_reliable [OF lt]]
      by (intro that(1) [of "snd (answer ?os)"]) simp_all
  next
    case False
    let ?os' = "(snd (answer ?os))\<lparr>names := ((names ?os)(tmp := None))(path \<mapsto> i)\<rparr>"
    have "sys_rename tmp path ?os = (0, ?os')"
      using False nm assms(2) by (simp add: sys_rename_def case_prod_unfold Let_def)
    moreover have "fds ?os' = fds os0" and "later os0 ?os'" using fd lt1 by (simp_all add: later_def)
    moreover have "path_file ?os' path = Some f" using ino by (simp add: path_file_def)
    moreover have "names ?os' tmp = None" using assms(2) by simp
    moreover have "path_file ?os' p = path_file os0 p" if "p \<noteq> tmp" "p \<noteq> path" for p
      using assms(1) that nm ino by (auto simp: path_file_def drafting_def split: option.splits)
    ultimately show thesis by (rule that(2))
  qed
qed

text \<open>Syncing the directory can only make a file stable.\<close>

lemma fsync_parent_dir_frame:
  "fds (fsync_parent_dir d os) = fds os \<and> names (fsync_parent_dir d os) = names os \<and>
    (\<forall>j. inodes (fsync_parent_dir d os) j = inodes os j \<or>
       (\<exists>f. inodes os j = Some f \<and>
          inodes (fsync_parent_dir d os) j = Some (f\<lparr>stable := contents f\<rparr>)))"
proof -
  let ?d = "parent_dir d"
  obtain fd os1 where o: "sys_open ?d False False False os = (fd, os1)"
    by (cases "sys_open ?d False False False os")
  consider (no) "fd < 0" "names os1 = names os" "inodes os1 = inodes os" "fds os1 = fds os"
    | (dir) i where "0 \<le> fd" "names os1 = names os" "inodes os1 = inodes os" "fds os fd = None"
        "fds os1 = (fds os)(fd \<mapsto> \<lparr>of_inode = i, of_offset = 0, of_append = False\<rparr>)"
  proof (cases "names os ?d")
    case None
    with o show thesis
      by (intro no) (auto simp: sys_open_def case_prod_unfold Let_def split: if_splits)
  next
    case (Some i)
    from sys_open_existing [OF Some o] Some show thesis
      by (cases "fd < 0") (auto intro: no dir)
  qed
  then show ?thesis
  proof cases
    case no
    with o show ?thesis by (simp add: fsync_parent_dir_def)
  next
    case (dir i)
    with o show ?thesis
      by (cases "inodes os i")
        (auto simp: fsync_parent_dir_def sys_fsync_def case_prod_unfold Let_def)
  qed
qed

lemma fsync_parent_dir_later: "later os (fsync_parent_dir d os)"
proof -
  obtain fd os1 where o: "sys_open (parent_dir d) False False False os = (fd, os1)"
    by (cases "sys_open (parent_dir d) False False False os")
  have "later os os1"
    using o by (auto simp: sys_open_def later_def case_prod_unfold Let_def
        split: if_splits option.splits)
  moreover have "later os1 (snd (sys_fsync fd os1))"
    by (auto simp: sys_fsync_def later_def case_prod_unfold Let_def split: option.splits)
  moreover have "fsync_parent_dir d os =
      (if 0 \<le> fd then sys_close fd (snd (sys_fsync fd os1)) else os1)"
    by (simp add: fsync_parent_dir_def o case_prod_unfold)
  ultimately show ?thesis by (auto simp: later_def)
qed

lemma fsync_parent_dir_contents:
  "map_option contents (path_file (fsync_parent_dir d os) p) = map_option contents (path_file os p)"
proof (cases "names os p")
  case None
  then show ?thesis using fsync_parent_dir_frame [of d os] by (simp add: path_file_def)
next
  case (Some j)
  with fsync_parent_dir_frame [of d os] show ?thesis
    by (auto simp: path_file_def dest!: spec [of _ j])
qed

lemma fsync_parent_dir_stable:
  assumes "path_file os p = Some f" and "stable f = contents f"
  shows "path_file (fsync_parent_dir d os) p = Some f"
proof -
  from assms(1) obtain j where j: "names os p = Some j" "inodes os j = Some f"
    by (auto simp: path_file_def split: option.splits)
  have "f\<lparr>stable := contents f\<rparr> = f" using assms(2) by (cases f) simp
  with fsync_parent_dir_frame [of d os] j show ?thesis
    by (auto simp: path_file_def dest!: spec [of _ j])
qed

text \<open>The buffer work of \<open>write_snapshot\<close> succeeds and yields the body of the file.\<close>

lemma write_snapshot_eq:
  "write_snapshot pad path s off os =
    (let (fd, os) = sys_open (path @ ''.tmp'') True True False os in
     if fd < 0 then Some (SnapshotOpenFailed, os)
     else
       let (n, os) = sys_write fd (snapshot_body pad s off) os in
       if n \<noteq> int (length (snapshot_body pad s off))
       then Some (SnapshotWriteFailed, ufd_destroy fd os)
       else
         let (n, os) = sys_write fd (le_bytes 4 (compute (snapshot_body pad s off))) os in
         if n \<noteq> 4 then Some (SnapshotWriteFailed, ufd_destroy fd os)
         else
           let (rc, os) = sys_fsync fd os in
           if rc \<noteq> 0 then Some (SnapshotWriteFailed, ufd_destroy fd os)
           else
             let (rc, os) = sys_rename (path @ ''.tmp'') path (ufd_destroy fd os) in
             if rc \<noteq> 0 then Some (SnapshotWriteFailed, os)
             else Some (ErrNone, fsync_parent_dir path os))"
proof -
  have gone: "ufd_destroy (-1) os = os" for os by (simp add: ufd_destroy_def ufd_reset_def)
  have reset: "ufd_reset (-1) fd os = (-1, ufd_destroy fd os)" for fd os
    by (simp add: ufd_destroy_def ufd_reset_def)
  show ?thesis
    unfolding write_snapshot_def snapshot_buffer_eq Let_def Option.bind.simps prod.case reset gone by (rule refl)
qed

text \<open>Writing body and checksum and syncing them: either a step fails, or the temporary file is
  complete and stable.\<close>

definition seal :: "int \<Rightarrow> byte list \<Rightarrow> os \<Rightarrow> bool \<times> os" where
  "seal fd body os =
     (let (n, os) = sys_write fd body os in
      if n \<noteq> int (length body) then (False, os)
      else
        let (n, os) = sys_write fd (le_bytes 4 (compute body)) os in
        if n \<noteq> 4 then (False, os)
        else let (rc, os) = sys_fsync fd os in (rc = 0, os))"

lemma write_snapshot_seal:
  "write_snapshot pad path s off os =
    (let (fd, os) = sys_open (path @ ''.tmp'') True True False os in
     if fd < 0 then Some (SnapshotOpenFailed, os)
     else
       let (complete, os) = seal fd (snapshot_body pad s off) os; os = ufd_destroy fd os in
       if \<not> complete then Some (SnapshotWriteFailed, os)
       else
         let (rc, os) = sys_rename (path @ ''.tmp'') path os in
         if rc \<noteq> 0 then Some (SnapshotWriteFailed, os)
         else Some (ErrNone, fsync_parent_dir path os))"
  unfolding write_snapshot_eq seal_def Let_def
  by (simp add: case_prod_unfold cong: if_cong)

lemma seal_cases:
  assumes "drafting os0 tmp i fd os f" and "contents f = []"
  obtains (failed) os' g where "seal fd body os = (False, os')" "drafting os0 tmp i fd os' g"
      "reliable (length body + 4) os0 \<Longrightarrow> False"
  | (sealed) os' where "seal fd body os = (True, os')"
      "drafting os0 tmp i fd os' \<lparr>contents = body @ le_bytes 4 (compute body),
         stable = body @ le_bytes 4 (compute body)\<rparr>"
proof -
  let ?crc = "le_bytes 4 (compute body)"
  have mono: "reliable (length body) os0" "reliable (length ?crc) os0"
    if "reliable (length body + 4) os0"
    using reliable_mono [OF that] by simp_all
  from assms(1) show thesis
  proof (cases rule: drafting_write [where bs = body])
    case (1 os1)
    then show thesis using mono by (intro failed [of os1 f]) (simp_all add: seal_def)
  next
    case w1: (2 n os1)
    show thesis
    proof (cases "n = length body")
      case False
      with w1 mono show thesis by (intro failed [OF _ w1(3)]) (simp_all add: seal_def)
    next
      case True
      from w1(3) show thesis
      proof (cases rule: drafting_write [where bs = ?crc])
        case (1 os2)
        with w1 True show thesis by (intro failed [of os2]) (simp_all add: seal_def)
      next
        case w2: (2 m os2)
        show thesis
        proof (cases "m = 4")
          case False
          with w1 w2 True mono show thesis by (intro failed [OF _ w2(3)]) (simp_all add: seal_def)
        next
          case m: True
          from w2(3) show thesis
          proof (cases rule: drafting_fsync)
            case (1 os3)
            with w1 w2 m True show thesis by (intro failed [of os3]) (simp_all add: seal_def)
          next
            case (2 os3)
            with w1 w2 m True assms(2) show thesis
              by (intro sealed [of os3], simp_all add: seal_def) (cases f, simp)
          qed
        qed
      qed
    qed
  qed
qed

text \<open>Every outcome of \<open>write_snapshot\<close>, for every answer of the operating system.\<close>

lemma write_snapshot_cases:
  assumes "wf_fs os"
  obtains (failed) r os' where "write_snapshot pad path s off os = Some (r, os')" "fds os' = fds os"
      "later os os'" "r \<in> {SnapshotOpenFailed, SnapshotWriteFailed}"
      "\<And>p. p \<noteq> path @ ''.tmp'' \<Longrightarrow> path_file os' p = path_file os p"
      "\<not> (reliable (length (snapshot_bytes pad s off)) os \<and> fresh_fds os)"
  | (written) os' where "write_snapshot pad path s off os = Some (ErrNone, os')" "fds os' = fds os"
      "later os os'"
      "path_file os' path = Some \<lparr>contents = snapshot_bytes pad s off, stable = snapshot_bytes pad s off\<rparr>"
      "\<And>p. p \<noteq> path @ ''.tmp'' \<Longrightarrow> p \<noteq> path \<Longrightarrow>
         map_option contents (path_file os' p) = map_option contents (path_file os p)"
proof -
  let ?tmp = "path @ ''.tmp''"
  let ?bs = "snapshot_bytes pad s off"
  have len: "length ?bs = length (snapshot_body pad s off) + 4" by (simp add: snapshot_bytes_def)
  note eq = write_snapshot_seal [of pad path s off os]
  obtain fd os1 where o: "sys_open ?tmp True True False os = (fd, os1)"
    by (cases "sys_open ?tmp True True False os")
  from drafting_open [OF assms o, where n = "length ?bs"] consider
    (noopen) "fd < 0" "names os1 = names os" "inodes os1 = inodes os" "fds os1 = fds os"
      "later os os1" "\<not> (reliable (length ?bs) os \<and> fresh_fds os)"
    | (draft) i f where "drafting os ?tmp i fd os1 f" "contents f = []" by blast
  then show thesis
  proof cases
    case noopen
    with eq o show thesis
      using path_file_cong [OF noopen(2,3)]
      by (intro failed [of SnapshotOpenFailed os1]) simp_all
  next
    case (draft i f)
    have fd: "\<not> fd < 0" using draft(1) by (simp add: drafting_def)
    from draft show thesis
    proof (cases rule: seal_cases [where body = "snapshot_body pad s off"])
      case (failed os2 g)
      have "write_snapshot pad path s off os = Some (SnapshotWriteFailed, ufd_destroy fd os2)"
        using eq o fd failed(1) by simp
      moreover have "\<not> reliable (length ?bs) os" using failed(3) by (auto simp: len)
      ultimately show thesis
        using drafting_abandon [OF failed(2)]
        by (intro that(1) [of SnapshotWriteFailed "ufd_destroy fd os2"]) simp_all
    next
      case (sealed os2)
      have "?tmp \<noteq> path" by simp
      from sealed(2) this show thesis
      proof (cases rule: drafting_rename)
        case (1 os3)
        have "write_snapshot pad path s off os = Some (SnapshotWriteFailed, os3)"
          using eq o fd sealed(1) 1(1) by simp
        then show thesis
          using 1(2-5) by (intro that(1) [of SnapshotWriteFailed os3]) auto
      next
        case (2 os3)
        have "write_snapshot pad path s off os = Some (ErrNone, fsync_parent_dir path os3)"
          using eq o fd sealed(1) 2(1) by simp
        moreover have "fds (fsync_parent_dir path os3) = fds os"
          using fsync_parent_dir_frame [of path os3] 2(2) by simp
        moreover have "later os (fsync_parent_dir path os3)"
          by (rule later_trans [OF 2(3) fsync_parent_dir_later])
        moreover have "path_file (fsync_parent_dir path os3) path = Some \<lparr>contents = ?bs, stable = ?bs\<rparr>"
          using fsync_parent_dir_stable [OF 2(4), of path] by (simp add: snapshot_bytes_def)
        moreover have "map_option contents (path_file (fsync_parent_dir path os3) p) =
            map_option contents (path_file os p)" if "p \<noteq> ?tmp" "p \<noteq> path" for p
          using 2(6) [OF that] by (simp add: fsync_parent_dir_contents)
        ultimately show thesis by (rule written)
      qed
    qed
  qed
qed

lemma fsync_parent_dir_wf: "wf_fs os \<Longrightarrow> wf_fs (fsync_parent_dir d os)"
  using sys_close_dirs
  by (auto simp: fsync_parent_dir_def Let_def split: prod.splits dest: sys_open_dirs(2) sys_fsync_dirs)

text \<open>Only the names of the target and of the temporary file change.\<close>

lemma seal_dirs: "seal fd body os = (b, os') \<Longrightarrow> names os' = names os \<and> (wf_fs os \<longrightarrow> wf_fs os')"
  by (auto simp: seal_def Let_def split: prod.splits if_splits dest!: sys_write_dirs sys_fsync_dirs)

lemma write_snapshot_dirs:
  assumes "write_snapshot pad path s off os = Some (r, os')" and "wf_fs os"
  shows "wf_fs os'" and "p \<noteq> path \<Longrightarrow> p \<noteq> path @ ''.tmp'' \<Longrightarrow> names os' p = names os p"
proof -
  obtain fd os1 where o: "sys_open (path @ ''.tmp'') True True False os = (fd, os1)"
    by (cases "sys_open (path @ ''.tmp'') True True False os")
  obtain b os2 where sl: "seal fd (snapshot_body pad s off) os1 = (b, os2)"
    by (cases "seal fd (snapshot_body pad s off) os1")
  obtain rc os3 where rn: "sys_rename (path @ ''.tmp'') path (ufd_destroy fd os2) = (rc, os3)"
    by (cases "sys_rename (path @ ''.tmp'') path (ufd_destroy fd os2)")
  have os': "os' = os1 \<or> os' = ufd_destroy fd os2 \<or> os' = os3 \<or> os' = fsync_parent_dir path os3"
    using assms(1) o sl rn unfolding write_snapshot_seal by (auto simp: Let_def split: if_splits)
  have wf1: "wf_fs os1" "p \<noteq> path @ ''.tmp'' \<Longrightarrow> names os1 p = names os p" using sys_open_dirs [OF o] assms(2) by auto
  have wf2: "wf_fs (ufd_destroy fd os2)" "names (ufd_destroy fd os2) = names os1"
    using ufd_destroy_dirs seal_dirs [OF sl] wf1(1) by simp_all
  have wf3: "wf_fs os3" "p \<noteq> path \<Longrightarrow> p \<noteq> path @ ''.tmp'' \<Longrightarrow> names os3 p = names os1 p"
    using sys_rename_dirs [OF rn] wf2 by simp_all
  have "names (fsync_parent_dir path os3) = names os3" using fsync_parent_dir_frame [of path os3] by simp
  then show "wf_fs os'" "p \<noteq> path \<Longrightarrow> p \<noteq> path @ ''.tmp'' \<Longrightarrow> names os' p = names os p"
    using os' wf1 wf2 wf3 fsync_parent_dir_wf by auto
qed

section \<open>Loading\<close>

text \<open>What a snapshot file says.\<close>

definition loaded_state :: "byte list \<Rightarrow> nat \<Rightarrow> nat \<Rightarrow> LedgerState \<Rightarrow> LedgerState" where
  "loaded_state bs i n s =
     fold (\<lambda>k s. snd (add_account (account_of_record (take 25 (drop (32 + k * 25) bs))) s))
       [i..<i + n] s"

definition parse_snapshot :: "byte list \<Rightarrow> LoadedSnapshot result" where
  "parse_snapshot bs =
     (let h = snapshot_header_of_bytes (take 32 bs);
          n = unat (sh_account_count h);
          body = take (32 + n * 25) bs in
      if length bs < 32 \<or> sh_magic h \<noteq> snap_kMagic \<or> sh_version h \<noteq> snap_kVersion
         \<or> length bs < 32 + n * 25 + 4
         \<or> compute body \<noteq> le_word (take 4 (drop (32 + n * 25) bs))
      then Inl SnapshotCorrupt
      else Inr \<lparr>snap_state = loaded_state body 0 n
                  (set_last_applied_id (sh_last_applied_tx_id h) empty_state),
                snap_wal_offset = sh_wal_offset h\<rparr>)"

lemma load_accounts_eq:
  assumes "32 + (i + n) * 25 \<le> length buffer"
  shows "load_accounts buffer i n s = Some (loaded_state buffer i n s)"
  using assms
proof (induction n arbitrary: i s)
  case 0
  then show ?case by (simp add: loaded_state_def)
next
  case (Suc n)
  have "get buffer (32 + i * 25) 25 = Some (take 25 (drop (32 + i * 25) buffer), 32 + i * 25 + 25)"
    using Suc.prems by (intro get_checked) simp
  with Suc show ?case
    by (simp add: loaded_state_def upt_conv_Cons del: upt_Suc)
qed

text \<open>Reading moves the descriptor and consumes answers, nothing else.\<close>

definition read_frame :: "int \<Rightarrow> os \<Rightarrow> os \<Rightarrow> bool" where
  "read_frame fd os os' \<longleftrightarrow> (\<exists>h k. os' = os\<lparr>fds := (fds os)(fd := h), tick := tick os + k\<rparr>)"

lemma read_frame_trans: "read_frame fd a b \<Longrightarrow> read_frame fd b c \<Longrightarrow> read_frame fd a c"
  unfolding read_frame_def
proof (elim exE)
  fix h k h' k'
  assume "b = a\<lparr>fds := (fds a)(fd := h), tick := tick a + k\<rparr>"
    and "c = b\<lparr>fds := (fds b)(fd := h'), tick := tick b + k'\<rparr>"
  then have "c = a\<lparr>fds := (fds a)(fd := h'), tick := tick a + (k + k')\<rparr>" by (simp add: add.assoc)
  then show "\<exists>h k. c = a\<lparr>fds := (fds a)(fd := h), tick := tick a + k\<rparr>" by blast
qed

lemma read_frame_reliable: "read_frame fd os os' \<Longrightarrow> reliable n os \<Longrightarrow> reliable n os'"
  by (auto simp: read_frame_def reliable_def)

lemma read_frame_disk:
  "read_frame fd os os' \<Longrightarrow> inodes os' = inodes os \<and> names os' = names os \<and>
    next_inode os' = next_inode os \<and> next_fd os' = next_fd os \<and>
    script os' = script os \<and> tick os \<le> tick os' \<and>
    (fds os')(fd := None) = (fds os)(fd := None)"
  by (auto simp: read_frame_def)

lemma sys_read_cases:
  assumes "open_on os fd h f" and "0 < n"
  obtains (short) m bs os' where "sys_read fd n os = (m, bs, os')" "m \<noteq> int n" "length bs \<le> n"
      "m < 0 \<or> nat m \<noteq> n" "read_frame fd os os'"
      "reliable n os \<Longrightarrow> length (contents f) < of_offset h + n"
  | (full) os' where "sys_read fd n os = (int n, take n (drop (of_offset h) (contents f)), os')"
      "of_offset h + n \<le> length (contents f)" "read_frame fd os os'"
      "open_on os' fd (h\<lparr>of_offset := of_offset h + n\<rparr>) f"
proof -
  let ?r = "script os (tick os)"
  define bs where "bs = take (min n (max 1 (nat ?r))) (drop (of_offset h) (contents f))"
  let ?os = "(snd (answer os))\<lparr>fds := (fds os)(fd \<mapsto> h\<lparr>of_offset := of_offset h + length bs\<rparr>)\<rparr>"
  have eq: "sys_read fd n os = (if ?r < 0 then (-1, [], snd (answer os)) else (int (length bs), bs, ?os))"
    using assms(1)
    by (simp add: sys_read_def open_on_def case_prod_unfold Let_def bs_def)
  have fr0: "read_frame fd os (snd (answer os))"
    unfolding read_frame_def
    by (rule exI [of _ "fds os fd"], rule exI [of _ 1]) (simp add: answer_def)
  have fr1: "read_frame fd os ?os"
    unfolding read_frame_def
    by (rule exI [of _ "Some (h\<lparr>of_offset := of_offset h + length bs\<rparr>)"], rule exI [of _ 1])
      (simp add: answer_def)
  have rel: "\<not> ?r < 0" "length bs = min (length (contents f) - of_offset h) n" if "reliable n os"
  proof -
    have "int n \<le> ?r" by (rule reliable_script [OF that])
    then show "\<not> ?r < 0" by simp
    from \<open>int n \<le> ?r\<close> have "min n (max 1 (nat ?r)) = n" by simp
    then show "length bs = min (length (contents f) - of_offset h) n"
      unfolding bs_def by (simp only: length_take length_drop)
  qed
  have len: "length bs \<le> n" by (simp add: bs_def)
  consider "?r < 0" | "\<not> ?r < 0" "length bs \<noteq> n" | "\<not> ?r < 0" "length bs = n" by blast
  then show thesis
  proof cases
    case 1
    with eq fr0 rel show thesis by (intro short [of "-1" "[]" "snd (answer os)"]) simp_all
  next
    case 2
    have "length (contents f) < of_offset h + n" if "reliable n os"
      using rel(2) [OF that] 2(2) by linarith
    with 2 eq fr1 len show thesis by (intro short [of "int (length bs)" bs ?os]) simp_all
  next
    case 3
    then have "n \<le> length (contents f) - of_offset h" and "min n (max 1 (nat ?r)) = n"
      by (simp_all add: bs_def)
    then have "of_offset h + n \<le> length (contents f)" and "bs = take n (drop (of_offset h) (contents f))"
      using assms(2) by (linarith, simp only: bs_def)
    with 3 eq fr1 assms(1) show thesis by (intro full [of ?os]) (simp_all add: open_on_def)
  qed
qed

lemma read_records_cases:
  assumes "open_on os fd h f" and "of_offset h = 32" and "length hb = 32"
  obtains (short) buffer os' where "read_records fd hb sz os = Some (True, buffer, os')"
      "read_frame fd os os'" "reliable sz os \<Longrightarrow> length (contents f) < 32 + sz"
  | (full) os' where
      "read_records fd hb sz os = Some (False, hb @ take sz (drop 32 (contents f)), os')"
      "sz > 0 \<Longrightarrow> 32 + sz \<le> length (contents f)" "read_frame fd os os'"
      "open_on os' fd (h\<lparr>of_offset := 32 + sz\<rparr>) f"
proof (cases "sz = 0")
  case True
  have "read_records fd hb sz os = Some (False, hb, os)"
    using True assms(3) by (simp add: read_records_def put_def)
  moreover have "read_frame fd os os"
    unfolding read_frame_def by (rule exI [of _ "fds os fd"], rule exI [of _ 0]) simp
  moreover have "h\<lparr>of_offset := 32\<rparr> = h" using assms(2) by simp
  ultimately show thesis using True assms(1) by (intro full) simp_all
next
  case False
  then have pos: "0 < sz" by simp
  have p1: "put (replicate (32 + sz) 0) 0 hb = Some (hb @ replicate sz 0, 32)"
    using assms(3) by (simp add: put_def)
  have g1: "get (hb @ replicate sz 0) 32 sz = Some (replicate sz 0, 32 + sz)"
    using assms(3) by (simp add: get_def)
  have p2: "put (hb @ replicate sz 0) 32 bs = Some (hb @ bs @ replicate (sz - length bs) 0, 32 + length bs)"
    if "length bs \<le> sz" for bs
    using assms(3) that by (simp add: put_def)
  from assms(1) pos show thesis
  proof (cases rule: sys_read_cases)
    case (short m bs os')
    have "read_records fd hb sz os = Some (True, hb @ bs @ replicate (sz - length bs) 0, os')"
      using pos p1 g1 p2 [OF short(3)] short(1,4) by (simp add: read_records_def)
    with short(5,6) assms(2) show thesis by (intro that(1)) simp_all
  next
    case (full os')
    let ?bs = "take sz (drop 32 (contents f))"
    have len: "length ?bs = sz" using full(2) assms(2) by simp
    have "read_records fd hb sz os = Some (False, hb @ ?bs, os')"
      using pos p1 g1 p2 [of ?bs] full(1) len assms(2) by (simp add: read_records_def)
    with full assms(2) show thesis by (intro that(2)) simp_all
  qed
qed

text \<open>An acceptable answer of the loader about a file with contents \<open>c\<close>: what the file says, or
  that it is corrupt; the latter only for a file that says so, or when a read fails or is cut
  short.\<close>

fun load_answer :: "int \<Rightarrow> os \<Rightarrow> byte list \<Rightarrow> LoadedSnapshot result \<times> os \<Rightarrow> bool" where
  "load_answer fd os c (r, os') \<longleftrightarrow>
     read_frame fd os os' \<and>
     (r = parse_snapshot c \<or> r = Inl SnapshotCorrupt \<and> \<not> reliable (length c) os)"

lemma load_answer_frame:
  "read_frame fd a b \<Longrightarrow> load_answer fd b c x \<Longrightarrow> load_answer fd a c x"
  by (cases x) (auto intro: read_frame_trans dest: read_frame_reliable)

lemma load_answer_short:
  assumes "read_frame fd os os'" and "reliable m os \<Longrightarrow> length c < k" and "m \<le> k"
    and "parse_snapshot c \<noteq> Inl SnapshotCorrupt \<Longrightarrow> k \<le> length c"
  shows "load_answer fd os c (Inl SnapshotCorrupt, os')"
proof (cases "parse_snapshot c = Inl SnapshotCorrupt")
  case True
  then show ?thesis using assms(1) by simp
next
  case False
  then have "k \<le> length c" by (rule assms(4))
  with assms(2,3) have "\<not> reliable (length c) os"
    using reliable_mono [of "length c" os m] by auto
  with assms(1) show ?thesis by simp
qed

lemma parse_snapshot_long:
  assumes "parse_snapshot c \<noteq> Inl SnapshotCorrupt"
  shows "32 + unat (sh_account_count (snapshot_header_of_bytes (take 32 c))) * 25 + 4 \<le> length c"
  using assms by (auto simp: parse_snapshot_def Let_def split: if_splits)

lemma read_trailer_answer:
  assumes "open_on os fd h f" and "of_offset h = 32 + unat (sh_account_count hdr) * 25"
    and hdr: "hdr = snapshot_header_of_bytes (take 32 (contents f))"
    and "sh_magic hdr = snap_kMagic" and "sh_version hdr = snap_kVersion"
  shows "\<exists>x. read_trailer fd hdr (take (of_offset h) (contents f)) os = Some x \<and>
             load_answer fd os (contents f) x"
proof -
  let ?c = "contents f"
  let ?n = "unat (sh_account_count hdr)"
  have "0 < (4 :: nat)" by simp
  with assms(1) show ?thesis
  proof (cases rule: sys_read_cases)
    case (short m bs os')
    have "load_answer fd os ?c (Inl SnapshotCorrupt, os')"
      by (rule load_answer_short [where m = 4 and k = "of_offset h + 4"])
        (use short(5,6) parse_snapshot_long [of ?c] assms(2) hdr in simp_all)
    with short(1,2) show ?thesis by (simp add: read_trailer_def)
  next
    case (full os')
    have l: "32 + ?n * 25 + 4 \<le> length ?c" using full(2) assms(2) by simp
    then have "load_accounts (take (of_offset h) ?c) 0 ?n s =
        Some (loaded_state (take (of_offset h) ?c) 0 ?n s)" for s
      by (intro load_accounts_eq) (simp add: assms(2))
    with full(1) have "read_trailer fd hdr (take (of_offset h) ?c) os = Some (parse_snapshot ?c, os')"
      using l assms(4,5)
      by (simp add: read_trailer_def parse_snapshot_def Let_def hdr [symmetric] assms(2))
    with full(3) show ?thesis by simp
  qed
qed

lemma read_snapshot_answer:
  assumes "open_on os fd h f" and "of_offset h = 0"
  shows "\<exists>x. read_snapshot fd os = Some x \<and> load_answer fd os (contents f) x"
proof -
  let ?c = "contents f"
  define hdr where "hdr = snapshot_header_of_bytes (take 32 ?c)"
  let ?n = "unat (sh_account_count hdr)"
  have "0 < (32 :: nat)" by simp
  with assms(1) show ?thesis
  proof (cases rule: sys_read_cases)
    case (short m bs os1)
    have "load_answer fd os ?c (Inl SnapshotCorrupt, os1)"
      by (rule load_answer_short [where m = 32 and k = 32])
        (use short(5,6) parse_snapshot_long [of ?c] assms(2) in simp_all)
    with short(1,2) show ?thesis by (simp add: read_snapshot_def)
  next
    case first: (full os1)
    have r1: "sys_read fd 32 os = (32, take 32 ?c, os1)" and l32: "32 \<le> length ?c"
      using first(1,2) assms(2) by simp_all
    show ?thesis
    proof (cases "sh_magic hdr = snap_kMagic \<and> sh_version hdr = snap_kVersion")
      case False
      then have "read_snapshot fd os = Some (Inl SnapshotCorrupt, os1)"
        using r1 by (auto simp: read_snapshot_def hdr_def [symmetric])
      moreover have "parse_snapshot ?c = Inl SnapshotCorrupt"
        using False by (auto simp: parse_snapshot_def hdr_def [symmetric])
      ultimately show ?thesis using first(3) by simp
    next
      case good: True
      then have step: "read_snapshot fd os = do {
          (failed, buffer, os) \<leftarrow> read_records fd (take 32 ?c) (?n * 25) os1;
          if failed then Some (Inl SnapshotCorrupt, os) else read_trailer fd hdr buffer os }"
        using r1 by (simp add: read_snapshot_def hdr_def [symmetric])
      have "of_offset (h\<lparr>of_offset := of_offset h + 32\<rparr>) = 32" "length (take 32 ?c) = 32"
        using assms(2) l32 by simp_all
      from first(4) this show ?thesis
      proof (cases rule: read_records_cases [where sz = "?n * 25"])
        case (short buffer os2)
        have "load_answer fd os1 ?c (Inl SnapshotCorrupt, os2)"
          by (rule load_answer_short [where m = "?n * 25" and k = "32 + ?n * 25"])
            (use short(2,3) parse_snapshot_long [of ?c] in \<open>simp_all add: hdr_def\<close>)
        from load_answer_frame [OF first(3) this] step short(1) show ?thesis by simp
      next
        case recs: (full os2)
        have "take 32 ?c @ take (?n * 25) (drop 32 ?c) = take (32 + ?n * 25) ?c"
          by (simp add: take_add)
        with step recs(1) have "read_snapshot fd os = read_trailer fd hdr (take (32 + ?n * 25) ?c) os2"
          by simp
        moreover obtain x where "read_trailer fd hdr (take (32 + ?n * 25) ?c) os2 = Some x"
          and "load_answer fd os2 ?c x"
          using read_trailer_answer [OF recs(4), of hdr] good by (auto simp: hdr_def)
        ultimately show ?thesis
          using load_answer_frame [OF read_frame_trans [OF first(3) recs(3)]] by simp
      qed
    qed
  qed
qed

lemma load_snapshot_cases:
  assumes "path_file os path = Some f"
  obtains (unopened) os' where "load_snapshot path os = Some (Inl SnapshotReadFailed, os')"
      "same_disk os os'" "script os (tick os) < 0 \<or> fds os (next_fd os) \<noteq> None \<or> next_fd os < 0"
  | (loaded) os' r where "load_snapshot path os = Some (r, os')"
      "inodes os' = inodes os" "names os' = names os" "fds os' = fds os"
      "later os os'"
      "r = parse_snapshot (contents f) \<or>
       r = Inl SnapshotCorrupt \<and> \<not> reliable (length (contents f)) os"
proof -
  from assms obtain i where i: "names os path = Some i" "inodes os i = Some f"
    by (auto simp: path_file_def split: option.splits)
  obtain fd os1 where o: "sys_open path False False False os = (fd, os1)"
    by (cases "sys_open path False False False os")
  show thesis
  proof (cases "fd < 0")
    case True
    have "os1 = snd (answer os)"
      and "script os (tick os) < 0 \<or> fds os (next_fd os) \<noteq> None \<or> next_fd os < 0"
      using o i True
      by (auto simp: sys_open_def case_prod_unfold Let_def split: if_splits)
    with o True show thesis by (intro unopened [of os1]) (simp_all add: load_snapshot_def)
  next
    case False
    note o1 = sys_open_existing [OF i(1) o]
    have fds: "fds os1 = (fds os)(fd \<mapsto> \<lparr>of_inode = i, of_offset = 0, of_append = False\<rparr>)"
      "fds os fd = None" "next_fd os \<le> next_fd os1" using o1(6) False by auto
    have "open_on os1 fd \<lparr>of_inode = i, of_offset = 0, of_append = False\<rparr> f"
      using fds o1(1) i by (simp add: open_on_def)
    then obtain os2 r where r: "read_snapshot fd os1 = Some (r, os2)" "read_frame fd os1 os2"
      "r = parse_snapshot (contents f) \<or>
       r = Inl SnapshotCorrupt \<and> \<not> reliable (length (contents f)) os1"
      using read_snapshot_answer [of os1 fd "\<lparr>of_inode = i, of_offset = 0, of_append = False\<rparr>" f]
      by auto
    note d = read_frame_disk [OF r(2)]
    have "\<not> reliable (length (contents f)) os" if "\<not> reliable (length (contents f)) os1"
      using that o1(4,5) Suc_leD by (fastforce simp: reliable_def)
    moreover have "fds (ufd_destroy fd os2) = fds os"
      using d fds False by (auto simp: ufd_destroy_def ufd_reset_def)
    moreover have "load_snapshot path os = Some (r, ufd_destroy fd os2)"
      using o False r(1) by (simp add: load_snapshot_def)
    ultimately show thesis
      using d o1(1-5) r(3) False fds(3)
      by (intro loaded [of r "ufd_destroy fd os2"])
        (auto simp: ufd_destroy_def ufd_reset_def later_def)
  qed
qed

section \<open>A written snapshot loads back\<close>

definition wf_named :: "LedgerState \<Rightarrow> bool" where
  "wf_named s \<longleftrightarrow> wf_state s \<and> list_all (\<lambda>(a, account). named_type (acc_type account)) (accounts s)"

lemma add_all_accounts:
  assumes "distinct (map fst (accounts s @ as))" and "list_all (\<lambda>(a, account). acc_id account = a) as"
  shows "fold (\<lambda>account s. snd (add_account account s)) (map snd as) s = s\<lparr>accounts := accounts s @ as\<rparr>"
  using assms
proof (induction as arbitrary: s)
  case Nil
  then show ?case by simp
next
  case (Cons p as)
  obtain a account where p: "p = (a, account)" by (cases p)
  have "map_of (accounts s) a = None"
    using Cons.prems p by (auto simp: map_of_eq_None_iff)
  then have "snd (add_account account s) = s\<lparr>accounts := accounts s @ [p]\<rparr>"
    using Cons.prems p by (simp add: add_account_def)
  with Cons show ?case by (simp add: p)
qed

lemma loaded_state_body:
  assumes "wf_named s"
  shows "loaded_state (snapshot_body pad s off) 0 (length (accounts s))
           (set_last_applied_id (last_applied_id s) empty_state) = s"
proof -
  let ?accs = "map snd (accounts s)"
  have chunk: "account_of_record (take 25 (drop (32 + k * 25) (snapshot_body pad s off))) = ?accs ! k"
    if "k < length (accounts s)" for k
  proof -
    have "take 25 (drop (25 * k) (concat (map account_record_bytes ?accs))) =
        account_record_bytes (?accs ! k)"
      using that by (intro account_codec.nth_chunk) simp
    moreover have "named_type (acc_type (?accs ! k))"
      using assms that nth_mem [OF that]
      by (cases "accounts s ! k") (auto simp: wf_named_def list_all_iff)
    ultimately show ?thesis
      by (simp add: snapshot_body_def mult.commute del: map_map)
  qed
  have "loaded_state (snapshot_body pad s off) 0 (length (accounts s)) s0 =
      fold (\<lambda>account s. snd (add_account account s)) ?accs s0" for s0
  proof -
    have "loaded_state (snapshot_body pad s off) 0 (length (accounts s)) s0 =
        fold (\<lambda>k s'. snd (add_account (?accs ! k) s')) [0..<length ?accs] s0"
      unfolding loaded_state_def using chunk by (intro fold_cong) auto
    also have "\<dots> = fold (\<lambda>account s'. snd (add_account account s')) (map (\<lambda>k. ?accs ! k) [0..<length ?accs]) s0"
      by (simp add: fold_map comp_def)
    also have "map (\<lambda>k. ?accs ! k) [0..<length ?accs] = ?accs" by (rule map_nth)
    finally show ?thesis .
  qed
  then show ?thesis
    using add_all_accounts [of "set_last_applied_id (last_applied_id s) empty_state" "accounts s"] assms
    by (simp add: wf_named_def wf_state_def empty_state_def set_last_applied_id_def)
qed

lemma parse_snapshot_bytes:
  assumes "wf_named s" and "length (accounts s) < 2 ^ 32"
  shows "parse_snapshot (snapshot_bytes pad s off) = Inr \<lparr>snap_state = s, snap_wal_offset = off\<rparr>"
proof -
  let ?bs = "snapshot_bytes pad s off"
  have h: "snapshot_header_of_bytes (take 32 ?bs) = snapshot_header s off"
    using snapshot_header_roundtrip [of pad "snapshot_header s off" "[]"]
    by (simp add: snapshot_bytes_def snapshot_body_def)
  have n: "unat (sh_account_count (snapshot_header s off)) = length (accounts s)"
    using assms(2) by (simp add: snapshot_header_def unat_of_nat)
  have body: "take (32 + length (accounts s) * 25) ?bs = snapshot_body pad s off"
    and sum: "take 4 (drop (32 + length (accounts s) * 25) ?bs) = le_bytes 4 (compute (snapshot_body pad s off))"
    using length_snapshot_body [of pad s off] by (simp_all add: snapshot_bytes_def mult.commute)
  show ?thesis
    unfolding parse_snapshot_def Let_def h n body sum
    using loaded_state_body [OF assms(1), of pad off]
    by (simp add: length_snapshot_bytes snapshot_header_def)
qed

text \<open>One corrupted byte outside the account count spoils the checksum.\<close>

lemma account_count_unchanged:
  assumes "i < 8 \<or> 12 \<le> i"
  shows "sh_account_count (snapshot_header_of_bytes (take 32 (bs[i := b]))) =
         sh_account_count (snapshot_header_of_bytes (take 32 bs))"
proof -
  have "take 4 (drop 8 (take 32 (bs[i := b]))) = take 4 (drop 8 (take 32 bs))"
    using assms by (intro nth_equalityI) (auto simp: nth_list_update)
  then show ?thesis by (simp add: snapshot_header_of_bytes_def)
qed

lemma parse_corrupted_snapshot:
  assumes len: "length (accounts s) < 2 ^ 32" and i: "i < length (snapshot_bytes pad s off)"
    and outside: "i < 8 \<or> 12 \<le> i" and b: "b \<noteq> snapshot_bytes pad s off ! i"
  shows "parse_snapshot ((snapshot_bytes pad s off)[i := b]) = Inl SnapshotCorrupt"
proof -
  let ?bs = "snapshot_bytes pad s off"
  let ?bad = "?bs[i := b]"
  let ?body = "snapshot_body pad s off"
  define n where "n = length (accounts s)"
  define h where "h = snapshot_header_of_bytes (take 32 ?bad)"
  have lb: "length ?body = 32 + n * 25" by (simp add: length_snapshot_body n_def)
  have hd: "snapshot_header_of_bytes (take 32 ?bs) = snapshot_header s off"
    using snapshot_header_roundtrip [of pad "snapshot_header s off" "[]"]
    by (simp add: snapshot_bytes_def snapshot_body_def)
  have count: "unat (sh_account_count h) = n"
    using len by (simp add: h_def account_count_unchanged [OF outside] hd snapshot_header_def
        n_def unat_of_nat)
  have "(le_word (drop (32 + n * 25) ?bad) :: u32) \<noteq> compute (take (32 + n * 25) ?bad)"
  proof (rule crc.corrupted_byte_rejected)
    show "(le_word (le_bytes 4 (compute ?body)) :: u32) = compute ?body" by (rule crc.sealed_verifies)
    show "i < length ?body + 4" using i by (simp add: snapshot_bytes_def)
    show "b \<noteq> (?body @ le_bytes 4 (compute ?body)) ! i" using b by (simp add: snapshot_bytes_def)
    show "take (32 + n * 25) ?bad @ drop (32 + n * 25) ?bad = (?body @ le_bytes 4 (compute ?body))[i := b]"
      by (simp add: snapshot_bytes_def)
  qed (use lb in \<open>simp_all add: snapshot_bytes_def\<close>)
  moreover have "take 4 (drop (32 + n * 25) ?bad) = drop (32 + n * 25) ?bad"
    using lb by (simp add: snapshot_bytes_def)
  ultimately show ?thesis
    unfolding parse_snapshot_def Let_def h_def [symmetric] count by (auto simp: eq_commute)
qed

lemma wf_loaded_state: "wf_state s \<Longrightarrow> wf_state (loaded_state bs i n s)"
  unfolding loaded_state_def by (rule fold_invariant [where Q = "\<lambda>_. True"]) (simp_all add: wf_add_account)

section \<open>Properties\<close>

text \<open>C25. A snapshot replaces its target atomically, for every answer of the operating system and
  whatever step fails: either the call reports an error and the file at the target path is
  exactly what it was, or it reports success and the target is the complete new snapshot, on
  stable storage. No descriptor is leaked, and a kernel that serves every call gives success.\<close>

theorem snapshot_replaces_atomically:
  assumes "wf_fs os"
  shows "\<exists>r os'. write_snapshot pad path s off os = Some (r, os') \<and> fds os' = fds os \<and>
    (r = ErrNone \<and> path_file os' path =
         Some \<lparr>contents = snapshot_bytes pad s off, stable = snapshot_bytes pad s off\<rparr> \<or>
     r \<in> {SnapshotOpenFailed, SnapshotWriteFailed} \<and> path_file os' path = path_file os path \<and>
       \<not> (reliable (length (snapshot_bytes pad s off)) os \<and> fresh_fds os))"
  using assms
proof (cases rule: write_snapshot_cases [where pad = pad and path = path and s = s and off = off])
  case (failed r os')
  moreover have "path_file os' path = path_file os path" by (rule failed(5)) simp
  ultimately show ?thesis by blast
next
  case (written os')
  then show ?thesis by blast
qed

text \<open>C27. A written snapshot loads back: under a kernel that serves the calls, writing a snapshot
  and loading it yields the same accounts, the same last applied transaction id and the same log
  offset, for every state with named account types and fewer than \<open>2 ^ 32\<close> accounts, whatever the
  padding bytes are.\<close>

theorem snapshot_roundtrip:
  assumes "wf_fs os" and "reliable (36 + 25 * length (accounts s)) os" and "fresh_fds os"
    and "wf_named s" and "length (accounts s) < 2 ^ 32"
  shows "\<exists>os1 os2. write_snapshot pad path s off os = Some (ErrNone, os1) \<and>
    load_snapshot path os1 = Some (Inr \<lparr>snap_state = s, snap_wal_offset = off\<rparr>, os2)"
  using assms(1)
proof (cases rule: write_snapshot_cases [where pad = pad and path = path and s = s and off = off])
  case (failed r os')
  with assms show ?thesis by (simp add: length_snapshot_bytes)
next
  case (written os1)
  have rel: "reliable (length (snapshot_bytes pad s off)) os1"
    using later_reliable [OF written(3)] assms(2) by (simp add: length_snapshot_bytes)
  have fresh: "fresh_fds os1" using fresh_fds_later [OF assms(3) written(3,2)] .
  from written(4) show ?thesis
  proof (cases rule: load_snapshot_cases)
    case (unopened os2)
    have False
      using unopened(3) fresh reliable_script [OF rel] by (auto simp: fresh_fds_def)
    then show ?thesis ..
  next
    case (loaded os2 r)
    with written(1) rel parse_snapshot_bytes [OF assms(4,5)] show ?thesis by auto
  qed
qed

text \<open>C28. A damaged snapshot is never loaded: if one byte of a written snapshot file is changed
  anywhere but in the account count, loading it fails, whatever the operating system answers.\<close>

theorem corrupted_snapshot_rejected:
  assumes "length (accounts s) < 2 ^ 32" and "i < length (snapshot_bytes pad s off)"
    and "i < 8 \<or> 12 \<le> i" and "b \<noteq> snapshot_bytes pad s off ! i"
    and "path_file os path = Some f" and "contents f = (snapshot_bytes pad s off)[i := b]"
  shows "\<exists>e os'. load_snapshot path os = Some (Inl e, os') \<and> e \<in> {SnapshotReadFailed, SnapshotCorrupt}"
  using assms(5)
proof (cases rule: load_snapshot_cases)
  case (unopened os')
  then show ?thesis by simp
next
  case (loaded os' r)
  with parse_corrupted_snapshot [OF assms(1-4)] assms(6) show ?thesis by auto
qed

text \<open>A state with two accounts, and an empty file system.\<close>

definition example_state :: LedgerState where
  "example_state =
     \<lparr>accounts = [(1, \<lparr>acc_id = 1, acc_type = Asset, balance = 40, overdraft_limit = 0\<rparr>),
                  (2, \<lparr>acc_id = 2, acc_type = Revenue, balance = 40, overdraft_limit = 0\<rparr>)],
      last_applied_id = 7\<rparr>"

definition blank_os :: "int \<Rightarrow> os" where
  "blank_os r = \<lparr>inodes = Map.empty, next_inode = 0, names = Map.empty, fds = Map.empty,
                 next_fd = 3, script = (\<lambda>_. r), tick = 0\<rparr>"

lemma blank_os_facts [simp]:
  "wf_fs (blank_os r)" "fresh_fds (blank_os r)" "reliable n (blank_os (int n))"
  by (simp_all add: blank_os_def wf_fs_def fresh_fds_def reliable_def)

lemma example_state_facts [simp]: "wf_named example_state" "length (accounts example_state) = 2"
  by (simp_all add: example_state_def wf_named_def wf_state_def)

theorem snapshot_replaces_atomically_witness:
  "\<exists>r os'. write_snapshot 0 ''snap'' example_state 99 (blank_os 40) = Some (r, os') \<and>
     fds os' = fds (blank_os 40)"
  using snapshot_replaces_atomically [OF blank_os_facts(1)] by blast

theorem snapshot_roundtrip_witness:
  "\<exists>os1 os2. write_snapshot 0xAB ''snap'' example_state 99 (blank_os 86) = Some (ErrNone, os1) \<and>
     load_snapshot ''snap'' os1 = Some (Inr \<lparr>snap_state = example_state, snap_wal_offset = 99\<rparr>, os2)"
  by (rule snapshot_roundtrip) (use blank_os_facts(3) [of 86] in simp_all)

theorem corrupted_snapshot_rejected_witness:
  "\<exists>e os'. load_snapshot ''snap''
      \<lparr>inodes = [0 \<mapsto> \<lparr>contents = (snapshot_bytes 0 example_state 99)
                       [40 := snapshot_bytes 0 example_state 99 ! 40 + 1], stable = []\<rparr>],
       next_inode = 1, names = [''snap'' \<mapsto> 0], fds = Map.empty, next_fd = 3,
       script = (\<lambda>_. 100), tick = 0\<rparr> = Some (Inl e, os') \<and> e \<in> {SnapshotReadFailed, SnapshotCorrupt}"
  by (rule corrupted_snapshot_rejected [of example_state 40 0 99
        "snapshot_bytes 0 example_state 99 ! 40 + 1" _ _
        "\<lparr>contents = (snapshot_bytes 0 example_state 99)
            [40 := snapshot_bytes 0 example_state 99 ! 40 + 1], stable = []\<rparr>"])
    (simp_all add: length_snapshot_bytes path_file_def)

end
