(* ===== verification/Recovery.thy ===== *)
theory Recovery
  imports Snapshot
begin

text \<open>
  \<open>src/src/recovery.cpp\<close>: load the latest snapshot, replay the log behind it, cut the log back to
  the last valid record, and check the trial balance. The replay loop has no bound of its own;
  it is shown to return on every file, whatever the operating system answers, with a replay of
  a prefix of the valid records, and of all of them when the reads are served. On a log that the
  writer produced the recovered state is the state the engine had.
\<close>

section \<open>The code\<close>

record RecoveredState =
  rec_state :: LedgerState
  wal_valid_length :: u64

definition replay_tx :: "Transaction \<Rightarrow> LedgerState \<Rightarrow> LedgerState" where
  "replay_tx tx s = (if tx_id tx > last_applied_id s then snd (apply_tx tx s) else s)"

partial_function (option) replay_loop ::
    "BinaryWalReader \<Rightarrow> LedgerState \<Rightarrow> os \<Rightarrow> (ReadOutcome \<times> BinaryWalReader \<times> LedgerState \<times> os) option"
where
  "replay_loop reader state os = do {
     (read, reader, os) \<leftarrow> read_next reader os;
     if outcome read = Read_Ok then replay_loop reader (replay_tx (transaction read) state) os
     else Some (outcome read, reader, state, os)
   }"

declare replay_loop.simps [code]

definition checked_state :: "LedgerState \<Rightarrow> u64 \<Rightarrow> RecoveredState result" where
  "checked_state state valid_length =
     (let trial = validate_trial_balance state in
      if \<not> has_value trial then Inl trial
      else Inr \<lparr>rec_state = state, wal_valid_length = valid_length\<rparr>)"

text \<open>The replay loop with what follows it: a clean end of the log leaves the file alone, a damaged
  tail is cut off.\<close>

definition replay_log ::
    "string \<Rightarrow> BinaryWalReader \<Rightarrow> LedgerState \<Rightarrow> os
      \<Rightarrow> (RecoveredState result \<times> BinaryWalReader \<times> os) option" where
  "replay_log wal_path reader state os = do {
     (oc, reader, state, os) \<leftarrow> replay_loop reader state os;
     let valid_length = r_last_valid_offset reader;
     if oc = EndOfLog then Some (checked_state state valid_length, reader, os)
     else
       let (truncated, os) = truncate_wal wal_path valid_length os in
       if \<not> has_value truncated then Some (Inl truncated, reader, os)
       else Some (checked_state state valid_length, reader, os)
   }"

text \<open>The snapshot's state and offset if there is one, else an empty state and the whole log.\<close>

definition seeded :: "LoadedSnapshot result \<Rightarrow> LedgerState \<times> u64" where
  "seeded loaded =
     (case loaded of
        Inr l \<Rightarrow> (snap_state l, snap_wal_offset l)
      | Inl _ \<Rightarrow> (empty_state, 0))"

definition recover ::
    "string \<Rightarrow> string \<Rightarrow> os \<Rightarrow> (RecoveredState result \<times> os) option" where
  "recover wal_path snapshot_path os = do {
     (loaded, os) \<leftarrow> load_snapshot snapshot_path os;
     if loaded = Inl SnapshotCorrupt then Some (Inl SnapshotCorrupt, os)
     else do {
       let (state, replay_from_offset) = seeded loaded;
       let (opened, reader, os) = reader_open wal_path new_reader os;
       if \<not> has_value opened then
         if replay_from_offset \<noteq> 0 then Some (Inl WalOpenFailed, ufd_destroy (r_fd reader) os)
         else Some (checked_state state 0, ufd_destroy (r_fd reader) os)
       else do {
         (result, reader, os) \<leftarrow> replay_log wal_path (seek replay_from_offset reader) state os;
         Some (result, ufd_destroy (r_fd reader) os)
       }
     }
   }"

section \<open>The replay loop returns\<close>

lemma unat_add_of_nat:
  assumes "unat (c :: u64) + n < 2 ^ 64"
  shows "unat (c + of_nat n) = unat c + n"
proof -
  have "unat (of_nat n :: u64) = n" using assms by (simp add: unat_of_nat)
  with assms show ?thesis by (simp add: unat_word_ariths)
qed

lemma seek_seek [simp]: "seek a (seek b r) = seek a r"
  by (simp add: seek_def)

lemma seek_simps [simp]:
  "r_fd (seek a r) = r_fd r" "r_cursor (seek a r) = a" "r_last_valid_offset (seek a r) = a"
  by (simp_all add: seek_def)

text \<open>The reader stands on a file of a size that file offsets can address, its cursor at a record
  boundary; and the reads at the cursor are served, the offset being one that \<open>pread\<close> accepts.\<close>

definition reading :: "BinaryWalReader \<Rightarrow> os \<Rightarrow> diskfile \<Rightarrow> bool" where
  "reading r os f \<longleftrightarrow>
     0 \<le> r_fd r \<and> fd_file os (r_fd r) = Some f \<and> r_last_valid_offset r = r_cursor r \<and>
     length (contents f) + 28 < 2 ^ 63"

definition served_at :: "BinaryWalReader \<Rightarrow> os \<Rightarrow> bool" where
  "served_at r os \<longleftrightarrow> reliable 516 os \<and> unat (r_cursor r) + 28 < 2 ^ 63"

lemma read_next_step:
  assumes "reading r os f"
  obtains (got) tx n os' where
      "parse_record (drop (unat (r_cursor r)) (contents f)) = Inr (tx, n)" "same_disk os os'"
      "read_next r os = Some (\<lparr>outcome = Read_Ok, transaction = tx\<rparr>, seek (r_cursor r + of_nat n) r, os')"
      "reading (seek (r_cursor r + of_nat n) r) os' f"
      "unat (r_cursor r + of_nat n) = unat (r_cursor r) + n"
  | (stop) oc os' where "same_disk os os'" "read_next r os = Some (stop_at oc r os')" "oc \<noteq> Read_Ok"
      "parse_record (drop (unat (r_cursor r)) (contents f)) = Inl oc \<or>
       oc = Truncated \<and> \<not> served_at r os"
proof -
  let ?bs = "drop (unat (r_cursor r)) (contents f)"
  have fd: "fd_file os (r_fd r) = Some f" "0 \<le> r_fd r" using assms by (simp_all add: reading_def)
  then show thesis
  proof (cases rule: read_next_cases)
    case (cut os')
    then show thesis by (intro stop [of os' Truncated]) (simp_all add: served_at_def)
  next
    case (parsed os')
    show thesis
    proof (cases "parse_record ?bs")
      case (Inl oc)
      with parsed show thesis
        using parse_record_not_ok [OF Inl] by (intro stop [of os' oc]) simp_all
    next
      case (Inr p)
      obtain tx n where p: "p = (tx, n)" by (cases p)
      have n: "32 \<le> n" "n \<le> length ?bs" using parse_record_bounds [of ?bs tx n] Inr p by simp_all
      then have small: "unat (r_cursor r) + n \<le> length (contents f)" by simp
      then have cur: "unat (r_cursor r + of_nat n) = unat (r_cursor r) + n"
        using assms by (intro unat_add_of_nat) (simp add: reading_def)
      have "reading (seek (r_cursor r + of_nat n) r) os' f"
        using assms small same_diskD(6) [OF parsed(1)] by (simp add: reading_def cur)
      with Inr p parsed cur show thesis by (intro got [of tx n os']) (simp_all add: seek_def)
    qed
  qed
qed

text \<open>The loop replays a prefix of the valid records and stops at its end; it stops short of the
  last valid record only when a read failed or was cut short.\<close>

lemma replay_loop_returns:
  assumes "reading r os f"
    and "parse_log (drop (unat (r_cursor r)) (contents f)) = (txs, m, oc)"
  shows "\<exists>k mk oc' os'. k \<le> length txs \<and> same_disk os os' \<and>
    replay_loop r s os =
      Some (oc', seek (r_cursor r + of_nat mk) r, fold replay_tx (take k txs) s, os') \<and>
    unat (r_cursor r + of_nat mk) = unat (r_cursor r) + mk \<and> mk \<le> m \<and> oc' \<noteq> Read_Ok \<and>
    parse_log (take mk (drop (unat (r_cursor r)) (contents f))) = (take k txs, mk, EndOfLog) \<and>
    (oc' = oc \<and> mk = m \<and> k = length txs \<or> oc' = Truncated \<and> \<not> served_at r os)"
  using assms
proof (induction "length (contents f) - unat (r_cursor r)" arbitrary: r s os txs m rule: less_induct)
  case less
  let ?bs = "drop (unat (r_cursor r)) (contents f)"
  from less.prems(1) show ?case
  proof (cases rule: read_next_step)
    case (stop oc' os')
    have same: "seek (r_cursor r) r = r" using less.prems(1) by (simp add: seek_def reading_def)
    have loop: "replay_loop r s os = Some (oc', r, s, os')"
      using stop(2,3) by (subst replay_loop.simps) (simp add: stop_at_def)
    have "oc' = oc \<and> 0 = m \<and> 0 = length txs \<or> oc' = Truncated \<and> \<not> served_at r os"
      using stop(4) parse_log_stop [of ?bs oc'] less.prems(2) by auto
    moreover have "parse_log [] = ([], 0, EndOfLog)"
      by (rule parse_log_stop) (simp add: parse_record_end)
    ultimately show ?thesis
      using loop stop same
      by (intro exI [of _ 0] exI [of _ "0 :: nat"] exI [of _ oc'] exI [of _ os']) auto
  next
    case (got tx n os')
    let ?r = "seek (r_cursor r + of_nat n) r"
    obtain txs' m' where rest: "parse_log (drop n ?bs) = (txs', m', oc)" "txs = tx # txs'" "m = n + m'"
      using less.prems(2) parse_log_step [OF got(1)] by (cases "parse_log (drop n ?bs)") auto
    have bnd: "32 \<le> n" "n \<le> length ?bs" using parse_record_bounds [OF got(1)] by simp_all
    have "length (contents f) - unat (r_cursor ?r) < length (contents f) - unat (r_cursor r)"
      using got(5) bnd by simp
    moreover have "parse_log (drop (unat (r_cursor ?r)) (contents f)) = (txs', m', oc)"
      using rest(1) got(5) by (simp add: add.commute)
    ultimately obtain k mk oc' os'' where IH: "k \<le> length txs'" "same_disk os' os''"
      "replay_loop ?r (replay_tx tx s) os' =
        Some (oc', seek (r_cursor ?r + of_nat mk) ?r, fold replay_tx (take k txs') (replay_tx tx s), os'')"
      "unat (r_cursor ?r + of_nat mk) = unat (r_cursor ?r) + mk" "mk \<le> m'" "oc' \<noteq> Read_Ok"
      "parse_log (take mk (drop (unat (r_cursor ?r)) (contents f))) = (take k txs', mk, EndOfLog)"
      "oc' = oc \<and> mk = m' \<and> k = length txs' \<or> oc' = Truncated \<and> \<not> served_at ?r os'"
      using less.hyps [OF _ got(4), of txs' m' "replay_tx tx s"] by blast
    have loop: "replay_loop r s os = replay_loop ?r (replay_tx tx s) os'"
      using got(3) by (subst replay_loop.simps) simp
    have "take (n + mk) ?bs = take n ?bs @ take mk (drop n ?bs)" by (simp add: take_add)
    moreover have "drop n (take (n + mk) ?bs) = take mk (drop n ?bs)" using bnd by (simp add: take_add)
    ultimately have "parse_log (take (n + mk) ?bs) = (tx # take k txs', n + mk, EndOfLog)"
      using parse_log_step [of "take (n + mk) ?bs" tx n "take k txs'" mk EndOfLog] IH(7) got(5)
        parse_record_local [OF got(1)] by (simp add: add.commute)
    moreover have "served_at r os \<longrightarrow> served_at ?r os'"
      using same_diskD(8) [OF got(2)] got(4,5) bnd by (auto simp: served_at_def reading_def)
    ultimately show ?thesis
      using IH loop rest same_disk_trans [OF got(2) IH(2)] got(5)
      by (intro exI [of _ "Suc k"] exI [of _ "n + mk"] exI [of _ oc'] exI [of _ os''])
        (auto simp: add.assoc)
  qed
qed

section \<open>Replaying a log file\<close>

text \<open>What replaying \<open>f\<close> from offset \<open>c\<close> may lead to, when its valid records are \<open>txs\<close>: the first \<open>k\<close>
  of them, \<open>mk\<close> bytes, have been replayed on \<open>s\<close>. Success means that the log now ends there; on
  an error it is as before or ends there.\<close>

definition replayed ::
    "diskfile \<Rightarrow> nat \<Rightarrow> LedgerState \<Rightarrow> Transaction list \<Rightarrow> nat \<Rightarrow> nat \<Rightarrow> RecoveredState result \<Rightarrow> diskfile \<Rightarrow> bool"
where
  "replayed f c s txs k mk result f' \<longleftrightarrow>
     k \<le> length txs \<and> parse_log (take mk (drop c (contents f))) = (take k txs, mk, EndOfLog) \<and>
     (result = checked_state (fold replay_tx (take k txs) s) (of_nat (c + mk)) \<and>
        contents f' = take (c + mk) (contents f)
      \<or> (\<exists>e. result = Inl e \<and>
           (contents f' = contents f \<or> contents f' = take (c + mk) (contents f))))"

text \<open>The loop stopped inside the file, at damage or at a read that was not served: the log is cut there.\<close>

lemma replay_log_cut:
  assumes "replay_loop r s os = Some (oc, seek (r_cursor r + of_nat mk) r, s', os1)" and "oc \<noteq> EndOfLog"
    and "path_file os1 wal_path = Some f" and cur: "unat (r_cursor r + of_nat mk) = c + mk" and "c + mk \<le> length (contents f)"
    and "length (contents f) < 2 ^ 63"
  shows "\<exists>e os2 f'. replay_log wal_path r s os = Some (if e = ErrNone then checked_state s' (r_cursor r + of_nat mk) else Inl e,
      seek (r_cursor r + of_nat mk) r, os2) \<and>
    path_file os2 wal_path = Some f' \<and> names os2 = names os1 \<and> fds os2 = fds os1 \<and> later os1 os2 \<and>
    (f' = f \<or> contents f' = take (c + mk) (contents f)) \<and>
    (e = ErrNone \<longrightarrow> contents f' = take (c + mk) (contents f)) \<and> (reliable 516 os1 \<and> fresh_fds os1 \<longrightarrow> e = ErrNone)"
proof -
  have "unat (r_cursor r + of_nat mk) \<le> length (contents f)" using cur assms(5) by simp
  with assms(3) obtain e os2 f' where tr:
    "truncate_wal wal_path (r_cursor r + of_nat mk) os1 = (e, os2)" "path_file os2 wal_path = Some f'"
    "names os2 = names os1" "fds os2 = fds os1" "later os1 os2"
    "f' = f \<or> contents f' = take (c + mk) (contents f)" "e = ErrNone \<Longrightarrow> contents f' = take (c + mk) (contents f)"
    "e \<noteq> ErrNone \<Longrightarrow> \<not> (reliable 516 os1 \<and> fresh_fds os1 \<and> 0 \<le> sint (r_cursor r + of_nat mk))"
    unfolding cur [symmetric] by (rule truncate_wal_cases [where k = 516]) blast
  have "0 \<le> sint (r_cursor r + of_nat mk)" using assms(5,6) by (simp add: unat_less_half cur)
  then have "reliable 516 os1 \<and> fresh_fds os1 \<longrightarrow> e = ErrNone" using tr(8) by blast
  moreover have "replay_log wal_path r s os = Some (if e = ErrNone then checked_state s' (r_cursor r + of_nat mk) else Inl e,
      seek (r_cursor r + of_nat mk) r, os2)"
    using assms(1,2) tr(1) by (simp add: replay_log_def has_value_def Let_def)
  ultimately show ?thesis using tr(2-7) by blast
qed

lemma replay_log_outcome:
  assumes "reading r os f" and "path_file os wal_path = Some f"
    and "parse_log (drop (unat (r_cursor r)) (contents f)) = (txs, m, oc)"
    and "unat (r_cursor r) \<le> length (contents f) \<or> served_at r os"
  shows "\<exists>k mk result os' f'. replay_log wal_path r s os =
      Some (result, seek (r_cursor r + of_nat mk) r, os') \<and>
    fds os' = fds os \<and> names os' = names os \<and> later os os' \<and> path_file os' wal_path = Some f' \<and>
    replayed f (unat (r_cursor r)) s txs k mk result f' \<and>
    (served_at r os \<and> fresh_fds os \<longrightarrow> k = length txs \<and> mk = m \<and>
       result = checked_state (fold replay_tx txs s) (r_cursor r + of_nat m))"
proof -
  let ?c = "unat (r_cursor r)"
  let ?bs = "drop ?c (contents f)"
  from replay_loop_returns [OF assms(1,3), of s] obtain k mk oc' os1 where
    k: "k \<le> length txs" "mk \<le> m" and same: "same_disk os os1"
    and loop: "replay_loop r s os =
      Some (oc', seek (r_cursor r + of_nat mk) r, fold replay_tx (take k txs) s, os1)"
    and cur: "unat (r_cursor r + of_nat mk) = ?c + mk" and oc': "oc' \<noteq> Read_Ok"
    and pre: "parse_log (take mk ?bs) = (take k txs, mk, EndOfLog)"
    and why: "oc' = oc \<and> mk = m \<and> k = length txs \<or> oc' = Truncated \<and> \<not> served_at r os"
    by blast
  note sd = same_diskD [OF same]
  have lt1: "later os os1" using same by (auto simp: same_disk_def later_def)
  have valid: "of_nat (?c + mk) = r_cursor r + of_nat mk" by (simp add: add.commute)
  let ?ok = "checked_state (fold replay_tx (take k txs) s) (r_cursor r + of_nat mk)"
  note pv = parse_log_valid [OF assms(3)]
  show ?thesis
  proof (cases "oc' = EndOfLog")
    case True
    with why have all: "oc = EndOfLog" "mk = m" "k = length txs" by auto
    then have whole: "take (?c + mk) (contents f) = contents f" using pv by simp
    have "replay_log wal_path r s os = Some (?ok, seek (r_cursor r + of_nat mk) r, os1)"
      using loop True by (simp add: replay_log_def)
    moreover have "replayed f ?c s txs k mk ?ok f"
      using k pre whole by (simp add: replayed_def valid)
    ultimately show ?thesis
      using sd(2,3,7) lt1 assms(2) all by fastforce
  next
    case False
    have inside: "?c + mk \<le> length (contents f)"
    proof (cases "?c \<le> length (contents f)")
      case True
      with conjunct1 [OF pv] k(2) show ?thesis unfolding length_drop by linarith
    next
      case beyond: False
      then have "parse_log ?bs = ([], 0, EndOfLog)"
        by (intro parse_log_stop) (simp add: parse_record_end)
      with why False assms(3,4) beyond show ?thesis by auto
    qed
    have "path_file os1 wal_path = Some f" "length (contents f) < 2 ^ 63"
      using sd(7) assms(1,2) by (simp_all add: reading_def)
    from replay_log_cut [OF loop False this(1) cur inside this(2)] obtain e os2 f' where
      tr: "replay_log wal_path r s os = Some (if e = ErrNone then ?ok else Inl e, seek (r_cursor r + of_nat mk) r, os2)"
      "path_file os2 wal_path = Some f'" "names os2 = names os1" "fds os2 = fds os1" "later os1 os2"
      "f' = f \<or> contents f' = take (?c + mk) (contents f)" "e = ErrNone \<longrightarrow> contents f' = take (?c + mk) (contents f)"
      "reliable 516 os1 \<and> fresh_fds os1 \<longrightarrow> e = ErrNone" by blast
    let ?result = "if e = ErrNone then ?ok else Inl e"
    have "replayed f ?c s txs k mk ?result f'" using k pre tr(6,7) by (auto simp: replayed_def valid)
    moreover have "k = length txs \<and> mk = m \<and> ?result = checked_state (fold replay_tx txs s) (r_cursor r + of_nat m)"
      if "served_at r os" "fresh_fds os"
    proof -
      have "reliable 516 os1" "fresh_fds os1"
        using that sd(8) fresh_fds_later [OF that(2) lt1 sd(3)] by (simp_all add: served_at_def)
      then show ?thesis using tr(8) why that by auto
    qed
    ultimately show ?thesis using tr sd(2,3) later_trans [OF lt1 tr(5)] by fastforce
  qed
qed

section \<open>Recovery\<close>

lemma sys_open_missing:
  "names os path = None \<Longrightarrow> sys_open path False t a os = (-1, snd (answer os))"
  by (simp add: sys_open_def case_prod_unfold Let_def)

lemma load_snapshot_missing:
  "names os path = None \<Longrightarrow> load_snapshot path os = Some (Inl SnapshotReadFailed, snd (answer os))"
  by (simp add: load_snapshot_def sys_open_missing)

lemma reader_open_cases:
  assumes "path_file os path = Some f"
  obtains (failed) os' where "reader_open path new_reader os = (WalOpenFailed, new_reader, os')"
      "same_disk os os'" "\<not> (reliable k os \<and> fresh_fds os)"
  | (opened) fd os' where "reader_open path new_reader os =
        (ErrNone, \<lparr>r_fd = fd, r_cursor = 0, r_last_valid_offset = 0\<rparr>, os')"
      "0 \<le> fd" "fds os fd = None" "fd_file os' fd = Some f" "path_file os' path = Some f"
      "names os' = names os" "(fds os')(fd := None) = fds os" "later os os'"
      "fresh_fds os \<Longrightarrow> fresh_fds os'"
proof -
  from assms obtain i where i: "names os path = Some i" "inodes os i = Some f"
    by (auto simp: path_file_def split: option.splits)
  obtain fd os1 where o: "sys_open path False False False os = (fd, os1)"
    by (cases "sys_open path False False False os")
  have eq: "reader_open path new_reader os =
      (if fd < 0 then (WalOpenFailed, new_reader, os1)
       else (ErrNone, \<lparr>r_fd = fd, r_cursor = 0, r_last_valid_offset = 0\<rparr>, os1))"
    using o by (simp add: reader_open_def reader_close_def new_reader_def ufd_new_def ufd_reset_def)
  show thesis
  proof (cases "fd < 0")
    case True
    have "os1 = snd (answer os)" and "\<not> (reliable k os \<and> fresh_fds os)"
      using o i True reliable_script [of k os]
      by (auto simp: sys_open_def case_prod_unfold Let_def fresh_fds_def split: if_splits)
    with eq True show thesis by (intro failed [of os1]) simp_all
  next
    case False
    note o1 = sys_open_existing [OF i(1) o]
    have fds: "fds os1 = (fds os)(fd \<mapsto> \<lparr>of_inode = i, of_offset = 0, of_append = False\<rparr>)"
      "fds os fd = None" "fd = next_fd os" "next_fd os1 = fd + 1"
      using o1(6) False by auto
    have "fresh_fds os1" if "fresh_fds os"
      using that fds False by (auto simp: fresh_fds_def)
    with eq False fds o1(1,2,4,5) i show thesis
      by (intro opened [of fd os1]) (auto simp: fd_file_def path_file_def later_def)
  qed
qed

text \<open>What recovery does once the snapshot is loaded, on an existing log whose valid records behind
  the snapshot's offset are \<open>txs\<close>.\<close>

lemma recover_outcome:
  assumes load: "load_snapshot snapshot_path os = Some (loaded, os1)" "loaded \<noteq> Inl SnapshotCorrupt"
      "seeded loaded = (s0, off)" "inodes os1 = inodes os" "names os1 = names os" "fds os1 = fds os"
      "later os os1"
    and log: "path_file os wal_path = Some f" "length (contents f) + 28 < 2 ^ 63"
      "unat off \<le> length (contents f) \<or> reliable 516 os \<and> unat off + 28 < 2 ^ 63"
      "parse_log (drop (unat off) (contents f)) = (txs, m, oc)"
  shows "\<exists>result os' f'. recover wal_path snapshot_path os = Some (result, os') \<and> fds os' = fds os \<and>
    path_file os' wal_path = Some f' \<and>
    (result = (if off = 0 then checked_state s0 0 else Inl WalOpenFailed) \<and> f' = f \<and>
       \<not> (reliable 516 os \<and> fresh_fds os) \<or>
     (\<exists>k mk. replayed f (unat off) s0 txs k mk result f' \<and>
        (reliable 516 os \<and> unat off + 28 < 2 ^ 63 \<and> fresh_fds os \<longrightarrow> k = length txs \<and> mk = m \<and>
           result = checked_state (fold replay_tx txs s0) (off + of_nat m))))"
proof -
  have rel: "reliable 516 os1" if "reliable 516 os" using later_reliable [OF load(7) that] .
  have fresh: "fresh_fds os1" if "fresh_fds os" using fresh_fds_later [OF that load(7,6)] .
  have "path_file os1 wal_path = Some f"
    using log(1) path_file_cong [OF load(5,4)] by simp
  then show ?thesis
  proof (cases rule: reader_open_cases [where k = 516])
    case (failed os2)
    have "recover wal_path snapshot_path os =
        Some (if off = 0 then checked_state s0 0 else Inl WalOpenFailed, os2)"
      using load(1-3) failed(1)
      by (simp add: recover_def has_value_def new_reader_def ufd_new_def ufd_destroy_def ufd_reset_def)
    moreover have "fds os2 = fds os" and "path_file os2 wal_path = Some f"
      using same_diskD [OF failed(2)] load(6) \<open>path_file os1 wal_path = Some f\<close> by simp_all
    ultimately show ?thesis using failed(3) rel fresh by blast
  next
    case (opened fd os2)
    define r where "r = \<lparr>r_fd = fd, r_cursor = off, r_last_valid_offset = off\<rparr>"
    have cur: "r_cursor r = off" by (simp add: r_def)
    have rd: "reading r os2 f" using opened(2,4) log(2) by (simp add: reading_def r_def)
    have serve: "served_at r os2" if "reliable 516 os" "unat off + 28 < 2 ^ 63"
      using later_reliable [OF opened(8) rel [OF that(1)]] that(2) by (simp add: served_at_def cur)
    have inside: "unat (r_cursor r) \<le> length (contents f) \<or> served_at r os2"
      using log(3) serve by (auto simp: cur)
    from replay_log_outcome [OF rd opened(5) log(4) [folded cur] inside, of s0]
    obtain k mk result os3 f' where r: "replay_log wal_path r s0 os2 =
        Some (result, seek (off + of_nat mk) r, os3)" "fds os3 = fds os2" "path_file os3 wal_path = Some f'"
      "replayed f (unat off) s0 txs k mk result f'"
      "served_at r os2 \<and> fresh_fds os2 \<longrightarrow> k = length txs \<and> mk = m \<and>
         result = checked_state (fold replay_tx txs s0) (off + of_nat m)"
      unfolding cur by blast
    have "recover wal_path snapshot_path os = Some (result, ufd_destroy fd os3)"
      using load(1-3) opened(1) r(1) by (simp add: recover_def has_value_def seek_def r_def)
    moreover have "fds (ufd_destroy fd os3) = fds os"
      using opened(2,7) r(2) load(6) by (simp add: ufd_destroy_def ufd_reset_def)
    moreover have "path_file (ufd_destroy fd os3) wal_path = Some f'"
      using r(3) by (simp add: ufd_destroy_def)
    ultimately show ?thesis
      using r(4,5) serve fresh opened(9) by blast
  qed
qed

section \<open>Recovered state and engine state\<close>

text \<open>Replay depends only on a transaction's id and legs, which the log preserves.\<close>

lemma replay_tx_cong: "tx_id t = tx_id u \<Longrightarrow> tx_legs t = tx_legs u \<Longrightarrow> replay_tx t = replay_tx u"
  unfolding replay_tx_def [abs_def] apply_tx_def by (simp only:)

lemma replay_restored_log:
  assumes "\<forall>(tx, now) \<in> set rs. length (tx_legs tx) \<le> 16"
  shows "fold replay_tx (restored_log rs) s = fold replay_tx (map fst rs) s"
  using assms
proof (induction rs arbitrary: s)
  case Nil
  then show ?case by (simp add: restored_log_def)
next
  case (Cons p rs)
  obtain tx now where p: "p = (tx, now)" by (cases p)
  have "replay_tx (restored tx (tx_id tx) now) = replay_tx tx"
    using Cons.prems p by (intro replay_tx_cong) simp_all
  with Cons p show ?case by (simp add: restored_log_def)
qed

lemma last_applied_apply_tx:
  "last_applied_id (snd (apply_tx tx s)) \<le> max (last_applied_id s) (tx_id tx)"
proof -
  obtain e s' where "apply_legs (tx_legs tx) s = (e, s')" by (cases "apply_legs (tx_legs tx) s")
  moreover from this have "last_applied_id s' = last_applied_id s"
    using last_applied_apply_legs [of "tx_legs tx" s] by simp
  ultimately show ?thesis by (auto simp: apply_tx_def)
qed

text \<open>With ids that increase along the log, nothing is skipped.\<close>

definition increasing_ids :: "TransactionId \<Rightarrow> Transaction list \<Rightarrow> bool" where
  "increasing_ids i txs \<longleftrightarrow> sorted_wrt (<) (i # map tx_id txs)"

lemma replay_increasing:
  assumes "increasing_ids i txs" and "last_applied_id s \<le> i"
  shows "fold replay_tx txs s = apply_run apply_tx txs s"
  using assms
proof (induction txs arbitrary: i s)
  case Nil
  then show ?case by simp
next
  case (Cons tx txs)
  have lt: "i < tx_id tx" and rest: "increasing_ids (tx_id tx) txs"
    using Cons.prems(1) by (simp_all add: increasing_ids_def)
  have "replay_tx tx s = snd (apply_tx tx s)"
    using lt Cons.prems(2) by (simp add: replay_tx_def)
  moreover have "last_applied_id (snd (apply_tx tx s)) \<le> tx_id tx"
    using last_applied_apply_tx [of tx s] lt Cons.prems(2) by (auto simp: max_def split: if_splits)
  ultimately show ?case using Cons.IH [OF rest] by simp
qed

lemma load_written_snapshot:
  assumes "path_file os path = Some f" and "contents f = snapshot_bytes pad s off"
    and "wf_named s" and "length (accounts s) < 2 ^ 32"
    and "reliable (length (contents f)) os" and "fresh_fds os"
  obtains os' where "load_snapshot path os = Some (Inr \<lparr>snap_state = s, snap_wal_offset = off\<rparr>, os')"
    "inodes os' = inodes os" "names os' = names os" "fds os' = fds os" "later os os'"
  using assms(1)
proof (cases rule: load_snapshot_cases)
  case (unopened os')
  have False
    using unopened(3) assms(6) reliable_script [OF assms(5)] by (auto simp: fresh_fds_def)
  then show thesis ..
next
  case (loaded os' r)
  with parse_snapshot_bytes [OF assms(3,4), of pad off] assms(2,5)
  show thesis by (intro that [of os']) auto
qed

text \<open>The log as a crash leaves it: complete records and at most one torn one behind them.\<close>

definition torn_tail :: "byte list \<Rightarrow> bool" where
  "torn_tail bs \<longleftrightarrow>
     bs = [] \<or> (\<exists>tx now k. wf_tx tx \<and> k < length (record_bytes tx now) \<and> bs = take k (record_bytes tx now))"

lemma parse_log_torn:
  assumes "\<forall>(tx, now) \<in> set rs. wf_tx tx" and "torn_tail tail"
  shows "\<exists>oc. parse_log (log_bytes rs @ tail) = (restored_log rs, length (log_bytes rs), oc)"
proof -
  have "\<exists>oc. parse_record tail = Inl oc"
    using assms(2) parse_record_end [of tail] parse_torn_record length_tx_legs
    unfolding torn_tail_def by blast
  then obtain oc where "parse_log tail = ([], 0, oc)" using parse_log_stop by blast
  moreover have "\<forall>(tx, now) \<in> set rs. length (tx_legs tx) \<le> 16"
    using assms(1) by (auto intro: length_tx_legs)
  ultimately show ?thesis using parse_log_records [of rs tail "[]" 0 oc] by auto
qed

text \<open>Recovery from a written snapshot and such a log replays all its records.\<close>

lemma recover_crashed_log:
  assumes "path_file os snapshot_path = Some sf" and "contents sf = snapshot_bytes pad s0 off"
    and "wf_named s0" and "length (accounts s0) < 2 ^ 32"
    and "path_file os wal_path = Some f" and "contents f = pre @ log_bytes rs @ tail"
    and "length pre = unat off" and "length (contents f) + 28 < 2 ^ 63"
    and "\<forall>(tx, now) \<in> set rs. wf_tx tx" and "torn_tail tail"
    and "reliable (516 + 25 * length (accounts s0)) os" and "fresh_fds os"
  obtains os' f' where "recover wal_path snapshot_path os =
      Some (checked_state (fold replay_tx (map fst rs) s0) (off + of_nat (length (log_bytes rs))), os')"
    "path_file os' wal_path = Some f'"
    "has_value (validate_trial_balance (fold replay_tx (map fst rs) s0)) \<longrightarrow> contents f' = pre @ log_bytes rs"
proof -
  let ?s = "fold replay_tx (map fst rs) s0"
  have rel: "reliable 516 os" and "reliable (length (contents sf)) os"
    using reliable_mono [OF assms(11)] assms(2) by (simp_all add: length_snapshot_bytes)
  then obtain os1 where load: "load_snapshot snapshot_path os =
      Some (Inr \<lparr>snap_state = s0, snap_wal_offset = off\<rparr>, os1)"
    "inodes os1 = inodes os" "names os1 = names os" "fds os1 = fds os" "later os os1"
    using load_written_snapshot [OF assms(1-4) _ assms(12)] by blast
  have bound: "unat off \<le> length (contents f)" "unat off + 28 < 2 ^ 63"
    using assms(6-8) by simp_all
  from parse_log_torn [OF assms(9,10)] obtain oc where
    log: "parse_log (drop (unat off) (contents f)) = (restored_log rs, length (log_bytes rs), oc)"
    using assms(6,7) by auto
  have state: "fold replay_tx (restored_log rs) s0 = ?s"
    using replay_restored_log [of rs s0] assms(9) by (auto intro: length_tx_legs)
  have "seeded (Inr \<lparr>snap_state = s0, snap_wal_offset = off\<rparr>) = (s0, off)" by (simp add: seeded_def)
  from recover_outcome [OF load(1) _ this load(2-5) assms(5,8) disjI1 [OF bound(1)] log]
  obtain result os' f' k mk where r: "recover wal_path snapshot_path os = Some (result, os')"
    "path_file os' wal_path = Some f'" "replayed f (unat off) s0 (restored_log rs) k mk result f'"
    "mk = length (log_bytes rs)"
    "result = checked_state (fold replay_tx (restored_log rs) s0) (off + of_nat (length (log_bytes rs)))"
    using rel assms(12) bound(2) by auto
  show thesis
  proof (rule that)
    show "recover wal_path snapshot_path os =
        Some (checked_state ?s (off + of_nat (length (log_bytes rs))), os')" using r(1,5) by (simp add: state)
    show "path_file os' wal_path = Some f'" by (rule r(2))
    show "has_value (validate_trial_balance ?s) \<longrightarrow> contents f' = pre @ log_bytes rs"
    proof
      assume "has_value (validate_trial_balance ?s)"
      then have "result \<noteq> Inl e" for e using r(5) by (simp add: state checked_state_def)
      with r(3) have "contents f' = take (unat off + mk) (contents f)" by (auto simp: replayed_def)
      with r(4) assms(6,7) show "contents f' = pre @ log_bytes rs" by simp
    qed
  qed
qed

lemma replay_loop_total:
  assumes "0 \<le> r_fd r" and "fd_file os (r_fd r) = Some f" and "length (contents f) + 28 < 2 ^ 63"
  shows "\<exists>x. replay_loop (seek off r) s os = Some x"
proof -
  have "reading (seek off r) os f" using assms by (simp add: reading_def)
  moreover obtain txs m oc where "parse_log (drop (unat off) (contents f)) = (txs, m, oc)"
    by (cases "parse_log (drop (unat off) (contents f))")
  ultimately show ?thesis using replay_loop_returns [of "seek off r" os f txs m oc s] by auto
qed

lemma wf_fs_no_file: "wf_fs os \<Longrightarrow> path_file os p = None \<Longrightarrow> names os p = None"
  by (cases "names os p") (fastforce simp: path_file_def wf_fs_def)+

lemma load_snapshot_total:
  assumes "wf_fs os"
  obtains r os' where "load_snapshot path os = Some (r, os')" "inodes os' = inodes os" "names os' = names os"
proof (cases "path_file os path")
  case None
  with assms have "names os path = None" by (rule wf_fs_no_file)
  then show thesis using that load_snapshot_missing by simp
next
  case (Some f)
  then show thesis
  proof (cases rule: load_snapshot_cases)
    case (unopened os')
    then show thesis using that same_diskD(1,2) by blast
  next
    case (loaded os' r)
    then show thesis using that by blast
  qed
qed

section \<open>Properties\<close>


text \<open>C10. Recovery always returns: whatever the snapshot file and the log contain and whatever the
  operating system answers, the replay loop ends, no access leaves a buffer, and \<open>recover\<close> yields
  a state or an error.\<close>

theorem recovery_returns:
  assumes "wf_fs os" and "\<And>f. path_file os wal_path = Some f \<Longrightarrow> length (contents f) + 28 < 2 ^ 63"
  shows "\<exists>result os'. recover wal_path snapshot_path os = Some (result, os')"
proof -
  obtain loaded os1 where load: "load_snapshot snapshot_path os = Some (loaded, os1)"
    "inodes os1 = inodes os" "names os1 = names os"
    using assms(1) by (rule load_snapshot_total)
  have pf: "path_file os1 wal_path = path_file os wal_path"
    using path_file_cong [OF load(3,2)] by simp
  obtain s0 off where seed: "seeded loaded = (s0, off)" by (cases "seeded loaded")
  obtain e r os2 where o: "reader_open wal_path new_reader os1 = (e, r, os2)"
    by (cases "reader_open wal_path new_reader os1")
  have loop: "\<exists>x. replay_loop (seek off r) s0 os2 = Some x" if "e = ErrNone"
  proof (cases "path_file os1 wal_path")
    case None
    then have "names os1 wal_path = None"
      using wf_fs_no_file [OF assms(1)] load(3) pf by simp
    then have "e = WalOpenFailed"
      using o by (simp add: reader_open_def reader_close_def sys_open_missing ufd_reset_def
          new_reader_def ufd_new_def)
    with that show ?thesis by simp
  next
    case (Some f)
    then show ?thesis
    proof (cases rule: reader_open_cases [where k = 0])
      case (failed os')
      with o that show ?thesis by simp
    next
      case (opened fd os')
      with o have "0 \<le> r_fd r" "fd_file os2 (r_fd r) = Some f" by auto
      then show ?thesis using assms(2) [of f] pf Some by (intro replay_loop_total [of _ _ f]) simp_all
    qed
  qed
  show ?thesis
  proof (cases "e = ErrNone")
    case True
    with loop obtain oc r' s os3 where "replay_loop (seek off r) s0 os2 = Some (oc, r', s, os3)"
      by (metis prod_cases4)
    then show ?thesis
      using load(1) seed o True
      by (auto simp: recover_def replay_log_def has_value_def Let_def case_prod_unfold)
  next
    case False
    then show ?thesis using load(1) seed o by (simp add: recover_def has_value_def)
  qed
qed


text \<open>C38. Recovery trusts a failed \<open>open\<close> to mean that a file does not exist. When the operating
  system refuses every call, although snapshot and log are there, recovery reports success with
  an empty ledger and a log of length zero.\<close>

theorem unreadable_files_recover_empty:
  assumes "\<And>k. script os k < 0"
  shows "\<exists>os'. recover wal_path snapshot_path os =
    Some (Inr \<lparr>rec_state = empty_state, wal_valid_length = 0\<rparr>, os')"
proof -
  have fail: "sys_open p c t a os' = (-1, snd (answer os'))" if "script os' = script os" for p c t a os'
    using assms that by (simp add: sys_open_def case_prod_unfold Let_def)
  have "load_snapshot snapshot_path os = Some (Inl SnapshotReadFailed, snd (answer os))"
    by (simp add: load_snapshot_def fail)
  moreover have "reader_open wal_path new_reader (snd (answer os)) =
      (WalOpenFailed, new_reader, snd (answer (snd (answer os))))"
    by (simp add: reader_open_def reader_close_def fail ufd_reset_def new_reader_def ufd_new_def)
  moreover have "checked_state empty_state 0 = Inr \<lparr>rec_state = empty_state, wal_valid_length = 0\<rparr>"
    by (simp add: checked_state_def validate_trial_balance_def empty_state_def has_value_def)
  ultimately show ?thesis by (simp add: recover_def seeded_def has_value_def)
qed

text \<open>A crashed file system with a snapshot and a log.\<close>

definition crash_os :: "byte list \<Rightarrow> byte list \<Rightarrow> int \<Rightarrow> os" where
  "crash_os snap log r =
     \<lparr>inodes = [0 \<mapsto> \<lparr>contents = snap, stable = snap\<rparr>, 1 \<mapsto> \<lparr>contents = log, stable = log\<rparr>],
      next_inode = 2, names = [''snap'' \<mapsto> 0, ''wal'' \<mapsto> 1], fds = Map.empty, next_fd = 3,
      script = (\<lambda>_. r), tick = 0\<rparr>"

lemma crash_os_facts:
  "path_file (crash_os snap log r) ''snap'' = Some \<lparr>contents = snap, stable = snap\<rparr>"
  "path_file (crash_os snap log r) ''wal'' = Some \<lparr>contents = log, stable = log\<rparr>"
  "fresh_fds (crash_os snap log r)" "wf_fs (crash_os snap log r)" "reliable n (crash_os snap log (int n))"
  by (auto simp: crash_os_def path_file_def fresh_fds_def wf_fs_def reliable_def inj_on_def
      split: if_splits)

lemma example_book_facts:
  "wf_named example_book" "length (accounts example_book) = 2"
  "validate_trial_balance example_book = ErrNone"
  by (simp_all add: wf_named_def wf_state_def accounts_example_book validate_trial_balance_def
      is_debit_normal_def)

lemma length_sale_log [simp]: "length (log_bytes [(example_sale i x, t), (example_sale j y, u)]) = 166"
  by (simp add: log_bytes_def length_record_bytes)

text \<open>The book after one sale with id 2.\<close>

definition book_after :: LedgerState where
  "book_after =
     \<lparr>accounts = [(1, \<lparr>acc_id = 1, acc_type = Asset, balance = -10, overdraft_limit = 50000\<rparr>),
                  (2, \<lparr>acc_id = 2, acc_type = Revenue, balance = -10, overdraft_limit = 0\<rparr>)],
      last_applied_id = 2\<rparr>"

lemma example_book_eq:
  "example_book =
     \<lparr>accounts = [(1, \<lparr>acc_id = 1, acc_type = Asset, balance = 0, overdraft_limit = 50000\<rparr>),
                  (2, \<lparr>acc_id = 2, acc_type = Revenue, balance = 0, overdraft_limit = 0\<rparr>)],
      last_applied_id = 0\<rparr>"
  by (simp add: example_book_def add_account_def empty_state_def)

lemma apply_sale_2: "apply_tx (example_sale 2 10) example_book = (ErrNone, book_after)"
  by (simp add: apply_tx_def example_book_eq book_after_def find_account_def store_account_def
      signed_delta_def is_debit_normal_def)

lemma apply_sale_first:
  "apply_tx (example_sale 1 10) example_book = (ErrNone, book_after\<lparr>last_applied_id := 1\<rparr>)"
  by (simp add: apply_tx_def example_book_eq book_after_def find_account_def store_account_def
      signed_delta_def is_debit_normal_def)

lemma apply_sale_1:
  "map_option balance (find_account (snd (apply_tx (example_sale 1 10) book_after)) 1) = Some (-20)"
  by (simp add: apply_tx_def book_after_def find_account_def store_account_def
      signed_delta_def is_debit_normal_def)

text \<open>Two sales, logged in the order of the ids given, behind a snapshot of the initial book.\<close>

definition two_sales :: "u64 \<Rightarrow> u64 \<Rightarrow> (Transaction \<times> i64) list" where
  "two_sales i j = [(example_sale i 10, 0), (example_sale j 10, 0)]"

definition two_sales_os :: "u64 \<Rightarrow> u64 \<Rightarrow> os" where
  "two_sales_os i j = crash_os (snapshot_bytes 0 example_book 0) (log_bytes (two_sales i j)) 566"

lemma two_sales_os_facts:
  "path_file (two_sales_os i j) ''snap'' =
     Some \<lparr>contents = snapshot_bytes 0 example_book 0, stable = snapshot_bytes 0 example_book 0\<rparr>"
  "path_file (two_sales_os i j) ''wal'' =
     Some \<lparr>contents = log_bytes (two_sales i j), stable = log_bytes (two_sales i j)\<rparr>"
  "reliable 566 (two_sales_os i j)" "fresh_fds (two_sales_os i j)" "wf_fs (two_sales_os i j)"
  "length (log_bytes (two_sales i j)) = 166" "\<forall>(tx, now) \<in> set (two_sales i j). wf_tx tx"
  using crash_os_facts(5) [of 566 "snapshot_bytes 0 example_book 0" "log_bytes (two_sales i j)"]
  by (simp_all add: two_sales_os_def crash_os_facts) (simp_all add: two_sales_def)

lemma recover_two_sales:
  obtains os' where "recover ''wal'' ''snap'' (two_sales_os i j) =
    Some (checked_state (fold replay_tx (map fst (two_sales i j)) example_book) 166, os')"
  by (rule recover_crashed_log [OF two_sales_os_facts(1) _ example_book_facts(1) _ two_sales_os_facts(2),
        where pad = 0 and off = 0 and pre = "[]" and rs = "two_sales i j" and tail = "[]"])
    (simp_all add: example_book_facts two_sales_os_facts torn_tail_def)

text \<open>C37. Ids that do not increase along the log lose transactions. Ids are handed out before a
  transaction is queued, so a transaction with a smaller id may be logged after one with a larger
  id; both are admitted, applied and acknowledged, but recovery skips the second. Here two sales
  of ten units leave the cash account at minus twenty; recovery from the complete log succeeds
  with minus ten.\<close>

theorem out_of_order_id_lost:
  "admitted_run find_account apply_tx (map fst (two_sales 2 1)) example_book \<and>
   map_option balance (find_account (apply_run apply_tx (map fst (two_sales 2 1)) example_book) 1) = Some (-20) \<and>
   (\<exists>s n os'. recover ''wal'' ''snap'' (two_sales_os 2 1) =
        Some (Inr \<lparr>rec_state = s, wal_valid_length = n\<rparr>, os') \<and>
      map_option balance (find_account s 1) = Some (-10))"
proof -
  have adm: "admitted_run find_account apply_tx (map fst (two_sales 2 1)) example_book"
    using example_sale_admitted [of 2]
    by (simp add: two_sales_def apply_sale_2 admitted_iff find_account_def book_after_def balanced_shape_def
        unknown_account_def overdraws_def below_floor_def is_debit_normal_def leg_delta_def
        signed_delta_def word_sless_alt)
  have bal: "map_option balance (find_account (apply_run apply_tx (map fst (two_sales 2 1)) example_book) 1)
      = Some (-20)"
    by (simp add: two_sales_def apply_sale_2 apply_sale_1)
  have skip: "fold replay_tx (map fst (two_sales 2 1)) example_book = book_after"
    by (simp add: two_sales_def replay_tx_def apply_sale_2 book_after_def)
  have "checked_state book_after 166 = Inr \<lparr>rec_state = book_after, wal_valid_length = 166\<rparr>"
    by (simp add: checked_state_def book_after_def validate_trial_balance_def is_debit_normal_def
        has_value_def)
  with adm bal show ?thesis
    by (rule_tac recover_two_sales [of 2 1]) (simp add: skip, simp add: book_after_def find_account_def)
qed


theorem recovery_returns_witness:
  "\<exists>result os'. recover ''wal'' ''snap'' (two_sales_os 2 1) = Some (result, os')"
  by (rule recovery_returns) (simp_all add: two_sales_os_facts)


theorem unreadable_files_recover_empty_witness:
  "\<exists>os'. recover ''wal'' ''snap'' (crash_os (snapshot_bytes 0 example_book 0) (log_bytes (two_sales 1 2)) (-1)) =
    Some (Inr \<lparr>rec_state = empty_state, wal_valid_length = 0\<rparr>, os')"
  by (rule unreadable_files_recover_empty) (simp add: crash_os_def)

end
