(* ===== verification/Idempotency_Cache.thy ===== *)
theory Idempotency_Cache
  imports Ledger_Types
begin

text \<open>
  The deduplication cache (\<open>idempotency_cache.hpp\<close>, \<open>idempotency_cache.cpp\<close>): a fixed array of
  nodes threaded by 32-bit indices into a doubly linked recency list, a free list and one singly
  linked chain per hash bucket. Every index used as an array subscript is checked (\<open>None\<close> is an
  access outside a vector), and the two loops over a hash chain are partial functions, so that a
  result \<open>Some\<close> also says that they end.

  The theory shows that the pointer structure implements a bounded list of keys, most recent
  first (\<open>lru_touch\<close>); the clients of the cache are served by the locale \<open>dedup_set\<close>, which turns
  that step into a statement about whole histories of keys.
\<close>

section \<open>The data structure\<close>

type_synonym i32 = "32 word"

definition kInvalid :: i32 where
  "kInvalid = -1"

record Node =
  node_key :: IdempotencyKey
  lru_prev :: i32
  lru_next :: i32
  hash_next :: i32
  occupied :: bool

definition new_node :: Node where
  "new_node = \<lparr>node_key = IdempotencyKey 0 0, lru_prev = kInvalid, lru_next = kInvalid,
     hash_next = kInvalid, occupied = False\<rparr>"

record IdempotencyCache =
  nodes :: "Node list"
  buckets :: "i32 list"
  bucket_mask :: u64
  lru_head :: i32
  lru_tail :: i32
  free_head :: i32
  cache_size :: u64

text \<open>
  An \<open>int32_t\<close> used as a vector subscript is converted to \<open>size_t\<close>, so \<open>-1\<close> becomes the largest
  subscript.
\<close>

definition slot :: "i32 \<Rightarrow> nat" where
  "slot i = unat (scast i :: u64)"

definition get_node :: "IdempotencyCache \<Rightarrow> i32 \<Rightarrow> Node option" where
  "get_node c i = (if slot i < length (nodes c) then Some (nodes c ! slot i) else None)"

definition upd_node :: "i32 \<Rightarrow> (Node \<Rightarrow> Node) \<Rightarrow> IdempotencyCache \<Rightarrow> IdempotencyCache option" where
  "upd_node i f c =
     (if slot i < length (nodes c) then Some (c\<lparr>nodes := (nodes c)[slot i := f (nodes c ! slot i)]\<rparr>) else None)"

definition get_bucket :: "IdempotencyCache \<Rightarrow> u64 \<Rightarrow> i32 option" where
  "get_bucket c b = (if unat b < length (buckets c) then Some (buckets c ! unat b) else None)"

definition set_bucket :: "u64 \<Rightarrow> i32 \<Rightarrow> IdempotencyCache \<Rightarrow> IdempotencyCache option" where
  "set_bucket b i c =
     (if unat b < length (buckets c) then Some (c\<lparr>buckets := (buckets c)[unat b := i]\<rparr>) else None)"

section \<open>The operations\<close>

text \<open>\<open>std::bit_ceil\<close>: the least power of two that is not less; undefined above \<open>2^63\<close>.\<close>

function pow2_from :: "nat \<Rightarrow> nat \<Rightarrow> nat" where
  "pow2_from p n = (if n \<le> p \<or> p = 0 then p else pow2_from (2 * p) n)"
  by auto
termination
  by (relation "measure (\<lambda>(p, n). n - p)") auto

declare pow2_from.simps [simp del]

definition bit_ceil :: "u64 \<Rightarrow> u64 option" where
  "bit_ceil x = (if unat x \<le> 2 ^ 63 then Some (of_nat (pow2_from 1 (unat x))) else None)"

definition new_cache :: "u64 \<Rightarrow> IdempotencyCache option" where
  "new_cache requested = do {
     let capacity = max requested 1;
     let n = unat capacity;
     let ns = map (\<lambda>i. new_node\<lparr>lru_next := (if i + 1 < n then of_nat (i + 1) else kInvalid)\<rparr>) [0..<n];
     bucket_count \<leftarrow> bit_ceil (max (capacity * 2) 2);
     Some \<lparr>nodes = ns, buckets = replicate (unat bucket_count) kInvalid, bucket_mask = bucket_count - 1,
       lru_head = kInvalid, lru_tail = kInvalid, free_head = 0, cache_size = 0\<rparr>
   }"

definition cache_count :: "IdempotencyCache \<Rightarrow> u64" where
  "cache_count c = cache_size c"

definition cache_capacity :: "IdempotencyCache \<Rightarrow> nat" where
  "cache_capacity c = length (nodes c)"

definition bucket_for :: "(u64 \<Rightarrow> u64) \<Rightarrow> IdempotencyCache \<Rightarrow> IdempotencyKey \<Rightarrow> u64" where
  "bucket_for std_hash c key = IdempotencyKeyHash std_hash key AND bucket_mask c"

definition unlink_lru :: "i32 \<Rightarrow> IdempotencyCache \<Rightarrow> IdempotencyCache option" where
  "unlink_lru node_idx c = do {
     node \<leftarrow> get_node c node_idx;
     c \<leftarrow> if lru_prev node \<noteq> kInvalid
       then upd_node (lru_prev node) (\<lambda>n. n\<lparr>lru_next := lru_next node\<rparr>) c
       else Some (c\<lparr>lru_head := lru_next node\<rparr>);
     node \<leftarrow> get_node c node_idx;
     c \<leftarrow> if lru_next node \<noteq> kInvalid
       then upd_node (lru_next node) (\<lambda>n. n\<lparr>lru_prev := lru_prev node\<rparr>) c
       else Some (c\<lparr>lru_tail := lru_prev node\<rparr>);
     upd_node node_idx (\<lambda>n. n\<lparr>lru_prev := kInvalid, lru_next := kInvalid\<rparr>) c
   }"

definition push_front_lru :: "i32 \<Rightarrow> IdempotencyCache \<Rightarrow> IdempotencyCache option" where
  "push_front_lru node_idx c = do {
     c \<leftarrow> upd_node node_idx (\<lambda>n. n\<lparr>lru_prev := kInvalid, lru_next := lru_head c\<rparr>) c;
     c \<leftarrow> if lru_head c \<noteq> kInvalid
       then upd_node (lru_head c) (\<lambda>n. n\<lparr>lru_prev := node_idx\<rparr>) c
       else Some c;
     let c = c\<lparr>lru_head := node_idx\<rparr>;
     Some (if lru_tail c = kInvalid then c\<lparr>lru_tail := node_idx\<rparr> else c)
   }"

partial_function (option) remove_loop ::
    "i32 \<Rightarrow> u64 \<Rightarrow> i32 \<Rightarrow> i32 \<Rightarrow> IdempotencyCache \<Rightarrow> IdempotencyCache option"
where
  "remove_loop node_idx bucket cur prev c =
     (if cur = kInvalid then Some c
      else if cur = node_idx then do {
        node \<leftarrow> get_node c cur;
        c \<leftarrow> if prev = kInvalid then set_bucket bucket (hash_next node) c
          else upd_node prev (\<lambda>n. n\<lparr>hash_next := hash_next node\<rparr>) c;
        upd_node cur (\<lambda>n. n\<lparr>hash_next := kInvalid\<rparr>) c
      }
      else do {
        node \<leftarrow> get_node c cur;
        remove_loop node_idx bucket (hash_next node) cur c
      })"

declare remove_loop.simps [code]

definition remove_from_bucket :: "(u64 \<Rightarrow> u64) \<Rightarrow> i32 \<Rightarrow> IdempotencyCache \<Rightarrow> IdempotencyCache option" where
  "remove_from_bucket std_hash node_idx c = do {
     node \<leftarrow> get_node c node_idx;
     let bucket = bucket_for std_hash c (node_key node);
     cur \<leftarrow> get_bucket c bucket;
     remove_loop node_idx bucket cur kInvalid c
   }"

partial_function (option) find_duplicate ::
    "IdempotencyCache \<Rightarrow> IdempotencyKey \<Rightarrow> i32 \<Rightarrow> i32 option option"
where
  "find_duplicate c key cur =
     (if cur = kInvalid then Some None
      else do {
        node \<leftarrow> get_node c cur;
        if occupied node \<and> node_key node = key then Some (Some cur)
        else find_duplicate c key (hash_next node)
      })"

declare find_duplicate.simps [code]

definition take_node :: "(u64 \<Rightarrow> u64) \<Rightarrow> IdempotencyCache \<Rightarrow> (i32 \<times> IdempotencyCache) option" where
  "take_node std_hash c =
     (if free_head c \<noteq> kInvalid then do {
        let idx = free_head c;
        node \<leftarrow> get_node c idx;
        let c = c\<lparr>free_head := lru_next node\<rparr>;
        c \<leftarrow> upd_node idx (\<lambda>n. n\<lparr>lru_next := kInvalid\<rparr>) c;
        Some (idx, c\<lparr>cache_size := cache_size c + 1\<rparr>)
      }
      else do {
        let idx = lru_tail c;
        c \<leftarrow> remove_from_bucket std_hash idx c;
        c \<leftarrow> unlink_lru idx c;
        Some (idx, c)
      })"

definition check_and_insert ::
    "(u64 \<Rightarrow> u64) \<Rightarrow> IdempotencyKey \<Rightarrow> IdempotencyCache \<Rightarrow> (bool \<times> IdempotencyCache) option"
where
  "check_and_insert std_hash key c = do {
     let bucket = bucket_for std_hash c key;
     first \<leftarrow> get_bucket c bucket;
     found \<leftarrow> find_duplicate c key first;
     (case found of
        Some cur \<Rightarrow> do {
          c \<leftarrow> unlink_lru cur c;
          c \<leftarrow> push_front_lru cur c;
          Some (True, c)
        }
      | None \<Rightarrow> do {
          (idx, c) \<leftarrow> take_node std_hash c;
          first \<leftarrow> get_bucket c bucket;
          c \<leftarrow> upd_node idx (\<lambda>n. n\<lparr>node_key := key, occupied := True, hash_next := first\<rparr>) c;
          c \<leftarrow> set_bucket bucket idx c;
          c \<leftarrow> push_front_lru idx c;
          Some (False, c)
        })
   }"

section \<open>Linked lists in index arrays\<close>

text \<open>
  The columns of the node array. The index that stands for node \<open>x\<close> is \<open>ix x\<close>; a forward list from
  \<open>h\<close> runs through the nodes \<open>xs\<close> along a column of successors; a doubly linked segment has a first
  index \<open>h\<close>, a last index \<open>t\<close>, and neighbours \<open>p\<close> and \<open>n\<close> outside.
\<close>

abbreviation ix :: "nat \<Rightarrow> i32" where
  "ix x \<equiv> of_nat x"

abbreviation prevs :: "IdempotencyCache \<Rightarrow> i32 list" where
  "prevs c \<equiv> map lru_prev (nodes c)"

abbreviation nexts :: "IdempotencyCache \<Rightarrow> i32 list" where
  "nexts c \<equiv> map lru_next (nodes c)"

abbreviation hnexts :: "IdempotencyCache \<Rightarrow> i32 list" where
  "hnexts c \<equiv> map hash_next (nodes c)"

abbreviation node_keys :: "IdempotencyCache \<Rightarrow> IdempotencyKey list" where
  "node_keys c \<equiv> map node_key (nodes c)"

abbreviation occs :: "IdempotencyCache \<Rightarrow> bool list" where
  "occs c \<equiv> map occupied (nodes c)"

definition small :: "nat \<Rightarrow> bool" where
  "small n \<longleftrightarrow> n \<le> 2 ^ 31"

lemma slot_ix: "x < n \<Longrightarrow> small n \<Longrightarrow> slot (ix x) = x"
proof -
  assume "x < n" "small n"
  then have x: "x < 2 ^ 31" by (simp add: small_def)
  then have "sint (ix x) = int x"
    by (simp add: sint_uint unsigned_of_nat take_bit_nat_eq_self signed_take_bit_int_eq_self)
  then have "(scast (ix x) :: u64) = of_nat x"
    by (metis of_int_of_nat_eq of_int_sint scast_eq)
  then show ?thesis
    using x by (simp add: slot_def unsigned_of_nat take_bit_nat_eq_self)
qed

lemma ix_eq_iff: "x < n \<Longrightarrow> y < n \<Longrightarrow> small n \<Longrightarrow> ix x = ix y \<longleftrightarrow> x = y"
  using slot_ix by metis

lemma ix_valid: "x < n \<Longrightarrow> small n \<Longrightarrow> ix x \<noteq> kInvalid"
proof
  assume "x < n" "small n" "ix x = kInvalid"
  then have "x = slot kInvalid" using slot_ix by metis
  then show False using \<open>x < n\<close> \<open>small n\<close> by (simp add: slot_def kInvalid_def small_def unsigned_minus_1_eq_mask mask_eq_exp_minus_1)
qed

primrec fwd :: "i32 list \<Rightarrow> i32 \<Rightarrow> nat list \<Rightarrow> bool" where
  "fwd nx h [] \<longleftrightarrow> h = kInvalid"
| "fwd nx h (x # xs) \<longleftrightarrow> h = ix x \<and> x < length nx \<and> fwd nx (nx ! x) xs"

primrec dll :: "i32 list \<Rightarrow> i32 list \<Rightarrow> i32 \<Rightarrow> i32 \<Rightarrow> nat list \<Rightarrow> i32 \<Rightarrow> i32 \<Rightarrow> bool" where
  "dll pv nx p h [] t n \<longleftrightarrow> h = n \<and> t = p"
| "dll pv nx p h (x # xs) t n \<longleftrightarrow> h = ix x \<and> x < length nx \<and> pv ! x = p \<and> dll pv nx (ix x) (nx ! x) xs t n"

lemma fwd_cong: "fwd nx h xs \<Longrightarrow> length nx' = length nx \<Longrightarrow> (\<And>x. x \<in> set xs \<Longrightarrow> nx' ! x = nx ! x) \<Longrightarrow> fwd nx' h xs"
  by (induction xs arbitrary: h) auto

lemma fwd_bound: "fwd nx h xs \<Longrightarrow> x \<in> set xs \<Longrightarrow> x < length nx"
  by (induction xs arbitrary: h) auto

lemma fwd_frame: "fwd nx h xs \<Longrightarrow> x \<notin> set xs \<Longrightarrow> fwd (nx[x := v]) h xs"
  by (erule fwd_cong) (auto intro: nth_list_update_neq)

lemma fwd_unlink:
  "fwd nx h (a # as @ x # bs) \<Longrightarrow> distinct (a # as @ x # bs) \<Longrightarrow>
   fwd (nx[last (a # as) := nx ! x]) h (a # as @ bs)"
proof (induction as arbitrary: a h)
  case Nil
  then show ?case using fwd_frame [of nx "nx ! x" bs a "nx ! x"] by simp
next
  case (Cons y as)
  then have "fwd (nx[last (y # as) := nx ! x]) (nx ! a) (y # as @ bs)" by simp
  moreover have "last (y # as) \<noteq> a" using Cons.prems(2) last_in_set [of "y # as"] by force
  ultimately show ?case using Cons.prems by simp
qed

lemma dll_cong:
  "dll pv nx p h xs t n \<Longrightarrow> length nx' = length nx \<Longrightarrow> (\<And>x. x \<in> set xs \<Longrightarrow> nx' ! x = nx ! x) \<Longrightarrow>
   (\<And>x. x \<in> set xs \<Longrightarrow> pv' ! x = pv ! x) \<Longrightarrow> dll pv' nx' p h xs t n"
  by (induction xs arbitrary: p h) auto

lemma dll_bound: "dll pv nx p h xs t n \<Longrightarrow> x \<in> set xs \<Longrightarrow> x < length nx"
  by (induction xs arbitrary: p h) auto

lemma nth_update_other: "y \<in> A \<Longrightarrow> x \<notin> A \<Longrightarrow> xs[x := v] ! y = xs ! y"
  by (metis nth_list_update_neq)

lemma dll_frame:
  assumes "dll pv nx p h xs t n" and "x \<notin> set xs"
  shows "dll (pv[x := a]) (nx[x := b]) p h xs t n" "dll pv (nx[x := b]) p h xs t n"
    "dll (pv[x := a]) nx p h xs t n"
  by (rule dll_cong [OF assms(1)]; simp add: nth_update_other [OF _ assms(2)])+

lemma dll_ends:
  "dll pv nx p h xs t n \<Longrightarrow> h = (if xs = [] then n else ix (hd xs))"
  "dll pv nx p h xs t n \<Longrightarrow> t = (if xs = [] then p else ix (last xs))"
  by (induction xs arbitrary: p h) (auto split: if_splits)

lemma dll_append:
  "dll pv nx p h (xs @ ys) t n \<longleftrightarrow> (\<exists>t' h'. dll pv nx p h xs t' h' \<and> dll pv nx t' h' ys t n)"
  by (induction xs arbitrary: p h) auto

lemma dll_last: "dll pv nx p h (xs @ [y]) t n \<longleftrightarrow> t = ix y \<and> y < length nx \<and> nx ! y = n \<and> dll pv nx p h xs (pv ! y) (ix y)"
  by (auto simp: dll_append)

text \<open>Redirecting the two ends of a segment.\<close>

lemma dll_set_next:
  "dll pv nx p h (xs @ [y]) t n \<Longrightarrow> distinct (xs @ [y]) \<Longrightarrow> dll pv (nx[y := n']) p h (xs @ [y]) t n'"
  by (auto simp: dll_last nth_list_update elim!: dll_cong)

lemma dll_set_prev:
  "dll pv nx p h (x # xs) t n \<Longrightarrow> distinct (x # xs) \<Longrightarrow> length pv = length nx \<Longrightarrow>
   dll (pv[x := p']) nx p' h (x # xs) t n"
  by (auto simp: nth_list_update elim!: dll_cong)

section \<open>Effect of the node updates on the columns\<close>

lemma map_update_same: "f v = f (xs ! i) \<Longrightarrow> map f (xs[i := v]) = map f xs"
  by (metis list_update_beyond list_update_id map_update not_le_imp_less nth_map)

lemma get_node_ix: "x < length (nodes c) \<Longrightarrow> small (length (nodes c)) \<Longrightarrow> get_node c (ix x) = Some (nodes c ! x)"
  by (simp add: get_node_def slot_ix)

lemma upd_node_ix:
  "x < length (nodes c) \<Longrightarrow> small (length (nodes c)) \<Longrightarrow>
   upd_node (ix x) f c = Some (c\<lparr>nodes := (nodes c)[x := f (nodes c ! x)]\<rparr>)"
  by (simp add: upd_node_def slot_ix)

text \<open>
  The columns an operation may change: \<open>same_hash\<close> says that keys, occupancy, hash chains and free
  list head stay, and that successors change only on the nodes \<open>X\<close>.
\<close>

definition same_hash :: "nat set \<Rightarrow> IdempotencyCache \<Rightarrow> IdempotencyCache \<Rightarrow> bool" where
  "same_hash X c c' \<longleftrightarrow>
     hnexts c' = hnexts c \<and> node_keys c' = node_keys c \<and> occs c' = occs c \<and> buckets c' = buckets c \<and>
     bucket_mask c' = bucket_mask c \<and> free_head c' = free_head c \<and> cache_size c' = cache_size c \<and>
     (\<forall>y < length (nodes c). y \<notin> X \<longrightarrow> nexts c' ! y = nexts c ! y)"

lemma same_hash_refl [simp]: "same_hash X c c"
  by (simp add: same_hash_def)

lemma same_hash_length: "same_hash X c c' \<Longrightarrow> length (nodes c') = length (nodes c)"
  unfolding same_hash_def using map_eq_imp_length_eq by blast

lemma same_hash_trans: "same_hash X c c' \<Longrightarrow> same_hash X c' c'' \<Longrightarrow> same_hash X c c''"
  using same_hash_length [of X c c'] by (simp add: same_hash_def)

definition lru_ok :: "IdempotencyCache \<Rightarrow> nat list \<Rightarrow> bool" where
  "lru_ok c xs \<longleftrightarrow> dll (prevs c) (nexts c) kInvalid (lru_head c) xs (lru_tail c) kInvalid \<and> distinct xs"

section \<open>The recency list\<close>

lemma dll_unlink:
  assumes "dll pv nx p h (as @ x # bs) t n" and "distinct (as @ x # bs)" and "length pv = length nx"
  shows "pv ! x = (if as = [] then p else ix (last as))" "nx ! x = (if bs = [] then n else ix (hd bs))"
    "dll (if bs = [] then pv else pv[hd bs := pv ! x]) (if as = [] then nx else nx[last as := nx ! x])
       p (if as = [] then nx ! x else h) (as @ bs) (if bs = [] then pv ! x else t) n"
proof -
  have *: "pv ! x = (if as = [] then p else ix (last as)) \<and> nx ! x = (if bs = [] then n else ix (hd bs)) \<and>
    dll (if bs = [] then pv else pv[hd bs := pv ! x]) (if as = [] then nx else nx[last as := nx ! x])
       p (if as = [] then nx ! x else h) (as @ bs) (if bs = [] then pv ! x else t) n"
    using assms(1,2)
  proof (induction as arbitrary: p h)
    case Nil
    show ?case
    proof (cases bs)
      case (Cons b bs')
      with Nil show ?thesis
        using dll_set_prev [of pv nx "ix x" "nx ! x" b bs' t n p] assms(3) by simp
    qed (use Nil in simp)
  next
    case (Cons a as)
    have "dll pv nx (ix a) (nx ! a) (as @ x # bs) t n" "distinct (as @ x # bs)"
      using Cons.prems by simp_all
    note IH = Cons.IH [OF this, THEN conjunct1] Cons.IH [OF this, THEN conjunct2, THEN conjunct1]
      Cons.IH [OF this, THEN conjunct2, THEN conjunct2]
    define pv' where "pv' = (if bs = [] then pv else pv[hd bs := pv ! x])"
    have a: "h = ix a" "a < length nx" "pv ! a = p" "a \<notin> set bs" "a \<notin> set as"
      using Cons.prems by simp_all
    have "hd bs \<noteq> a" if "bs \<noteq> []" using a(4) that by (cases bs) auto
    then have pa: "pv' ! a = p" using a by (simp add: pv'_def)
    show ?case
    proof (cases "as = []")
      case True
      then have "dll pv' (nx[a := nx ! x]) (ix a) (nx ! x) bs (if bs = [] then pv ! x else t) n"
        using dll_frame(2) [OF IH(3), of a "nx ! x"] a(4) by (simp add: pv'_def)
      then show ?thesis using True IH(1,2) a pa by (simp add: pv'_def [symmetric])
    next
      case False
      then have "nx[last as := nx ! x] ! a = nx ! a" using a(5) by (metis last_in_set nth_list_update_neq)
      then show ?thesis using False IH a pa by (simp add: pv'_def [symmetric])
    qed
  qed
  then show "pv ! x = (if as = [] then p else ix (last as))" "nx ! x = (if bs = [] then n else ix (hd bs))"
    "dll (if bs = [] then pv else pv[hd bs := pv ! x]) (if as = [] then nx else nx[last as := nx ! x])
       p (if as = [] then nx ! x else h) (as @ bs) (if bs = [] then pv ! x else t) n"
    by blast+
qed

lemma unlink_lru_ok:
  assumes "lru_ok c (as @ x # bs)" and "small (length (nodes c))"
  obtains c' where "unlink_lru (ix x) c = Some c'" "lru_ok c' (as @ bs)"
    "same_hash (set (as @ x # bs)) c c'"
proof -
  let ?n = "length (nodes c)"
  have d: "dll (prevs c) (nexts c) kInvalid (lru_head c) (as @ x # bs) (lru_tail c) kInvalid"
    and dist: "distinct (as @ x # bs)"
    using assms(1) by (simp_all add: lru_ok_def)
  have len: "length (prevs c) = length (nexts c)" by simp
  note un = dll_unlink [OF d dist len]
  have bound: "y < ?n" if "y \<in> set (as @ x # bs)" for y
    using dll_bound [OF d that] by simp
  have x: "x < ?n" using bound by simp
  define l where "l = last as" define f where "f = hd bs"
  have l: "l < ?n" "l \<noteq> x" "l \<in> set as" if "as \<noteq> []"
    using that bound dist last_in_set [OF that] by (auto simp: l_def)
  have f: "f < ?n" "f \<noteq> x" "f \<in> set bs" if "bs \<noteq> []"
    using that bound dist hd_in_set [OF that] by (auto simp: f_def)
  have pv: "lru_prev (nodes c ! x) = (if as = [] then kInvalid else ix l)"
    and nx: "lru_next (nodes c ! x) = (if bs = [] then kInvalid else ix f)"
    using un(1,2) x by (simp_all add: l_def f_def)
  define c1 where "c1 = (if as = [] then c\<lparr>lru_head := lru_next (nodes c ! x)\<rparr>
    else c\<lparr>nodes := (nodes c)[l := (nodes c ! l)\<lparr>lru_next := lru_next (nodes c ! x)\<rparr>]\<rparr>)"
  define c2 where "c2 = (if bs = [] then c1\<lparr>lru_tail := lru_prev (nodes c ! x)\<rparr>
    else c1\<lparr>nodes := (nodes c1)[f := (nodes c1 ! f)\<lparr>lru_prev := lru_prev (nodes c ! x)\<rparr>]\<rparr>)"
  define c3 where "c3 = c2\<lparr>nodes := (nodes c2)[x := (nodes c2 ! x)\<lparr>lru_prev := kInvalid, lru_next := kInvalid\<rparr>]\<rparr>"
  have n1: "length (nodes c1) = ?n" "nodes c1 ! x = nodes c ! x"
    using l by (simp_all add: c1_def)
  have n2: "length (nodes c2) = ?n" using n1 by (simp add: c2_def)
  have "unlink_lru (ix x) c = Some c3"
    unfolding unlink_lru_def
    using x l f pv nx n1 n2 assms(2)
    by (simp add: get_node_ix upd_node_ix ix_valid [OF _ assms(2)] c1_def c2_def c3_def)
  moreover have "lru_ok c3 (as @ bs)"
  proof -
    have cols: "prevs c3 = (if bs = [] then prevs c else (prevs c)[f := prevs c ! x])[x := kInvalid]"
      "nexts c3 = (if as = [] then nexts c else (nexts c)[l := nexts c ! x])[x := kInvalid]"
    proof -
      have "prevs c1 = prevs c" "nexts c1 = (if as = [] then nexts c else (nexts c)[l := nexts c ! x])"
        using x by (simp_all add: c1_def map_update_same, simp add: map_update)
      moreover have "prevs c2 = (if bs = [] then prevs c1 else (prevs c1)[f := prevs c ! x])" "nexts c2 = nexts c1"
        using x by (simp add: c2_def map_update, simp add: c2_def map_update_same)
      ultimately show "prevs c3 = (if bs = [] then prevs c else (prevs c)[f := prevs c ! x])[x := kInvalid]"
        "nexts c3 = (if as = [] then nexts c else (nexts c)[l := nexts c ! x])[x := kInvalid]"
        by (simp_all add: c3_def map_update)
    qed
    have ends: "lru_head c3 = (if as = [] then nexts c ! x else lru_head c)"
      "lru_tail c3 = (if bs = [] then prevs c ! x else lru_tail c)"
      using x by (simp_all add: c1_def c2_def c3_def)
    have "dll (prevs c3) (nexts c3) kInvalid (lru_head c3) (as @ bs) (lru_tail c3) kInvalid"
      unfolding cols ends l_def f_def by (rule dll_frame(1) [OF un(3)]) (use dist in simp)
    with dist show ?thesis by (simp add: lru_ok_def)
  qed
  moreover have "same_hash (set (as @ x # bs)) c c3"
    using x l f by (simp add: same_hash_def c1_def c2_def c3_def map_update_same nth_list_update)
  ultimately show thesis by (rule that)
qed

lemma push_front_lru_ok:
  assumes "lru_ok c xs" and "small (length (nodes c))" and "x < length (nodes c)" and "x \<notin> set xs"
  obtains c' where "push_front_lru (ix x) c = Some c'" "lru_ok c' (x # xs)" "same_hash (set (x # xs)) c c'"
proof -
  let ?n = "length (nodes c)"
  have d: "dll (prevs c) (nexts c) kInvalid (lru_head c) xs (lru_tail c) kInvalid" and dist: "distinct xs"
    using assms(1) by (simp_all add: lru_ok_def)
  define f where "f = hd xs"
  have head: "lru_head c = (if xs = [] then kInvalid else ix f)"
    unfolding f_def by (rule dll_ends(1) [OF d])
  have tail: "lru_tail c = (if xs = [] then kInvalid else ix (last xs))"
    by (rule dll_ends(2) [OF d])
  have f: "f < ?n" "f \<noteq> x" if "xs \<noteq> []"
    using dll_bound [OF d hd_in_set [OF that]] hd_in_set [OF that] assms(4) by (auto simp: f_def)
  have tail': "lru_tail c \<noteq> kInvalid" if "xs \<noteq> []"
    using that tail ix_valid [OF _ assms(2)] dll_bound [OF d last_in_set [OF that]] by simp
  define c1 where "c1 = c\<lparr>nodes := (nodes c)[x := (nodes c ! x)\<lparr>lru_prev := kInvalid, lru_next := lru_head c\<rparr>]\<rparr>"
  define c2 where "c2 = (if xs = [] then c1 else c1\<lparr>nodes := (nodes c1)[f := (nodes c1 ! f)\<lparr>lru_prev := ix x\<rparr>]\<rparr>)"
  define c3 where "c3 = c2\<lparr>lru_head := ix x, lru_tail := (if xs = [] then ix x else lru_tail c)\<rparr>"
  have n1: "length (nodes c1) = ?n" "lru_head c1 = lru_head c" by (simp_all add: c1_def)
  have u1: "upd_node (ix x) (\<lambda>n. n\<lparr>lru_prev := kInvalid, lru_next := lru_head c\<rparr>) c = Some c1"
    using assms(2,3) by (simp add: upd_node_ix c1_def)
  have u2: "(if lru_head c1 \<noteq> kInvalid then upd_node (lru_head c1) (\<lambda>n. n\<lparr>lru_prev := ix x\<rparr>) c1 else Some c1) = Some c2"
  proof (cases "xs = []")
    case False
    then have "ix f \<noteq> kInvalid" using f(1) ix_valid [OF _ assms(2)] by simp
    then show ?thesis using False assms(2) f n1 head by (simp add: upd_node_ix c2_def)
  qed (simp add: n1 head c2_def)
  have "lru_tail c2 = lru_tail c" by (simp add: c2_def c1_def)
  then have u3: "(if lru_tail (c2\<lparr>lru_head := ix x\<rparr>) = kInvalid then c2\<lparr>lru_head := ix x, lru_tail := ix x\<rparr>
      else c2\<lparr>lru_head := ix x\<rparr>) = c3"
    using tail tail' by (cases "xs = []") (simp_all add: c3_def)
  have "push_front_lru (ix x) c = Some c3"
    unfolding push_front_lru_def u1 Option.bind.bind_lunit u2 Let_def u3 by (rule refl)
  moreover have "lru_ok c3 (x # xs)"
  proof -
    have nx: "nexts c3 = (nexts c)[x := lru_head c]"
      by (simp add: c1_def c2_def c3_def map_update_same) (simp add: map_update)
    have pv: "prevs c3 = (if xs = [] then (prevs c)[x := kInvalid] else (prevs c)[x := kInvalid, f := ix x])"
      by (simp add: c1_def c2_def c3_def map_update)
    have "dll (prevs c3) (nexts c3) (ix x) (lru_head c) xs (lru_tail c3) kInvalid"
    proof (cases xs)
      case Nil
      then show ?thesis using head by (simp add: c3_def)
    next
      case (Cons y ys)
      have "dll ((prevs c)[x := kInvalid, y := ix x]) ((nexts c)[x := lru_head c]) (ix x) (lru_head c) (y # ys)
          (lru_tail c) kInvalid"
        using dll_frame(1) [OF d assms(4)] dist unfolding Cons by (intro dll_set_prev) simp_all
      moreover have "f = y" "lru_tail c3 = lru_tail c" using Cons by (simp_all add: f_def c3_def)
      ultimately show ?thesis by (simp only: nx pv Cons list.distinct if_False)
    qed
    moreover have "prevs c3 ! x = kInvalid" "nexts c3 ! x = lru_head c" "x < length (nexts c3)" "lru_head c3 = ix x"
      using assms(3) f by (simp_all add: nx pv, simp_all add: c1_def c2_def c3_def)
    ultimately show ?thesis using dist assms(4) by (simp add: lru_ok_def)
  qed
  moreover have "same_hash (set (x # xs)) c c3"
    using assms(3) f by (simp add: same_hash_def c1_def c2_def c3_def map_update_same nth_list_update)
  ultimately show thesis by (rule that)
qed

section \<open>The hash chains\<close>

text \<open>
  The chain of bucket \<open>b\<close> runs through \<open>ch b\<close>, which holds exactly the nodes of \<open>S\<close> whose key hashes
  to \<open>b\<close>.
\<close>

definition node_bucket :: "(u64 \<Rightarrow> u64) \<Rightarrow> IdempotencyCache \<Rightarrow> nat \<Rightarrow> nat" where
  "node_bucket std_hash c x = unat (bucket_for std_hash c (node_keys c ! x))"

definition chains_ok :: "(u64 \<Rightarrow> u64) \<Rightarrow> IdempotencyCache \<Rightarrow> (nat \<Rightarrow> nat list) \<Rightarrow> nat set \<Rightarrow> bool" where
  "chains_ok std_hash c ch S \<longleftrightarrow>
     (\<forall>b < length (buckets c). fwd (hnexts c) (buckets c ! b) (ch b) \<and> distinct (ch b) \<and>
        set (ch b) = {x \<in> S. node_bucket std_hash c x = b})"

definition mask_ok :: "IdempotencyCache \<Rightarrow> bool" where
  "mask_ok c \<longleftrightarrow> (\<exists>m < 64. length (buckets c) = 2 ^ m \<and> bucket_mask c = 2 ^ m - 1)"

lemma bucket_for_bound:
  assumes "mask_ok c"
  shows "unat (bucket_for std_hash c key) < length (buckets c)"
proof -
  obtain m where m: "m < 64" "length (buckets c) = 2 ^ m" "bucket_mask c = 2 ^ m - 1"
    using assms by (auto simp: mask_ok_def)
  have "bucket_for std_hash c key = take_bit m (IdempotencyKeyHash std_hash key)"
    using m by (simp add: bucket_for_def take_bit_eq_mask mask_eq_exp_minus_1)
  then show ?thesis
    using m by (simp add: unsigned_take_bit_eq take_bit_nat_less_exp)
qed

lemma find_duplicate_chain:
  assumes "fwd (hnexts c) h xs" and "small (length (nodes c))"
  shows "find_duplicate c key h =
    Some (map_option ix (find (\<lambda>x. occs c ! x \<and> node_keys c ! x = key) xs))"
  using assms(1)
proof (induction xs arbitrary: h)
  case Nil
  then show ?case by (subst find_duplicate.simps) simp
next
  case (Cons x xs)
  then have h: "h = ix x" "x < length (nodes c)" "h \<noteq> kInvalid" and "fwd (hnexts c) (hnexts c ! x) xs"
    using ix_valid [OF _ assms(2)] by auto
  from this(4) have "find_duplicate c key (hnexts c ! x) =
      Some (map_option ix (find (\<lambda>x. occs c ! x \<and> node_keys c ! x = key) xs))"
    by (rule Cons.IH)
  then show ?case
    using h assms(2) by (subst find_duplicate.simps) (simp add: get_node_ix)
qed

text \<open>What the operations on the chains leave alone.\<close>

definition same_links :: "IdempotencyCache \<Rightarrow> IdempotencyCache \<Rightarrow> bool" where
  "same_links c c' \<longleftrightarrow>
     prevs c' = prevs c \<and> nexts c' = nexts c \<and> node_keys c' = node_keys c \<and> occs c' = occs c \<and>
     length (buckets c') = length (buckets c) \<and> bucket_mask c' = bucket_mask c \<and> lru_head c' = lru_head c \<and>
     lru_tail c' = lru_tail c \<and> free_head c' = free_head c \<and> cache_size c' = cache_size c"

lemma remove_loop_chain:
  assumes "fwd (hnexts c) (ix a) (a # as @ x # bs)" and "small (length (nodes c))" and "distinct (a # as @ x # bs)"
  obtains c' where "remove_loop (ix x) bucket (hnexts c ! a) (ix a) c = Some c'"
    "hnexts c' = (hnexts c)[last (a # as) := hnexts c ! x, x := kInvalid]"
    "buckets c' = buckets c" "same_links c c'"
  using assms(1,3)
proof (induction as arbitrary: a thesis)
  case Nil
  let ?c1 = "c\<lparr>nodes := (nodes c)[a := (nodes c ! a)\<lparr>hash_next := hnexts c ! x\<rparr>]\<rparr>"
  let ?c2 = "?c1\<lparr>nodes := (nodes ?c1)[x := (nodes ?c1 ! x)\<lparr>hash_next := kInvalid\<rparr>]\<rparr>"
  have b: "hnexts c ! a = ix x" "a < length (nodes c)" "x < length (nodes c)" "a \<noteq> x"
    using Nil.prems by simp_all
  then have "remove_loop (ix x) bucket (hnexts c ! a) (ix a) c = Some ?c2"
    using ix_valid [OF _ assms(2)] assms(2)
    by (subst remove_loop.simps) (simp add: get_node_ix upd_node_ix)
  then show ?case
    by (rule Nil.prems(1)) (use b in \<open>simp_all add: same_links_def map_update_same\<close>, simp add: map_update)
next
  case (Cons y as)
  have b: "hnexts c ! a = ix y" "y < length (nodes c)" "x < length (nodes c)" "y \<noteq> x"
    using Cons.prems fwd_bound [OF Cons.prems(2), of x] by auto
  have step: "remove_loop (ix x) bucket (hnexts c ! a) (ix a) c = remove_loop (ix x) bucket (hnexts c ! y) (ix y) c"
    using b ix_valid [OF _ assms(2)] ix_eq_iff [OF _ _ assms(2)] assms(2)
    by (subst remove_loop.simps) (simp add: get_node_ix)
  have rest: "fwd (hnexts c) (ix y) (y # as @ x # bs)" "distinct (y # as @ x # bs)"
    using Cons.prems(2,3) by auto
  show ?case
    by (rule Cons.IH [OF _ rest], rule Cons.prems(1)) (simp_all add: step)
qed

lemma chain_without:
  assumes "fwd nx h (as @ x # bs)" and "distinct (as @ x # bs)"
  shows "fwd ((if as = [] then nx else nx[last as := nx ! x])[x := kInvalid]) (if as = [] then nx ! x else h) (as @ bs)"
proof (cases as)
  case Nil
  then show ?thesis using assms fwd_frame [of nx "nx ! x" bs x] by simp
next
  case (Cons a as')
  then show ?thesis
    using fwd_unlink [of nx h a as' x bs] assms
      fwd_frame [of "nx[last as := nx ! x]" h "as @ bs" x kInvalid] by simp
qed

lemma remove_from_bucket_chain:
  assumes "fwd (hnexts c) (buckets c ! b) (as @ x # bs)" and "distinct (as @ x # bs)"
    and "small (length (nodes c))" and "node_bucket std_hash c x = b" and "b < length (buckets c)"
  obtains c' where "remove_from_bucket std_hash (ix x) c = Some c'" "same_links c c'"
    "hnexts c' = (if as = [] then hnexts c else (hnexts c)[last as := hnexts c ! x])[x := kInvalid]"
    "buckets c' = (if as = [] then (buckets c)[b := hnexts c ! x] else buckets c)"
proof -
  have x: "x < length (nodes c)" using fwd_bound [OF assms(1), of x] by simp
  define w where "w = bucket_for std_hash c (node_key (nodes c ! x))"
  have w: "unat w = b" using assms(4) x by (simp add: w_def node_bucket_def)
  have start: "remove_from_bucket std_hash (ix x) c = remove_loop (ix x) w (buckets c ! b) kInvalid c"
    using x assms(3,5) w by (simp add: remove_from_bucket_def get_node_ix get_bucket_def Let_def flip: w_def)
  show thesis
  proof (cases as)
    case Nil
    let ?c1 = "c\<lparr>buckets := (buckets c)[b := hnexts c ! x]\<rparr>"
    let ?c2 = "?c1\<lparr>nodes := (nodes c)[x := (nodes c ! x)\<lparr>hash_next := kInvalid\<rparr>]\<rparr>"
    have "buckets c ! b = ix x" using assms(1) Nil by simp
    then have "remove_from_bucket std_hash (ix x) c = Some ?c2"
      unfolding start using x assms(3,5) w ix_valid [OF x assms(3)]
      by (subst remove_loop.simps) (simp add: get_node_ix upd_node_ix set_bucket_def)
    then show thesis
      by (rule that) (use Nil x in \<open>simp_all add: same_links_def map_update_same\<close>, simp add: map_update)
  next
    case (Cons a as')
    have a: "buckets c ! b = ix a" "a < length (nodes c)" "a \<noteq> x" using assms(1,2) Cons by simp_all
    have "fwd (hnexts c) (ix a) (a # as' @ x # bs)" "distinct (a # as' @ x # bs)" using assms(1,2) a Cons by simp_all
    from remove_loop_chain [OF this(1) assms(3) this(2)] obtain c' where
      c': "remove_loop (ix x) w (hnexts c ! a) (ix a) c = Some c'"
      "hnexts c' = (hnexts c)[last (a # as') := hnexts c ! x, x := kInvalid]" "buckets c' = buckets c" "same_links c c'"
      by blast
    have "remove_from_bucket std_hash (ix x) c = Some c'"
      unfolding start using a x assms(3) ix_valid [OF a(2) assms(3)] ix_eq_iff [OF a(2) x assms(3)] c'(1)
      by (subst remove_loop.simps) (simp add: get_node_ix)
    then show thesis by (rule that) (use c' Cons in simp_all)
  qed
qed

lemma remove_from_bucket_ok:
  assumes "chains_ok std_hash c ch S" and "x \<in> S" and "mask_ok c" and "small (length (nodes c))"
  obtains c' where "remove_from_bucket std_hash (ix x) c = Some c'" "same_links c c'"
    "chains_ok std_hash c' (\<lambda>b. removeAll x (ch b)) (S - {x})"
proof -
  define b where "b = node_bucket std_hash c x"
  have b: "b < length (buckets c)"
    using bucket_for_bound [OF assms(3)] by (simp add: b_def node_bucket_def)
  have ch: "fwd (hnexts c) (buckets c ! b') (ch b')" "distinct (ch b')"
    "set (ch b') = {y \<in> S. node_bucket std_hash c y = b'}" if "b' < length (buckets c)" for b'
    using assms(1) that by (simp_all add: chains_ok_def)
  have "x \<in> set (ch b)" using ch(3) [OF b] assms(2) by (simp add: b_def)
  then obtain as bs where split: "ch b = as @ x # bs" by (meson split_list)
  note chb = ch(1,2) [OF b, unfolded split]
  from remove_from_bucket_chain [OF chb assms(4) b_def [symmetric] b] obtain c' where
    c': "remove_from_bucket std_hash (ix x) c = Some c'" "same_links c c'"
    "hnexts c' = (if as = [] then hnexts c else (hnexts c)[last as := hnexts c ! x])[x := kInvalid]"
    "buckets c' = (if as = [] then (buckets c)[b := hnexts c ! x] else buckets c)"
    by blast
  have nb: "node_bucket std_hash c' y = node_bucket std_hash c y" for y
    using c'(2) by (simp add: node_bucket_def bucket_for_def same_links_def)
  have "fwd (hnexts c') (buckets c' ! b') (removeAll x (ch b'))" if b': "b' < length (buckets c)" for b'
  proof (cases "b' = b")
    case True
    have "removeAll x (ch b) = as @ bs" using chb(2) by (simp add: split)
    moreover have "buckets c' ! b = (if as = [] then hnexts c ! x else buckets c ! b)"
      using c'(4) b by simp
    ultimately show ?thesis using chain_without [OF chb] True c'(3) by simp
  next
    case False
    have out: "y \<notin> set (ch b')" if "y \<in> set (ch b)" for y
      using that ch(3) [OF b] ch(3) [OF b'] False by auto
    then have "x \<notin> set (ch b')" "as \<noteq> [] \<longrightarrow> last as \<notin> set (ch b')" by (simp_all add: split)
    then show ?thesis using ch(1) [OF b'] False c'(3,4) by (simp add: fwd_frame)
  qed
  moreover have "set (removeAll x (ch b')) = {y \<in> S - {x}. node_bucket std_hash c' y = b'}"
    "distinct (removeAll x (ch b'))" if "b' < length (buckets c)" for b'
    using ch(2,3) [OF that] by (auto simp: nb distinct_removeAll)
  ultimately have "chains_ok std_hash c' (\<lambda>b. removeAll x (ch b)) (S - {x})"
    using c'(2) by (simp add: chains_ok_def same_links_def)
  with c'(1,2) show thesis by (rule that)
qed

lemma chains_ok_insert:
  assumes "chains_ok std_hash c ch S" and "x \<notin> S" and "x < length (nodes c)" and "mask_ok c"
    and b_def: "b = unat (bucket_for std_hash c key)"
    and "hnexts c' = (hnexts c)[x := buckets c ! b]" and "node_keys c' = (node_keys c)[x := key]"
    and "buckets c' = (buckets c)[b := ix x]" and "bucket_mask c' = bucket_mask c"
  shows "chains_ok std_hash c' (ch(b := x # ch b)) (insert x S)"
proof -
  have b: "b < length (buckets c)" using bucket_for_bound [OF assms(4)] by (simp add: b_def)
  have nb: "node_bucket std_hash c' y = (if y = x then b else node_bucket std_hash c y)" for y
    using assms(3) by (simp add: node_bucket_def bucket_for_def assms(6-9) b_def)
  have ch: "fwd (hnexts c) (buckets c ! b') (ch b')" "distinct (ch b')"
    "set (ch b') = {y \<in> S. node_bucket std_hash c y = b'}" if "b' < length (buckets c)" for b'
    using assms(1) that by (simp_all add: chains_ok_def)
  have fr: "fwd (hnexts c') (buckets c ! b') (ch b')" if "b' < length (buckets c)" for b'
    unfolding assms(6) by (rule fwd_frame [OF ch(1) [OF that]]) (use ch(3) [OF that] assms(2) in simp)
  have "x < length (hnexts c')" "hnexts c' ! x = buckets c ! b"
    using assms(3,6) by simp_all
  then have fw: "fwd (hnexts c') (buckets c' ! b') ((ch(b := x # ch b)) b')" if "b' < length (buckets c)" for b'
    using fr [OF that] fr [OF b] that b by (simp add: assms(8))
  have "distinct ((ch(b := x # ch b)) b') \<and>
      set ((ch(b := x # ch b)) b') = {y \<in> insert x S. node_bucket std_hash c' y = b'}"
    if "b' < length (buckets c)" for b'
    using ch(2,3) [OF that] assms(2) by (auto simp: nb)
  with fw show ?thesis by (simp add: chains_ok_def assms(8))
qed

section \<open>The invariant of the cache\<close>

text \<open>
  \<open>cache_ok std_hash c lru free ch\<close>: the recency list runs through \<open>lru\<close>, the free list through
  \<open>free\<close>, together they are all the nodes, the chains hold exactly the nodes of the recency list,
  and no two of these have the same key. \<open>cache_spare\<close> is the state between taking a node \<open>x\<close> out
  and putting it back with the new key.
\<close>

definition base_ok :: "IdempotencyCache \<Rightarrow> bool" where
  "base_ok c \<longleftrightarrow> 0 < length (nodes c) \<and> small (length (nodes c)) \<and> mask_ok c"

definition cache_ok ::
    "(u64 \<Rightarrow> u64) \<Rightarrow> IdempotencyCache \<Rightarrow> nat list \<Rightarrow> nat list \<Rightarrow> (nat \<Rightarrow> nat list) \<Rightarrow> bool"
where
  "cache_ok std_hash c lru free ch \<longleftrightarrow>
     base_ok c \<and> lru_ok c lru \<and> fwd (nexts c) (free_head c) free \<and> chains_ok std_hash c ch (set lru) \<and>
     distinct (lru @ free) \<and> set (lru @ free) = {..<length (nodes c)} \<and> (\<forall>x \<in> set lru. occs c ! x) \<and>
     distinct (map ((!) (node_keys c)) lru) \<and> cache_size c = of_nat (length lru)"

definition cache_spare ::
    "(u64 \<Rightarrow> u64) \<Rightarrow> IdempotencyCache \<Rightarrow> nat \<Rightarrow> nat list \<Rightarrow> nat list \<Rightarrow> (nat \<Rightarrow> nat list) \<Rightarrow> bool"
where
  "cache_spare std_hash c x lru free ch \<longleftrightarrow>
     base_ok c \<and> lru_ok c lru \<and> fwd (nexts c) (free_head c) free \<and> chains_ok std_hash c ch (set lru) \<and>
     distinct (x # lru @ free) \<and> set (x # lru @ free) = {..<length (nodes c)} \<and> (\<forall>x \<in> set lru. occs c ! x) \<and>
     distinct (map ((!) (node_keys c)) lru) \<and> cache_size c = of_nat (Suc (length lru))"

lemma same_hash_keeps:
  assumes "same_hash X c c'"
  shows "base_ok c \<Longrightarrow> base_ok c'" "chains_ok std_hash c ch S \<Longrightarrow> chains_ok std_hash c' ch S"
    "fwd (nexts c) h fs \<Longrightarrow> set fs \<inter> X = {} \<Longrightarrow> fwd (nexts c') h fs"
proof -
  note len = same_hash_length [OF assms]
  show "base_ok c \<Longrightarrow> base_ok c'" "chains_ok std_hash c ch S \<Longrightarrow> chains_ok std_hash c' ch S"
    using assms len
    by (simp_all add: same_hash_def base_ok_def mask_ok_def chains_ok_def node_bucket_def bucket_for_def)
  show "fwd (nexts c') h fs" if "fwd (nexts c) h fs" "set fs \<inter> X = {}"
    using that(1)
  proof (rule fwd_cong)
    fix y assume "y \<in> set fs"
    then have "y < length (nodes c)" "y \<notin> X" using fwd_bound [OF that(1)] that(2) by auto
    then show "nexts c' ! y = nexts c ! y" using assms unfolding same_hash_def by blast
  qed (simp add: len)
qed

lemma same_links_keeps:
  assumes "same_links c c'"
  shows "base_ok c \<Longrightarrow> base_ok c'" "lru_ok c xs \<Longrightarrow> lru_ok c' xs" "length (nodes c') = length (nodes c)"
proof -
  show len: "length (nodes c') = length (nodes c)"
    using assms unfolding same_links_def using map_eq_imp_length_eq by blast
  show "base_ok c \<Longrightarrow> base_ok c'" "lru_ok c xs \<Longrightarrow> lru_ok c' xs"
    using assms len by (simp_all add: same_links_def base_ok_def mask_ok_def lru_ok_def)
qed

section \<open>Refinement of the operations\<close>

lemma take_free_node:
  assumes "cache_ok std_hash c lru (x # fs) ch"
  obtains c' where "take_node std_hash c = Some (ix x, c')" "cache_spare std_hash c' x lru fs ch"
    "node_keys c' = node_keys c" "bucket_mask c' = bucket_mask c" "length (nodes c') = length (nodes c)"
proof -
  let ?n = "length (nodes c)"
  have ok: "base_ok c" "lru_ok c lru" "free_head c = ix x" "x < ?n" "fwd (nexts c) (nexts c ! x) fs"
    "chains_ok std_hash c ch (set lru)" "x \<notin> set lru" "x \<notin> set fs"
    using assms by (auto simp: cache_ok_def)
  have sm: "small ?n" using ok(1) by (simp add: base_ok_def)
  define c' where "c' = c\<lparr>nodes := (nodes c)[x := (nodes c ! x)\<lparr>lru_next := kInvalid\<rparr>],
    free_head := lru_next (nodes c ! x), cache_size := cache_size c + 1\<rparr>"
  have "take_node std_hash c = Some (ix x, c')"
    using ok(3,4) sm ix_valid [OF ok(4) sm] by (simp add: take_node_def get_node_ix upd_node_ix c'_def)
  moreover have "cache_spare std_hash c' x lru fs ch"
  proof -
    have cols: "nexts c' = (nexts c)[x := kInvalid]" by (simp add: c'_def map_update)
    have same: "prevs c' = prevs c" "hnexts c' = hnexts c" "node_keys c' = node_keys c" "occs c' = occs c"
      by (simp_all add: c'_def map_update_same)
    have fields: "lru_head c' = lru_head c" "lru_tail c' = lru_tail c" "buckets c' = buckets c"
      "bucket_mask c' = bucket_mask c" "free_head c' = nexts c ! x" "length (nodes c') = ?n"
      "cache_size c' = cache_size c + 1"
      using ok(4) by (simp_all add: c'_def)
    have "base_ok c'" using ok(1) by (simp add: base_ok_def mask_ok_def fields)
    moreover have "lru_ok c' lru"
      using ok(2) dll_frame(2) [OF _ ok(7)] unfolding lru_ok_def cols same fields by blast
    moreover have "fwd (nexts c') (free_head c') fs"
      unfolding cols fields by (rule fwd_frame [OF ok(5) ok(8)])
    moreover have "chains_ok std_hash c' ch (set lru)"
      using ok(6) unfolding chains_ok_def node_bucket_def bucket_for_def same fields .
    ultimately show ?thesis
      using assms unfolding cache_spare_def cache_ok_def same fields by simp
  qed
  ultimately show thesis
    by (rule that) (simp_all add: c'_def map_update_same)
qed

lemma evict_node:
  assumes "cache_ok std_hash c (ys @ [x]) [] ch"
  obtains c' where "take_node std_hash c = Some (ix x, c')"
    "cache_spare std_hash c' x ys [] (\<lambda>b. removeAll x (ch b))"
    "node_keys c' = node_keys c" "bucket_mask c' = bucket_mask c" "length (nodes c') = length (nodes c)"
proof -
  have ok: "base_ok c" "lru_ok c (ys @ [x])" "free_head c = kInvalid" "chains_ok std_hash c ch (set (ys @ [x]))"
    "distinct (ys @ [x])"
    using assms unfolding cache_ok_def fwd.simps append_Nil2 by blast+
  have tail: "lru_tail c = ix x" using ok(2) by (simp add: lru_ok_def dll_last)
  have b: "mask_ok c" "small (length (nodes c))" using ok(1) by (simp_all add: base_ok_def)
  obtain c1 where c1: "remove_from_bucket std_hash (ix x) c = Some c1" "same_links c c1"
    "chains_ok std_hash c1 (\<lambda>b. removeAll x (ch b)) (set (ys @ [x]) - {x})"
    by (rule remove_from_bucket_ok [OF ok(4) in_set_conv_decomp [THEN iffD2] b, of x]) blast+
  note links = same_links_keeps [OF c1(2)]
  have "lru_ok c1 (ys @ x # [])" "small (length (nodes c1))" using links ok(2) b(2) by simp_all
  then obtain c2 where c2: "unlink_lru (ix x) c1 = Some c2" "lru_ok c2 (ys @ [])"
    "same_hash (set (ys @ x # [])) c1 c2"
    by (rule unlink_lru_ok)
  have "take_node std_hash c = Some (ix x, c2)"
    by (simp add: take_node_def ok(3) tail c1(1) c2(1) Let_def)
  moreover have same: "node_keys c2 = node_keys c" "occs c2 = occs c" "free_head c2 = kInvalid"
    "cache_size c2 = cache_size c" "bucket_mask c2 = bucket_mask c" "length (nodes c2) = length (nodes c)"
    using c1(2) c2(3) ok(3) same_hash_length [OF c2(3)] links(3) by (simp_all add: same_hash_def same_links_def)
  moreover have "cache_spare std_hash c2 x ys [] (\<lambda>b. removeAll x (ch b))"
  proof -
    have "set (ys @ [x]) - {x} = set ys" using ok(5) by auto
    then have "chains_ok std_hash c2 (\<lambda>b. removeAll x (ch b)) (set ys)"
      using same_hash_keeps(2) [OF c2(3) c1(3)] by simp
    moreover have "base_ok c2" using same_hash_keeps(1) [OF c2(3)] links(1) ok(1) by blast
    ultimately show ?thesis
      using assms c2(2) unfolding cache_spare_def cache_ok_def same by (auto simp: same)
  qed
  ultimately show thesis by (intro that [of c2]) simp_all
qed

lemma insert_node:
  assumes "cache_spare std_hash c x lru free ch" and "key \<notin> set (map ((!) (node_keys c)) lru)"
    and "bucket = bucket_for std_hash c key"
  obtains first c1 c2 c' where "get_bucket c bucket = Some first"
    "upd_node (ix x) (\<lambda>n. n\<lparr>node_key := key, occupied := True, hash_next := first\<rparr>) c = Some c1"
    "set_bucket bucket (ix x) c1 = Some c2" "push_front_lru (ix x) c2 = Some c'"
    "cache_ok std_hash c' (x # lru) free (ch(unat bucket := x # ch (unat bucket)))"
    "node_keys c' = (node_keys c)[x := key]" "length (nodes c') = length (nodes c)"
proof -
  let ?n = "length (nodes c)" and ?b = "unat bucket"
  have sp: "base_ok c" "lru_ok c lru" "fwd (nexts c) (free_head c) free" "chains_ok std_hash c ch (set lru)"
    "distinct (x # lru @ free)" "set (x # lru @ free) = {..<?n}" "\<forall>y \<in> set lru. occs c ! y"
    "distinct (map ((!) (node_keys c)) lru)" "cache_size c = of_nat (Suc (length lru))"
    using assms(1) unfolding cache_spare_def by blast+
  have bo: "mask_ok c" "small ?n" using sp(1) by (simp_all add: base_ok_def)
  have x: "x < ?n" "x \<notin> set lru" "x \<notin> set free" using sp(5,6) by auto
  have b: "?b < length (buckets c)" unfolding assms(3) by (rule bucket_for_bound [OF bo(1)])
  define c1 where "c1 = c\<lparr>nodes := (nodes c)[x := (nodes c ! x)
    \<lparr>node_key := key, occupied := True, hash_next := buckets c ! ?b\<rparr>]\<rparr>"
  define c2 where "c2 = c1\<lparr>buckets := (buckets c)[?b := ix x]\<rparr>"
  have cols: "prevs c2 = prevs c" "nexts c2 = nexts c" "hnexts c2 = (hnexts c)[x := buckets c ! ?b]"
    "node_keys c2 = (node_keys c)[x := key]" "occs c2 = (occs c)[x := True]"
    by (simp_all add: c2_def c1_def map_update_same, simp_all add: map_update)
  have fields: "buckets c2 = (buckets c)[?b := ix x]" "bucket_mask c2 = bucket_mask c" "lru_head c2 = lru_head c"
    "lru_tail c2 = lru_tail c" "free_head c2 = free_head c" "cache_size c2 = cache_size c" "length (nodes c2) = ?n"
    by (simp_all add: c2_def c1_def)
  have "lru_ok c2 lru" using sp(2) unfolding lru_ok_def cols fields .
  then obtain c' where c': "push_front_lru (ix x) c2 = Some c'" "lru_ok c' (x # lru)"
    "same_hash (set (x # lru)) c2 c'"
    by (rule push_front_lru_ok) (use bo x fields in simp_all)
  note keeps = same_hash_keeps [OF c'(3)]
  have same: "node_keys c' = (node_keys c)[x := key]" "occs c' = (occs c)[x := True]" "free_head c' = free_head c"
    "cache_size c' = cache_size c" "length (nodes c') = ?n"
    using c'(3) same_hash_length [OF c'(3)] cols(4,5) fields by (simp_all add: same_hash_def)
  have "base_ok c2" using sp(1) by (simp add: base_ok_def mask_ok_def fields)
  then have "base_ok c'" by (rule keeps(1))
  moreover have "chains_ok std_hash c2 (ch(?b := x # ch ?b)) (insert x (set lru))"
    by (rule chains_ok_insert [OF sp(4) x(2,1) bo(1) _ cols(3,4) fields(1,2)]) (simp add: assms(3))
  then have "chains_ok std_hash c' (ch(?b := x # ch ?b)) (set (x # lru))"
    using keeps(2) by simp
  moreover have "fwd (nexts c') (free_head c') free"
    unfolding same using sp(3) cols(2) fields by (intro keeps(3)) (use sp(5) in auto)
  moreover have "\<forall>y \<in> set (x # lru). occs c' ! y" using sp(7) x by (simp add: same nth_list_update)
  moreover have keys: "map ((!) (node_keys c')) (x # lru) = key # map ((!) (node_keys c)) lru"
    using x by (auto simp: same nth_list_update)
  have "distinct (map ((!) (node_keys c')) (x # lru))" unfolding keys using sp(8) assms(2) by simp
  ultimately have "cache_ok std_hash c' (x # lru) free (ch(?b := x # ch ?b))"
    using c'(2) sp(5,6,9) unfolding cache_ok_def same by simp
  then show thesis
    by (intro that [of "buckets c ! ?b" c1 c2 c'])
      (use b bo x c'(1) in \<open>simp_all add: get_bucket_def upd_node_ix set_bucket_def c1_def c2_def same\<close>)
qed

text \<open>The specification: a list of at most \<open>cap\<close> keys, most recently seen first.\<close>

definition lru_touch :: "nat \<Rightarrow> 'k \<Rightarrow> 'k list \<Rightarrow> bool \<times> 'k list" where
  "lru_touch cap k ks =
     (if k \<in> set ks then (True, k # removeAll k ks)
      else (False, k # (if length ks < cap then ks else butlast ks)))"

definition cache_rel :: "(u64 \<Rightarrow> u64) \<Rightarrow> nat \<Rightarrow> IdempotencyCache \<Rightarrow> IdempotencyKey list \<Rightarrow> bool" where
  "cache_rel std_hash cap c ks \<longleftrightarrow> length (nodes c) = cap \<and>
     (\<exists>lru free ch. cache_ok std_hash c lru free ch \<and> ks = map ((!) (node_keys c)) lru)"

lemma touch_existing:
  assumes "cache_ok std_hash c (as @ x # bs) free ch"
  obtains c1 c2 where "unlink_lru (ix x) c = Some c1" "push_front_lru (ix x) c1 = Some c2"
    "cache_ok std_hash c2 (x # as @ bs) free ch" "node_keys c2 = node_keys c" "length (nodes c2) = length (nodes c)"
proof -
  let ?l = "as @ x # bs"
  have ok: "base_ok c" "lru_ok c ?l" "fwd (nexts c) (free_head c) free" "chains_ok std_hash c ch (set ?l)"
    "distinct (?l @ free)" "set (?l @ free) = {..<length (nodes c)}" "\<forall>x \<in> set ?l. occs c ! x"
    "distinct (map ((!) (node_keys c)) ?l)" "cache_size c = of_nat (length ?l)"
    using assms unfolding cache_ok_def by blast+
  have sm: "small (length (nodes c))" and x: "x < length (nodes c)" using ok(1,6) by (auto simp: base_ok_def)
  from ok(2) sm obtain c1 where c1: "unlink_lru (ix x) c = Some c1" "lru_ok c1 (as @ bs)" "same_hash (set ?l) c c1"
    by (rule unlink_lru_ok)
  note len1 = same_hash_length [OF c1(3)]
  obtain c2 where c2: "push_front_lru (ix x) c1 = Some c2" "lru_ok c2 (x # as @ bs)"
    "same_hash (set (x # as @ bs)) c1 c2"
    by (rule push_front_lru_ok [OF c1(2)]) (use sm x len1 ok(5) in auto)
  have "set (x # as @ bs) = set ?l" by auto
  then have sh: "same_hash (set ?l) c c2" using same_hash_trans [OF c1(3)] c2(3) by simp
  note keeps = same_hash_keeps [OF sh]
  have same: "node_keys c2 = node_keys c" "occs c2 = occs c" "free_head c2 = free_head c"
    "cache_size c2 = cache_size c" "length (nodes c2) = length (nodes c)"
    using sh same_hash_length [OF sh] by (simp_all add: same_hash_def)
  have "cache_ok std_hash c2 (x # as @ bs) free ch"
    unfolding cache_ok_def same
  proof (intro conjI)
    show "fwd (nexts c2) (free_head c) free" by (rule keeps(3) [OF ok(3)]) (use ok(5) in auto)
    show "chains_ok std_hash c2 ch (set (x # as @ bs))" using keeps(2) [OF ok(4)] by simp
    show "distinct (map ((!) (node_keys c)) (x # as @ bs))" using ok(8) by auto
  qed (use keeps(1) [OF ok(1)] c2(2) ok(5,6,7,9) in auto)
  with c1(1) c2(1) show thesis by (rule that) (simp_all add: same)
qed

lemma find_in_chain:
  assumes "cache_ok std_hash c lru free ch"
  obtains "key \<notin> set (map ((!) (node_keys c)) lru)"
      "do { first \<leftarrow> get_bucket c (bucket_for std_hash c key); find_duplicate c key first } = Some None"
    | x where "x \<in> set lru" "node_keys c ! x = key"
      "do { first \<leftarrow> get_bucket c (bucket_for std_hash c key); find_duplicate c key first } = Some (Some (ix x))"
proof -
  define b where "b = unat (bucket_for std_hash c key)"
  have ok: "mask_ok c" "small (length (nodes c))" "chains_ok std_hash c ch (set lru)" "\<forall>x \<in> set lru. occs c ! x"
    using assms by (simp_all add: cache_ok_def base_ok_def)
  have b: "b < length (buckets c)" unfolding b_def by (rule bucket_for_bound [OF ok(1)])
  have ch: "fwd (hnexts c) (buckets c ! b) (ch b)" "set (ch b) = {x \<in> set lru. node_bucket std_hash c x = b}"
    using ok(3) b by (simp_all add: chains_ok_def)
  have eq: "do { first \<leftarrow> get_bucket c (bucket_for std_hash c key); find_duplicate c key first } =
      Some (map_option ix (find (\<lambda>x. occs c ! x \<and> node_keys c ! x = key) (ch b)))"
    using b find_duplicate_chain [OF ch(1) ok(2)] by (simp add: get_bucket_def flip: b_def)
  have hit: "x \<in> set (ch b) \<and> occs c ! x" if "x \<in> set lru" "node_keys c ! x = key" for x
    using that ch(2) ok(4) by (simp add: node_bucket_def b_def)
  show thesis
  proof (cases "find (\<lambda>x. occs c ! x \<and> node_keys c ! x = key) (ch b)")
    case None
    then have "key \<notin> set (map ((!) (node_keys c)) lru)" using hit by (auto simp: find_None_iff)
    then show thesis using that(1) eq None by simp
  next
    case (Some x)
    then have "x \<in> set (ch b)" "node_keys c ! x = key" by (auto simp: find_Some_iff)
    then show thesis using that(2) [of x] eq Some ch(2) by simp
  qed
qed

lemma check_and_insert_alt:
  "check_and_insert std_hash key c = do {
     found \<leftarrow> do { first \<leftarrow> get_bucket c (bucket_for std_hash c key); find_duplicate c key first };
     (case found of
        Some cur \<Rightarrow> do {
          c \<leftarrow> unlink_lru cur c;
          c \<leftarrow> push_front_lru cur c;
          Some (True, c)
        }
      | None \<Rightarrow> do {
          (idx, c') \<leftarrow> take_node std_hash c;
          first \<leftarrow> get_bucket c' (bucket_for std_hash c key);
          c' \<leftarrow> upd_node idx (\<lambda>n. n\<lparr>node_key := key, occupied := True, hash_next := first\<rparr>) c';
          c' \<leftarrow> set_bucket (bucket_for std_hash c key) idx c';
          c' \<leftarrow> push_front_lru idx c';
          Some (False, c')
        })
   }"
  by (simp add: check_and_insert_def Let_def)

lemma take_any_node:
  assumes "cache_ok std_hash c lru free ch"
  obtains x c' lru' free' ch' where "take_node std_hash c = Some (ix x, c')"
    "cache_spare std_hash c' x lru' free' ch'"
    "lru' = (if length lru < length (nodes c) then lru else butlast lru)"
    "node_keys c' = node_keys c" "bucket_mask c' = bucket_mask c" "length (nodes c') = length (nodes c)"
proof -
  have all: "distinct (lru @ free)" "set (lru @ free) = {..<length (nodes c)}" "0 < length (nodes c)"
    using assms by (simp_all add: cache_ok_def base_ok_def)
  have len: "length lru + length free = length (nodes c)"
    using distinct_card [OF all(1)] unfolding all(2) by simp
  show thesis
  proof (cases free)
    case Nil
    then have "lru \<noteq> []" using len all(3) by auto
    then have "cache_ok std_hash c (butlast lru @ [last lru]) [] ch" using assms Nil by simp
    then show thesis
      by (rule evict_node) (rule that, assumption, assumption, use Nil len in simp_all)
  next
    case (Cons x fs)
    with assms have "cache_ok std_hash c lru (x # fs) ch" by simp
    then show thesis
      by (rule take_free_node) (rule that, assumption, assumption, use Cons len in simp_all)
  qed
qed

lemma check_and_insert_refines:
  assumes "cache_rel std_hash cap c ks"
  shows "\<exists>c'. check_and_insert std_hash key c = Some (fst (lru_touch cap key ks), c') \<and>
    cache_rel std_hash cap c' (snd (lru_touch cap key ks))"
proof -
  let ?k = "(!) (node_keys c)"
  obtain lru free ch where ok: "cache_ok std_hash c lru free ch" and ks: "ks = map ?k lru"
    and cap: "length (nodes c) = cap"
    using assms by (auto simp: cache_rel_def)
  from ok show ?thesis
  proof (cases rule: find_in_chain [where key = key])
    case 1
    obtain x c1 lru' free' ch' where take: "take_node std_hash c = Some (ix x, c1)"
      "cache_spare std_hash c1 x lru' free' ch'"
      "lru' = (if length lru < length (nodes c) then lru else butlast lru)"
      "node_keys c1 = node_keys c" "bucket_mask c1 = bucket_mask c" "length (nodes c1) = length (nodes c)"
      using ok by (rule take_any_node)
    have notin: "key \<notin> set (map ((!) (node_keys c1)) lru')"
      using 1(1) take(3,4) by (auto dest: in_set_butlastD)
    have bk: "bucket_for std_hash c key = bucket_for std_hash c1 key" using take(5) by (simp add: bucket_for_def)
    from insert_node [OF take(2) notin bk] obtain first c2 c3 c4 b where
      ins: "get_bucket c1 (bucket_for std_hash c key) = Some first"
      "upd_node (ix x) (\<lambda>n. n\<lparr>node_key := key, occupied := True, hash_next := first\<rparr>) c1 = Some c2"
      "set_bucket (bucket_for std_hash c key) (ix x) c2 = Some c3" "push_front_lru (ix x) c3 = Some c4"
      "cache_ok std_hash c4 (x # lru') free' b" "node_keys c4 = (node_keys c1)[x := key]"
      "length (nodes c4) = length (nodes c1)"
      by metis
    have "check_and_insert std_hash key c = Some (False, c4)"
      unfolding check_and_insert_alt 1(2) by (simp add: take(1) ins(1-4))
    moreover have "x \<notin> set lru'" "x < length (nodes c)" using take(2,6) by (auto simp: cache_spare_def)
    then have "map ((!) (node_keys c4)) (x # lru') = key # map ?k lru'"
      using ins(6) take(4) by (auto simp: nth_list_update)
    then have "cache_rel std_hash cap c4 (key # map ?k lru')"
      unfolding cache_rel_def using ins(5,7) take(6) cap by metis
    moreover have "lru_touch cap key ks = (False, key # map ?k lru')"
      using 1(1) take(3) by (simp add: lru_touch_def ks cap map_butlast)
    ultimately show ?thesis by simp
  next
    case (2 x)
    obtain as bs where split: "lru = as @ x # bs" using 2(1) by (meson split_list)
    then obtain c1 c2 where c: "unlink_lru (ix x) c = Some c1" "push_front_lru (ix x) c1 = Some c2"
      "cache_ok std_hash c2 (x # as @ bs) free ch" "node_keys c2 = node_keys c" "length (nodes c2) = length (nodes c)"
      using touch_existing ok by blast
    have "check_and_insert std_hash key c = Some (True, c2)"
      unfolding check_and_insert_alt 2(3) by (simp add: c(1,2))
    moreover have "distinct (map ?k lru)" using ok by (simp add: cache_ok_def)
    then have "lru_touch cap key ks = (True, map ?k (x # as @ bs))"
      using 2(2) by (auto simp: lru_touch_def ks split)
    moreover have "cache_rel std_hash cap c2 (map ?k (x # as @ bs))"
      unfolding cache_rel_def using c(3-5) cap by metis
    ultimately show ?thesis by simp
  qed
qed

lemma cache_rel_pos: "cache_rel std_hash cap c ks \<Longrightarrow> 0 < cap"
  by (auto simp: cache_rel_def cache_ok_def base_ok_def)

section \<open>The constructor\<close>

lemma pow2_from_bounds:
  "p = 2 ^ i \<Longrightarrow> \<exists>j. pow2_from p n = 2 ^ j \<and> n \<le> pow2_from p n \<and> pow2_from p n \<le> max p (2 * n)"
proof (induction p n arbitrary: i rule: pow2_from.induct)
  case (1 p n)
  show ?case
  proof (cases "n \<le> p")
    case True
    then show ?thesis using 1(2) by (subst (1 2 3) pow2_from.simps) auto
  next
    case False
    have step: "pow2_from p n = pow2_from (2 * p) n"
      using False 1(2) by (subst pow2_from.simps) simp
    have "2 * p = 2 ^ Suc i" "\<not> (n \<le> p \<or> p = 0)" using 1(2) False by simp_all
    then have "\<exists>j. pow2_from (2 * p) n = 2 ^ j \<and> n \<le> pow2_from (2 * p) n \<and> pow2_from (2 * p) n \<le> max (2 * p) (2 * n)"
      by (intro 1(1))
    then show ?thesis unfolding step using False by fastforce
  qed
qed

lemma fwd_upt:
  assumes "\<And>i. i < n \<Longrightarrow> nx ! i = (if i + 1 < n then ix (i + 1) else kInvalid)" and "length nx = n"
  shows "i \<le> n \<Longrightarrow> fwd nx (if i < n then ix i else kInvalid) [i..<n]"
proof (induction "n - i" arbitrary: i)
  case 0
  then show ?case by simp
next
  case (Suc k)
  then have i: "i < n" "k = n - Suc i" "Suc i \<le> n" by simp_all
  have nxt: "nx ! i = (if Suc i < n then ix (Suc i) else kInvalid)" using assms(1) [OF i(1)] by simp
  have "fwd nx (nx ! i) [Suc i..<n]" unfolding nxt by (rule Suc.hyps(1) [OF i(2,3)])
  then show ?case using i(1) assms(2) by (simp only: upt_conv_Cons fwd.simps if_True simp_thms)
qed

lemma new_cache_rel:
  assumes "unat requested \<le> 2 ^ 31"
  obtains c where "new_cache requested = Some c" "cache_rel std_hash (max 1 (unat requested)) c []"
proof -
  define n where "n = unat (max requested 1)"
  have n: "n = max 1 (unat requested)" "0 < n" "n \<le> 2 ^ 31" and ns: "small n"
    using assms by (simp_all add: n_def max_def word_le_nat_alt small_def)
  define k where "k = unat (max (max requested 1 * 2) 2)"
  have "unat (max requested 1 * 2) = 2 * n" using n(3) unfolding n_def by (simp add: unat_word_ariths)
  then have k: "k = 2 * n" using n(2) by (simp add: k_def max_def word_le_nat_alt)
  obtain m where m: "pow2_from 1 k = 2 ^ m" "k \<le> 2 ^ m" "2 ^ m \<le> 2 * k"
    using pow2_from_bounds [of 1 0 k] k n(2) by auto
  have "(2::nat) ^ m \<le> 2 ^ 33" using m(3) k n(3) by simp
  then have "m \<le> 33" by (rule power_le_imp_le_exp [rotated]) simp
  then have m64: "m < 64" by simp
  then have pow: "(2::nat) ^ m < 2 ^ 64" by (rule power_strict_increasing) simp
  define bc where "bc = (of_nat (2 ^ m) :: u64)"
  have bc: "bit_ceil (max (max requested 1 * 2) 2) = Some bc" "unat bc = 2 ^ m" "bc = 2 ^ m"
  proof -
    have "k \<le> 2 ^ 63" using k n(3) by simp
    then show "bit_ceil (max (max requested 1 * 2) 2) = Some bc"
      unfolding bit_ceil_def k_def [symmetric] m(1) bc_def by simp
    show "unat bc = 2 ^ m" unfolding bc_def unsigned_of_nat using m64 pow by (simp add: take_bit_nat_eq_self)
    show "bc = 2 ^ m" by (simp add: bc_def)
  qed
  define c where "c = \<lparr>nodes = map (\<lambda>i. new_node\<lparr>lru_next := (if i + 1 < n then of_nat (i + 1) else kInvalid)\<rparr>) [0..<n],
    buckets = replicate (2 ^ m) kInvalid, bucket_mask = bc - 1, lru_head = kInvalid, lru_tail = kInvalid,
    free_head = 0, cache_size = 0\<rparr>"
  have "new_cache requested = Some c"
    unfolding new_cache_def Let_def n_def [symmetric] bc(1) c_def by (simp add: bc(2))
  moreover have "cache_ok std_hash c [] [0..<n] (\<lambda>_. [])"
  proof -
    have "fwd (nexts c) (if 0 < n then ix 0 else kInvalid) [0..<n]"
      by (rule fwd_upt) (simp_all add: c_def)
    then have "fwd (nexts c) (free_head c) [0..<n]" using n(2) by (simp add: c_def)
    moreover have "base_ok c" using n(2) ns m64 bc(3) by (auto simp: base_ok_def mask_ok_def c_def)
    moreover have "chains_ok std_hash c (\<lambda>_. []) {}" by (simp add: chains_ok_def c_def)
    moreover have "length (nodes c) = n" "lru_head c = kInvalid" "lru_tail c = kInvalid" "cache_size c = 0"
      by (simp_all add: c_def)
    ultimately show ?thesis by (simp add: cache_ok_def lru_ok_def atLeast0LessThan)
  qed
  then have "cache_rel std_hash n c []"
    unfolding cache_rel_def by (intro conjI exI) (simp_all add: c_def)
  ultimately show thesis unfolding n(1) by (rule that)
qed

section \<open>Histories\<close>

text \<open>
  \<open>recent cap hs\<close>: the last \<open>cap\<close> distinct keys of a history, most recent first. One step of the
  specification moves from the window of \<open>hs\<close> to the window of \<open>hs @ [k]\<close>.
\<close>

definition recent :: "nat \<Rightarrow> 'k list \<Rightarrow> 'k list" where
  "recent cap hs = take cap (rev (remdups hs))"

lemma remdups_snoc: "remdups (hs @ [k]) = removeAll k (remdups hs) @ [k]"
  by (induction hs) auto

lemma take_removeAll_outside:
  assumes "k \<notin> set (take cap xs)" and "n \<le> cap"
  shows "take n (removeAll k xs) = take n xs"
proof -
  have "removeAll k xs = take cap xs @ removeAll k (drop cap xs)"
    using assms(1) by (metis append_take_drop_id removeAll_append removeAll_id)
  then show ?thesis
  proof (cases "n \<le> length (take cap xs)")
    case False
    then have "length xs < n" using assms(2) by simp
    then show ?thesis using assms by simp
  qed (use assms(2) in \<open>simp add: take_append min_def\<close>)
qed

lemma removeAll_take_inside:
  assumes "distinct xs" and "k \<in> set (take cap xs)"
  shows "removeAll k (take cap xs) = take (cap - 1) (removeAll k xs)"
proof -
  obtain as bs where split: "take cap xs = as @ k # bs" using assms(2) by (meson split_list)
  let ?d = "drop cap xs"
  have xs: "xs = as @ k # bs @ ?d" using append_take_drop_id [of cap xs] split by simp
  have k: "k \<notin> set as" "k \<notin> set bs" "k \<notin> set ?d"
    using assms(1) by (subst (asm) xs, simp)+
  have "take (cap - 1) (as @ bs @ ?d) = as @ bs"
  proof (cases "cap \<le> length xs")
    case True
    then have "length as + length bs + 1 = cap" using arg_cong [OF split, of length] by simp
    then show ?thesis by simp
  next
    case False
    then have "?d = []" "length (as @ bs) \<le> cap - 1" using arg_cong [OF split, of length] by auto
    then show ?thesis by simp
  qed
  moreover have "removeAll k xs = as @ bs @ ?d" using k by (subst xs) simp
  ultimately show ?thesis using k split by simp
qed

lemma lru_touch_recent:
  assumes "0 < cap"
  shows "lru_touch cap k (recent cap hs) = (k \<in> set (recent cap hs), recent cap (hs @ [k]))"
proof -
  define xs where "xs = rev (remdups hs)"
  have xs: "distinct xs" "recent cap hs = take cap xs" "recent cap (hs @ [k]) = k # take (cap - 1) (removeAll k xs)"
    using assms by (simp_all add: xs_def recent_def remdups_snoc removeAll_filter_not_eq rev_filter take_Cons')
  show ?thesis
  proof (cases "k \<in> set (take cap xs)")
    case True
    then show ?thesis unfolding xs(2,3) lru_touch_def using removeAll_take_inside [OF xs(1) True] by simp
  next
    case False
    have "(if length (take cap xs) < cap then take cap xs else butlast (take cap xs)) = take (cap - 1) xs"
      by (auto simp: butlast_take)
    then show ?thesis
      using False unfolding xs(2,3) lru_touch_def take_removeAll_outside [OF False diff_le_self] by simp
  qed
qed

text \<open>The meaning of the window: a key is in it if fewer than \<open>cap\<close> other keys were seen since.\<close>

lemma recent_iff:
  assumes "k \<notin> set t"
  shows "k \<in> set (recent cap (hs @ k # t)) \<longleftrightarrow> card (set t) < cap"
proof -
  have "\<exists>as. remdups (hs @ k # t) = as @ k # remdups t"
    using assms by (induction hs) auto
  then obtain as where r: "rev (remdups (hs @ k # t)) = rev (remdups t) @ k # as" by force
  have "k \<in> set (take cap (xs @ k # ys)) \<longleftrightarrow> length xs < cap" if "k \<notin> set xs" for xs ys :: "'a list"
    using that by (auto simp: take_Cons' dest: in_set_takeD)
  from this [of "rev (remdups t)"] show ?thesis
    unfolding recent_def r using assms by (simp add: length_remdups_card_conv)
qed

primrec check_all :: "('k \<Rightarrow> 'c \<Rightarrow> (bool \<times> 'c) option) \<Rightarrow> 'k list \<Rightarrow> 'c \<Rightarrow> (bool list \<times> 'c) option" where
  "check_all check [] c = Some ([], c)"
| "check_all check (k # ks) c = do {
     (seen, c) \<leftarrow> check k c;
     (answers, c) \<leftarrow> check_all check ks c;
     Some (seen # answers, c)
   }"

text \<open>What a client of the cache may rely on.\<close>

locale dedup_set =
  fixes rel :: "'c \<Rightarrow> 'k list \<Rightarrow> bool" and check :: "'k \<Rightarrow> 'c \<Rightarrow> (bool \<times> 'c) option" and cap :: nat
  assumes check_step: "rel c ks \<Longrightarrow>
      \<exists>c'. check k c = Some (fst (lru_touch cap k ks), c') \<and> rel c' (snd (lru_touch cap k ks))"
    and room: "rel c ks \<Longrightarrow> 0 < cap"
begin

lemma check_recent:
  assumes "rel c (recent cap hs)"
  obtains c' where "check k c = Some (k \<in> set (recent cap hs), c')" "rel c' (recent cap (hs @ [k]))"
  using check_step [OF assms, of k] lru_touch_recent [OF room [OF assms], of k hs] by auto

lemma check_all_recent:
  assumes "rel c (recent cap hs)"
  shows "\<exists>c'. check_all check ks c =
      Some (map (\<lambda>i. ks ! i \<in> set (recent cap (hs @ take i ks))) [0..<length ks], c') \<and>
    rel c' (recent cap (hs @ ks))"
  using assms
proof (induction ks arbitrary: c hs)
  case Nil
  then show ?case by simp
next
  case (Cons k ks)
  obtain c1 where c1: "check k c = Some (k \<in> set (recent cap hs), c1)" "rel c1 (recent cap (hs @ [k]))"
    using Cons.prems by (rule check_recent)
  obtain c2 where c2: "check_all check ks c1 =
      Some (map (\<lambda>i. ks ! i \<in> set (recent cap ((hs @ [k]) @ take i ks))) [0..<length ks], c2)"
    "rel c2 (recent cap ((hs @ [k]) @ ks))"
    using Cons.IH [OF c1(2)] by blast
  have "map (\<lambda>i. (k # ks) ! i \<in> set (recent cap (hs @ take i (k # ks)))) [0..<length (k # ks)] =
      (k \<in> set (recent cap hs)) # map (\<lambda>i. ks ! i \<in> set (recent cap ((hs @ [k]) @ take i ks))) [0..<length ks]"
    by (simp add: map_upt_Suc del: upt_Suc)
  then show ?case using c1(1) c2 by simp
qed

end

interpretation seen_keys: dedup_set "cache_rel std_hash cap" "check_and_insert std_hash" cap
  for std_hash cap
  by unfold_locales (simp_all add: check_and_insert_refines cache_rel_pos)

section \<open>Properties\<close>

text \<open>C15. The index-linked cache is a bounded LRU set. Whatever the hash function does, a fresh cache
  answers every key of every sequence of calls with "duplicate" exactly when the key is among the
  last \<open>capacity\<close> distinct keys seen so far. No index leaves an array, and the two loops over a hash
  chain end, on every call.\<close>

theorem cache_answers_from_history:
  assumes "unat capacity \<le> 2 ^ 31"
  shows "\<exists>c c'. new_cache capacity = Some c \<and>
    check_all (check_and_insert std_hash) keys c =
      Some (map (\<lambda>i. keys ! i \<in> set (recent (max 1 (unat capacity)) (take i keys))) [0..<length keys], c')"
proof -
  obtain c where c: "new_cache capacity = Some c" "cache_rel std_hash (max 1 (unat capacity)) c []"
    using assms by (rule new_cache_rel)
  then show ?thesis
    using seen_keys.check_all_recent [of std_hash "max 1 (unat capacity)" c "[]" keys] by (auto simp: recent_def)
qed

theorem cache_answers_from_history_witness:
  "\<exists>c c'. new_cache 2 = Some c \<and>
    check_all (check_and_insert (\<lambda>w. w)) [IdempotencyKey 1 1, IdempotencyKey 1 1, IdempotencyKey 2 2] c =
      Some ([False, True, False], c')"
  using cache_answers_from_history
    [of 2 "\<lambda>w. w" "[IdempotencyKey 1 1, IdempotencyKey 1 1, IdempotencyKey 2 2]"]
  by (simp add: recent_def upt_rec)

text \<open>The window in which a repeated key is caught. After any history, a key that comes again is
  reported as a duplicate exactly if fewer than \<open>capacity\<close> distinct other keys came in between; after
  more of them it has been evicted and is accepted once more.\<close>

theorem duplicate_window:
  assumes "unat capacity \<le> 2 ^ 31" and "key \<notin> set between"
  shows "\<exists>c c' answers c''. new_cache capacity = Some c \<and>
    check_all (check_and_insert std_hash) (before @ key # between) c = Some (answers, c') \<and>
    check_and_insert std_hash key c' = Some (card (set between) < max 1 (unat capacity), c'')"
proof -
  let ?cap = "max 1 (unat capacity)"
  obtain c where c: "new_cache capacity = Some c" "cache_rel std_hash ?cap c []"
    using assms(1) by (rule new_cache_rel)
  then have "cache_rel std_hash ?cap c (recent ?cap [])" by (simp add: recent_def)
  from seen_keys.check_all_recent [OF this, of "before @ key # between"] obtain answers c' where
    c': "check_all (check_and_insert std_hash) (before @ key # between) c = Some (answers, c')"
    "cache_rel std_hash ?cap c' (recent ?cap (before @ key # between))"
    by auto
  from c'(2) obtain c'' where
    "check_and_insert std_hash key c' = Some (key \<in> set (recent ?cap (before @ key # between)), c'')"
    by (rule seen_keys.check_recent)
  with c(1) c'(1) show ?thesis by (auto simp: recent_iff [OF assms(2)])
qed

theorem duplicate_window_witness:
  "\<exists>c c' answers c''. new_cache 1 = Some c \<and>
    check_all (check_and_insert (\<lambda>w. w)) ([] @ IdempotencyKey 1 1 # [IdempotencyKey 2 2]) c = Some (answers, c') \<and>
    check_and_insert (\<lambda>w. w) (IdempotencyKey 1 1) c' = Some (False, c'')"
  using duplicate_window [of 1 "IdempotencyKey 1 1" "[IdempotencyKey 2 2]" "\<lambda>w. w" "[]"] by simp

end
