(* ===== verification/Ring_Buffer.thy ===== *)
theory Ring_Buffer
  imports Prelude "HOL-Library.Transitive_Closure_Table"
begin

text \<open>
  The bounded multi-producer single-consumer queue (\<open>ring_buffer.hpp\<close>). The first part has the
  operations as they run undisturbed, with 64-bit positions and sequence numbers and the signed
  difference that C++ leaves undefined on overflow (\<open>None\<close>); they refine a bounded FIFO list. The
  second part is the queue under concurrency: every access to a shared variable is one step of a
  transition system with any number of producers and one consumer, interleaved in any order
  (sequentially consistent interleaving; \<open>Ring_Weak\<close> adds the memory orders and shows that they are
  enough). Its invariant gives FIFO delivery, the capacity bound and exclusive access to the cells.
\<close>

section \<open>State and operations\<close>

record 'a Cell =
  sequence :: u64
  cell_data :: 'a

record 'a MpscRingBuffer =
  ring_mask :: u64
  buffer :: "'a Cell list"
  enqueue_pos :: u64
  dequeue_pos :: u64

definition new_ring :: "u64 \<Rightarrow> 'a \<Rightarrow> 'a MpscRingBuffer" where
  "new_ring capacity_pow2 init =
     \<lparr>ring_mask = capacity_pow2 - 1,
      buffer = map (\<lambda>i. \<lparr>sequence = of_nat i, cell_data = init\<rparr>) [0..<unat capacity_pow2],
      enqueue_pos = 0, dequeue_pos = 0\<rparr>"

text \<open>The subscript of a position, and access to its cell; outside the vector is undefined.\<close>

definition cell_of :: "u64 \<Rightarrow> 'a MpscRingBuffer \<Rightarrow> nat" where
  "cell_of pos r = unat (pos AND ring_mask r)"

definition get_cell :: "u64 \<Rightarrow> 'a MpscRingBuffer \<Rightarrow> 'a Cell option" where
  "get_cell pos r = (if cell_of pos r < length (buffer r) then Some (buffer r ! cell_of pos r) else None)"

definition upd_cell :: "u64 \<Rightarrow> ('a Cell \<Rightarrow> 'a Cell) \<Rightarrow> 'a MpscRingBuffer \<Rightarrow> 'a MpscRingBuffer" where
  "upd_cell pos f r = r\<lparr>buffer := (buffer r)[cell_of pos r := f (buffer r ! cell_of pos r)]\<rparr>"

text \<open>\<open>static_cast<intptr_t>(seq) - static_cast<intptr_t>(pos)\<close>; signed overflow is undefined.\<close>

definition seq_diff :: "u64 \<Rightarrow> u64 \<Rightarrow> int option" where
  "seq_diff seq pos = (if in_i64 (sint seq - sint pos) then Some (sint seq - sint pos) else None)"

text \<open>
  \<open>weak\<close> counts the spurious failures of \<open>compare_exchange_weak\<close> still to come. Run undisturbed,
  the loop of \<open>try_push\<close> sees its own stores only.
\<close>

partial_function (option) push_loop ::
    "nat \<Rightarrow> 'a \<Rightarrow> u64 \<Rightarrow> 'a MpscRingBuffer \<Rightarrow> (bool \<times> 'a MpscRingBuffer) option"
where
  "push_loop weak item pos r = do {
     cell \<leftarrow> get_cell pos r;
     diff \<leftarrow> seq_diff (sequence cell) pos;
     if diff = 0 then
       (if enqueue_pos r = pos \<and> weak = 0
        then Some (True,
          upd_cell pos (\<lambda>c. c\<lparr>sequence := pos + 1\<rparr>)
            (upd_cell pos (\<lambda>c. c\<lparr>cell_data := item\<rparr>) (r\<lparr>enqueue_pos := pos + 1\<rparr>)))
        else push_loop (weak - 1) item (enqueue_pos r) r)
     else if diff < 0 then Some (False, r)
     else push_loop weak item (enqueue_pos r) r
   }"

declare push_loop.simps [code]

definition try_push :: "nat \<Rightarrow> 'a \<Rightarrow> 'a MpscRingBuffer \<Rightarrow> (bool \<times> 'a MpscRingBuffer) option" where
  "try_push weak item r = push_loop weak item (enqueue_pos r) r"

definition try_pop :: "'a MpscRingBuffer \<Rightarrow> ('a option \<times> 'a MpscRingBuffer) option" where
  "try_pop r = do {
     cell \<leftarrow> get_cell (dequeue_pos r) r;
     diff \<leftarrow> seq_diff (sequence cell) (dequeue_pos r + 1);
     if diff \<noteq> 0 then Some (None, r)
     else Some (Some (cell_data cell),
       (upd_cell (dequeue_pos r) (\<lambda>c. c\<lparr>sequence := dequeue_pos r + ring_mask r + 1\<rparr>) r)
         \<lparr>dequeue_pos := dequeue_pos r + 1\<rparr>)
   }"

section \<open>Positions\<close>

text \<open>
  A power-of-two capacity between 2 and \<open>2^62\<close>; positions are natural numbers below \<open>2^63\<close>, in
  words.
\<close>

definition ring_shape :: "nat \<Rightarrow> 'a MpscRingBuffer \<Rightarrow> bool" where
  "ring_shape cap r \<longleftrightarrow> (\<exists>m. 0 < m \<and> m < 63 \<and> cap = 2 ^ m) \<and> length (buffer r) = cap \<and> ring_mask r = of_nat (cap - 1)"

lemma ring_shape_cap: "ring_shape cap r \<Longrightarrow> 2 \<le> cap"
  unfolding ring_shape_def using power_increasing [of 1 _ "2 :: nat"] by fastforce

lemma cell_of_pos: "ring_shape cap r \<Longrightarrow> cell_of (of_nat p) r = p mod cap"
proof -
  assume "ring_shape cap r"
  then obtain m where m: "m < 63" "cap = 2 ^ m" "ring_mask r = of_nat (2 ^ m - 1)" by (auto simp: ring_shape_def)
  have "ring_mask r = mask m" using m by (simp add: mask_eq_exp_minus_1 of_nat_diff)
  then show ?thesis
    using m by (simp add: cell_of_def unsigned_take_bit_eq unsigned_of_nat min_def
        flip: take_bit_eq_mask take_bit_eq_mod)
qed

lemma sint_pos: "p < 2 ^ 63 \<Longrightarrow> sint (of_nat p :: u64) = int p"
  using sint_of_int_i64 [of "int p"] by (simp add: in_i64_def)

lemma seq_diff_pos: "p < 2 ^ 63 \<Longrightarrow> q < 2 ^ 63 \<Longrightarrow> seq_diff (of_nat p) (of_nat q) = Some (int p - int q)"
  by (simp add: seq_diff_def sint_pos in_i64_def)

lemma pos_eq_iff: "p < 2 ^ 63 \<Longrightarrow> q < 2 ^ 63 \<Longrightarrow> (of_nat p :: u64) = of_nat q \<longleftrightarrow> p = q"
  using sint_pos by (metis of_nat_eq_iff)

lemma mod_close_eq: "p mod cap = q mod (cap :: nat) \<Longrightarrow> p \<le> q \<Longrightarrow> q < p + cap \<Longrightarrow> p = q"
proof -
  assume "p mod cap = q mod cap" "p \<le> q" "q < p + cap"
  then have "cap dvd q - p" "q - p < cap" by (simp_all add: mod_eq_dvd_iff_nat [symmetric])
  then have "q - p = 0" by (meson dvd_imp_le gr0I leD)
  with \<open>p \<le> q\<close> show ?thesis by simp
qed

lemma mod_window_eq:
  assumes "p mod cap = q mod (cap :: nat)" and "d \<le> p" and "p < d + cap" and "d \<le> q" and "q < d + cap"
  shows "p = q"
  using mod_close_eq [of p cap q] mod_close_eq [of q cap p] assms by linarith

section \<open>Refinement of a bounded FIFO list\<close>

text \<open>
  \<open>ring_rel cap r xs n\<close>: after \<open>n\<close> pushes the queue holds \<open>xs\<close>, that is, the items of the positions
  from \<open>d = n - length xs\<close> up to \<open>n\<close>; the cell of a position in the window of \<open>cap\<close> positions from
  \<open>d\<close> on is either filled (sequence \<open>p + 1\<close>) or free (sequence \<open>p\<close>).
\<close>

definition ring_rel :: "nat \<Rightarrow> 'a MpscRingBuffer \<Rightarrow> 'a list \<Rightarrow> nat \<Rightarrow> bool" where
  "ring_rel cap r xs n \<longleftrightarrow> ring_shape cap r \<and> length xs \<le> cap \<and> length xs \<le> n \<and> n + cap < 2 ^ 63 \<and>
     enqueue_pos r = of_nat n \<and> dequeue_pos r = of_nat (n - length xs) \<and>
     (\<forall>p. n - length xs \<le> p \<and> p < n - length xs + cap \<longrightarrow>
        sequence (buffer r ! (p mod cap)) = of_nat (if p < n then p + 1 else p) \<and>
        (p < n \<longrightarrow> cell_data (buffer r ! (p mod cap)) = xs ! (p - (n - length xs))))"

lemma ring_cells:
  assumes "ring_shape cap r"
  shows "get_cell (of_nat p) r = Some (buffer r ! (p mod cap))"
    "upd_cell (of_nat p) f r = r\<lparr>buffer := (buffer r)[p mod cap := f (buffer r ! (p mod cap))]\<rparr>"
    "p mod cap < length (buffer r)"
proof -
  have "0 < cap" using ring_shape_cap [OF assms] by simp
  then show len: "p mod cap < length (buffer r)" using assms by (simp add: ring_shape_def)
  show "get_cell (of_nat p) r = Some (buffer r ! (p mod cap))"
    "upd_cell (of_nat p) f r = r\<lparr>buffer := (buffer r)[p mod cap := f (buffer r ! (p mod cap))]\<rparr>"
    using len by (simp_all add: get_cell_def upd_cell_def cell_of_pos [OF assms])
qed

lemma ring_shape_upd [simp]:
  "ring_shape cap (r\<lparr>buffer := (buffer r)[i := c]\<rparr>) = ring_shape cap r"
  "ring_shape cap (r\<lparr>enqueue_pos := e\<rparr>) = ring_shape cap r"
  "ring_shape cap (r\<lparr>dequeue_pos := e\<rparr>) = ring_shape cap r"
  by (simp_all add: ring_shape_def)

lemma cell_of_upd [simp]:
  "cell_of pos (r\<lparr>buffer := b\<rparr>) = cell_of pos r" "cell_of pos (r\<lparr>enqueue_pos := e\<rparr>) = cell_of pos r"
  "cell_of pos (r\<lparr>dequeue_pos := e\<rparr>) = cell_of pos r"
  by (simp_all add: cell_of_def)

lemma new_ring_rel:
  assumes "capacity = 2 ^ m" and "0 < m" and "m < 62"
  shows "ring_rel (2 ^ m) (new_ring capacity init) [] 0"
proof -
  have "(2::nat) ^ m < 2 ^ 62" using assms(3) by (intro power_strict_increasing) simp_all
  then have small: "(2::nat) ^ m + 2 ^ m < 2 ^ 63" "(2::nat) ^ m < 2 ^ 64" by simp_all
  have cap: "capacity = of_nat (2 ^ m)" using assms(1) by simp
  then have len: "unat capacity = 2 ^ m"
    unfolding cap unsigned_of_nat using small(2) assms(3) by (simp add: take_bit_nat_eq_self)
  have shape: "ring_shape (2 ^ m) (new_ring capacity init)"
    unfolding ring_shape_def using assms len by (auto simp: new_ring_def of_nat_diff)
  have "sequence (buffer (new_ring capacity init) ! (p mod 2 ^ m)) = of_nat p" if "p < 2 ^ m" for p
    using that by (simp add: new_ring_def len)
  then show ?thesis
    unfolding ring_rel_def using shape small(1) by (simp add: new_ring_def)
qed

lemma push_loop_retry:
  assumes "ring_rel cap r xs n" and "length xs < cap"
  shows "push_loop weak item (of_nat n) r = push_loop 0 item (of_nat n) r"
proof (induction weak)
  case (Suc weak)
  have "ring_shape cap r" "sequence (buffer r ! (n mod cap)) = of_nat n" "n < 2 ^ 63" "enqueue_pos r = of_nat n"
    using assms by (auto simp: ring_rel_def)
  then have "push_loop (Suc weak) item (of_nat n) r = push_loop weak item (of_nat n) r"
    by (subst push_loop.simps) (simp add: ring_cells seq_diff_pos)
  with Suc show ?case by simp
qed simp

lemma try_push_room:
  assumes "ring_rel cap r xs n" and "length xs < cap" and "n + cap + 1 < 2 ^ 63"
  obtains r' where "try_push weak item r = Some (True, r')" "ring_rel cap r' (xs @ [item]) (n + 1)"
proof -
  have r: "ring_shape cap r" "sequence (buffer r ! (n mod cap)) = of_nat n" "enqueue_pos r = of_nat n"
    "dequeue_pos r = of_nat (n - length xs)" "length xs \<le> n"
    using assms by (auto simp: ring_rel_def)
  let ?i = "n mod cap"
  let ?c = "(buffer r ! ?i)\<lparr>cell_data := item, sequence := of_nat (n + 1)\<rparr>"
  define r' where "r' = r\<lparr>enqueue_pos := of_nat (n + 1), buffer := (buffer r)[?i := ?c]\<rparr>"
  have i: "?i < length (buffer r)" by (rule ring_cells(3) [OF r(1)])
  have "try_push weak item r = push_loop 0 item (of_nat n) r"
    unfolding try_push_def r(3) by (rule push_loop_retry [OF assms(1,2)])
  also have "\<dots> = Some (True, r')"
    using i r(2,3) assms(3)
    by (subst push_loop.simps)
      (simp add: r'_def ring_cells [OF r(1)] upd_cell_def cell_of_pos [OF r(1)] seq_diff_pos add_ac)
  finally have "try_push weak item r = Some (True, r')" .
  moreover have "ring_rel cap r' (xs @ [item]) (n + 1)"
  proof -
    let ?d = "n - length xs"
    have cells: "sequence (buffer r' ! (p mod cap)) = of_nat (if p < n + 1 then p + 1 else p) \<and>
        (p < n + 1 \<longrightarrow> cell_data (buffer r' ! (p mod cap)) = (xs @ [item]) ! (p - ?d))"
      if p: "?d \<le> p" "p < ?d + cap" for p
    proof (cases "p = n")
      case True
      then show ?thesis using i r(5) by (simp add: r'_def)
    next
      case False
      have "?d \<le> n" "n < ?d + cap" using assms(2) r(5) by linarith+
      then have "p mod cap \<noteq> ?i" using False mod_window_eq [OF _ p] by blast
      then have "buffer r' ! (p mod cap) = buffer r ! (p mod cap)" by (simp add: r'_def)
      moreover have "sequence (buffer r ! (p mod cap)) = of_nat (if p < n then p + 1 else p) \<and>
        (p < n \<longrightarrow> cell_data (buffer r ! (p mod cap)) = xs ! (p - ?d))"
        using assms(1) p by (simp add: ring_rel_def)
      ultimately show ?thesis using False p r(5) by (auto simp: nth_append)
    qed
    show ?thesis
      unfolding ring_rel_def
    proof (intro conjI allI impI; (elim conjE)?)
      show "ring_shape cap r'" using r(1) by (simp add: r'_def ring_shape_def)
    qed (use cells assms r in \<open>simp_all add: r'_def\<close>)
  qed
  ultimately show thesis by (rule that)
qed

lemma try_push_full:
  assumes "ring_rel cap r xs n" and "length xs = cap"
  shows "try_push weak item r = Some (False, r)"
proof -
  have r: "ring_shape cap r" "cap \<le> n" "n + cap < 2 ^ 63" "enqueue_pos r = of_nat n"
    using assms by (simp_all add: ring_rel_def)
  have cap: "2 \<le> cap" by (rule ring_shape_cap [OF r(1)])
  have "sequence (buffer r ! ((n - cap) mod cap)) = of_nat (if n - cap < n then n - cap + 1 else n - cap)"
    using assms cap by (simp add: ring_rel_def)
  moreover have "(n - cap) mod cap = n mod cap" using r(2) by (metis le_add_diff_inverse2 mod_add_self2)
  ultimately have "sequence (buffer r ! (n mod cap)) = of_nat (n - cap + 1)" using cap r(2) by simp
  then have "seq_diff (sequence (buffer r ! (n mod cap))) (of_nat n) = Some (int (n - cap + 1) - int n)"
    using r(2,3) cap by (simp only: seq_diff_pos)
  moreover have "int (n - cap + 1) - int n < 0" using r(2) cap by simp
  ultimately show ?thesis
    unfolding try_push_def r(4) by (subst push_loop.simps) (simp add: ring_cells [OF r(1)])
qed

lemma try_pop_empty:
  assumes "ring_rel cap r [] n"
  shows "try_pop r = Some (None, r)"
proof -
  have r: "ring_shape cap r" "n + cap < 2 ^ 63" "dequeue_pos r = of_nat n"
    using assms by (simp_all add: ring_rel_def)
  have cap: "2 \<le> cap" by (rule ring_shape_cap [OF r(1)])
  then have "sequence (buffer r ! (n mod cap)) = of_nat n" using assms by (simp add: ring_rel_def)
  then have "seq_diff (sequence (buffer r ! (n mod cap))) (of_nat (n + 1)) = Some (int n - int (n + 1))"
    using r(2) cap by (simp only: seq_diff_pos)
  then show ?thesis by (simp add: try_pop_def r(3) ring_cells [OF r(1)] add_ac)
qed

lemma try_pop_item:
  assumes "ring_rel cap r (x # xs) n"
  obtains r' where "try_pop r = Some (Some x, r')" "ring_rel cap r' xs n"
proof -
  define d where "d = n - length (x # xs)"
  have r: "ring_shape cap r" "n + cap < 2 ^ 63" "dequeue_pos r = of_nat d" "n = d + length xs + 1" "length xs < cap"
    "enqueue_pos r = of_nat n"
    using assms by (simp_all add: ring_rel_def d_def)
  have cells: "sequence (buffer r ! (p mod cap)) = of_nat (if p < n then p + 1 else p) \<and>
      (p < n \<longrightarrow> cell_data (buffer r ! (p mod cap)) = (x # xs) ! (p - d))" if "d \<le> p" "p < d + cap" for p
    using assms that by (simp add: ring_rel_def d_def)
  have cap: "2 \<le> cap" by (rule ring_shape_cap [OF r(1)])
  have c: "sequence (buffer r ! (d mod cap)) = of_nat (d + 1)" "cell_data (buffer r ! (d mod cap)) = x"
    using cells [of d] cap r(4) by simp_all
  have i: "d mod cap < length (buffer r)" by (rule ring_cells(3) [OF r(1)])
  have next_seq: "of_nat d + ring_mask r + 1 = of_nat (d + cap)"
    using r(1) cap by (auto simp: ring_shape_def of_nat_diff)
  define r' where "r' = r\<lparr>buffer := (buffer r)[d mod cap := (buffer r ! (d mod cap))\<lparr>sequence := of_nat (d + cap)\<rparr>],
    dequeue_pos := of_nat (d + 1)\<rparr>"
  have "seq_diff (of_nat (d + 1)) (of_nat (d + 1)) = Some 0"
    using seq_diff_pos [of "d + 1" "d + 1"] r(2,4) by simp
  then have "try_pop r = Some (Some x, r')"
    using c unfolding try_pop_def r(3) next_seq by (simp add: ring_cells [OF r(1)] r'_def add_ac)
  moreover have "sequence (buffer r' ! (p mod cap)) = of_nat (if p < n then p + 1 else p) \<and>
      (p < n \<longrightarrow> cell_data (buffer r' ! (p mod cap)) = xs ! (p - (d + 1)))" if p: "d + 1 \<le> p" "p < d + 1 + cap" for p
  proof (cases "p = d + cap")
    case True
    then show ?thesis using i r(4,5) by (simp add: r'_def)
  next
    case False
    then have "d \<le> p" "p < d + cap" using p by simp_all
    moreover from this have "p mod cap \<noteq> d mod cap" using mod_window_eq [of p cap d d] p by auto
    then have "buffer r' ! (p mod cap) = buffer r ! (p mod cap)" by (simp add: r'_def)
    ultimately show ?thesis using cells [of p] p by (auto simp: nth_Cons')
  qed
  then have "ring_rel cap r' xs n"
    using r by (simp add: ring_rel_def) (simp add: r'_def)
  ultimately show thesis by (rule that)
qed

text \<open>Sequences of calls, on a queue and on the list it stands for.\<close>

datatype ('w, 'a) queue_op = Push 'w 'a | Pop

datatype 'a queue_answer = Pushed bool | Popped "'a option"

primrec run_ops ::
    "('w \<Rightarrow> 'a \<Rightarrow> 'q \<Rightarrow> (bool \<times> 'q) option) \<Rightarrow> ('q \<Rightarrow> ('a option \<times> 'q) option) \<Rightarrow>
     ('w, 'a) queue_op list \<Rightarrow> 'q \<Rightarrow> ('a queue_answer list \<times> 'q) option"
where
  "run_ops push pop [] q = Some ([], q)"
| "run_ops push pop (op # ops) q = do {
     (a, q) \<leftarrow> (case op of
        Push w x \<Rightarrow> map_option (map_prod Pushed id) (push w x q)
      | Pop \<Rightarrow> map_option (map_prod Popped id) (pop q));
     (answers, q) \<leftarrow> run_ops push pop ops q;
     Some (a # answers, q)
   }"

fun fifo_ops :: "nat \<Rightarrow> ('w, 'a) queue_op list \<Rightarrow> 'a list \<Rightarrow> 'a queue_answer list" where
  "fifo_ops cap [] xs = []"
| "fifo_ops cap (Push w x # ops) xs =
     Pushed (length xs < cap) # fifo_ops cap ops (if length xs < cap then xs @ [x] else xs)"
| "fifo_ops cap (Pop # ops) [] = Popped None # fifo_ops cap ops []"
| "fifo_ops cap (Pop # ops) (x # xs) = Popped (Some x) # fifo_ops cap ops xs"

definition pushes :: "('w, 'a) queue_op list \<Rightarrow> nat" where
  "pushes ops = length (filter (\<lambda>op. op \<noteq> Pop) ops)"

locale bounded_queue =
  fixes rel :: "'q \<Rightarrow> 'a list \<Rightarrow> nat \<Rightarrow> bool"
    and push :: "'w \<Rightarrow> 'a \<Rightarrow> 'q \<Rightarrow> (bool \<times> 'q) option"
    and pop :: "'q \<Rightarrow> ('a option \<times> 'q) option"
    and cap :: nat and limit :: nat
  assumes push_room: "rel q xs n \<Longrightarrow> n < limit \<Longrightarrow> length xs < cap \<Longrightarrow>
      \<exists>q'. push w x q = Some (True, q') \<and> rel q' (xs @ [x]) (n + 1)"
    and push_full: "rel q xs n \<Longrightarrow> length xs = cap \<Longrightarrow> push w x q = Some (False, q)"
    and pop_item: "rel q (x # xs) n \<Longrightarrow> \<exists>q'. pop q = Some (Some x, q') \<and> rel q' xs n"
    and pop_empty: "rel q [] n \<Longrightarrow> pop q = Some (None, q)"
    and bounded: "rel q xs n \<Longrightarrow> length xs \<le> cap"
begin

lemma run_ops_fifo:
  assumes "rel q xs n" and "n + pushes ops \<le> limit"
  shows "\<exists>q'. run_ops push pop ops q = Some (fifo_ops cap ops xs, q')"
  using assms
proof (induction ops arbitrary: q xs n)
  case step: (Cons op ops)
  show ?case
  proof (cases op)
    case (Push w x)
    then have n: "n < limit" "n + 1 + pushes ops \<le> limit" using step.prems(2) by (simp_all add: pushes_def)
    show ?thesis
    proof (cases "length xs < cap")
      case True
      with push_room [OF step.prems(1) n(1)] obtain q1 where
        q1: "push w x q = Some (True, q1)" "rel q1 (xs @ [x]) (n + 1)" by blast
      from step.IH [OF q1(2) n(2)] q1(1) True Push show ?thesis by auto
    next
      case False
      then have "length xs = cap" using bounded [OF step.prems(1)] by simp
      then have "push w x q = Some (False, q)" by (rule push_full [OF step.prems(1)])
      with step.IH [OF step.prems(1)] n False Push show ?thesis by auto
    qed
  next
    case Pop
    then have n: "n + pushes ops \<le> limit" using step.prems(2) by (simp add: pushes_def)
    show ?thesis
    proof (cases xs)
      case Nil
      then show ?thesis using pop_empty step.prems(1) step.IH [OF step.prems(1) n] Pop by auto
    next
      case (Cons y ys)
      then obtain q1 where q1: "pop q = Some (Some y, q1)" "rel q1 ys n"
        using pop_item step.prems(1) by blast
      from step.IH [OF q1(2) n] q1(1) Cons Pop show ?thesis by auto
    qed
  qed
qed simp

end

lemma ring_rel_len: "ring_rel cap r xs n \<Longrightarrow> length xs \<le> cap"
  by (simp add: ring_rel_def)

interpretation ring: bounded_queue "ring_rel cap" try_push try_pop cap "2 ^ 63 - cap - 1"
  for cap
proof unfold_locales
  show "\<exists>q'. try_push w x q = Some (True, q') \<and> ring_rel cap q' (xs @ [x]) (n + 1)"
    if "ring_rel cap q xs n" "n < 2 ^ 63 - cap - 1" "length xs < cap" for q :: "'a MpscRingBuffer" and xs n w x
    by (rule try_push_room [OF that(1,3), of w x]) (use that(2) in auto)
  show "\<exists>q'. try_pop q = Some (Some x, q') \<and> ring_rel cap q' xs n"
    if "ring_rel cap q (x # xs) n" for q :: "'a MpscRingBuffer" and x xs n
    using that by (rule try_pop_item) blast
qed (simp_all add: try_push_full try_pop_empty ring_rel_len)

section \<open>The queue under concurrency\<close>

text \<open>
  Where a producer is in \<open>try_push\<close>, with the values it holds in local variables: about to load the
  sequence of the cell of \<open>pos\<close>; about to compare-and-swap \<open>enqueue_pos\<close>; having claimed \<open>pos\<close>, about
  to store the item; about to release the cell. The consumer is about to look, to copy the item or
  to release the cell. \<open>claimed\<close> and \<open>popped\<close> record the items in the order of the successful
  compare-and-swaps and of the completed \<open>try_pop\<close> calls.
\<close>

datatype 'a producer = Idle | Load_Seq 'a u64 | Cas 'a u64 | Store_Data 'a u64 | Release_Seq u64

datatype 'a consumer = Look | Copy_Data | Release_Cell 'a

record 'a system =
  shared :: "'a MpscRingBuffer"
  prods :: "nat \<Rightarrow> 'a producer"
  cons :: "'a consumer"
  claimed :: "'a list"
  popped :: "'a list"

definition start :: "u64 \<Rightarrow> 'a \<Rightarrow> 'a system" where
  "start capacity init =
     \<lparr>shared = new_ring capacity init, prods = (\<lambda>_. Idle), cons = Look, claimed = [], popped = []\<rparr>"

abbreviation set_prod :: "nat \<Rightarrow> 'a producer \<Rightarrow> 'a system \<Rightarrow> 'a system" where
  "set_prod i pc s \<equiv> s\<lparr>prods := (prods s)(i := pc)\<rparr>"

inductive step :: "'a system \<Rightarrow> 'a system \<Rightarrow> bool" where
  enter: "prods s i = Idle \<Longrightarrow> step s (set_prod i (Load_Seq x (enqueue_pos (shared s))) s)"
| seq_equal: "prods s i = Load_Seq x pos \<Longrightarrow> get_cell pos (shared s) = Some cell \<Longrightarrow>
    seq_diff (sequence cell) pos = Some diff \<Longrightarrow> diff = 0 \<Longrightarrow> step s (set_prod i (Cas x pos) s)"
| seq_behind: "prods s i = Load_Seq x pos \<Longrightarrow> get_cell pos (shared s) = Some cell \<Longrightarrow>
    seq_diff (sequence cell) pos = Some diff \<Longrightarrow> diff < 0 \<Longrightarrow> step s (set_prod i Idle s)"
| seq_ahead: "prods s i = Load_Seq x pos \<Longrightarrow> get_cell pos (shared s) = Some cell \<Longrightarrow>
    seq_diff (sequence cell) pos = Some diff \<Longrightarrow> 0 < diff \<Longrightarrow>
    step s (set_prod i (Load_Seq x (enqueue_pos (shared s))) s)"
| cas_done: "prods s i = Cas x pos \<Longrightarrow> enqueue_pos (shared s) = pos \<Longrightarrow>
    step s ((set_prod i (Store_Data x pos) s)
      \<lparr>shared := (shared s)\<lparr>enqueue_pos := pos + 1\<rparr>, claimed := claimed s @ [x]\<rparr>)"
| cas_failed: "prods s i = Cas x pos \<Longrightarrow>
    step s (set_prod i (Load_Seq x (enqueue_pos (shared s))) s)"
| store_data: "prods s i = Store_Data x pos \<Longrightarrow>
    step s ((set_prod i (Release_Seq pos) s)\<lparr>shared := upd_cell pos (\<lambda>c. c\<lparr>cell_data := x\<rparr>) (shared s)\<rparr>)"
| release_seq: "prods s i = Release_Seq pos \<Longrightarrow>
    step s ((set_prod i Idle s)\<lparr>shared := upd_cell pos (\<lambda>c. c\<lparr>sequence := pos + 1\<rparr>) (shared s)\<rparr>)"
| look_ready: "cons s = Look \<Longrightarrow> get_cell (dequeue_pos (shared s)) (shared s) = Some cell \<Longrightarrow>
    seq_diff (sequence cell) (dequeue_pos (shared s) + 1) = Some 0 \<Longrightarrow> step s (s\<lparr>cons := Copy_Data\<rparr>)"
| copy_data: "cons s = Copy_Data \<Longrightarrow> get_cell (dequeue_pos (shared s)) (shared s) = Some cell \<Longrightarrow>
    step s (s\<lparr>cons := Release_Cell (cell_data cell)\<rparr>)"
| release_cell: "cons s = Release_Cell x \<Longrightarrow> pos = dequeue_pos (shared s) \<Longrightarrow>
    step s (s\<lparr>shared := (upd_cell pos (\<lambda>c. c\<lparr>sequence := pos + ring_mask (shared s) + 1\<rparr>) (shared s))
        \<lparr>dequeue_pos := pos + 1\<rparr>, cons := Look, popped := popped s @ [x]\<rparr>)"

text \<open>
  The invariant, over the numbers \<open>e\<close> of claimed and \<open>d\<close> of popped positions. A position between them
  is published or owned by exactly one producer; the other positions of the window from \<open>d\<close> on are
  free.
\<close>

definition seq_at :: "nat \<Rightarrow> 'a system \<Rightarrow> nat \<Rightarrow> u64" where
  "seq_at cap s p = sequence (buffer (shared s) ! (p mod cap))"

definition item_at :: "nat \<Rightarrow> 'a system \<Rightarrow> nat \<Rightarrow> 'a" where
  "item_at cap s p = cell_data (buffer (shared s) ! (p mod cap))"

fun owns :: "'a producer \<Rightarrow> u64 \<Rightarrow> bool" where
  "owns (Store_Data x pos) pos' \<longleftrightarrow> pos' = pos"
| "owns (Release_Seq pos) pos' \<longleftrightarrow> pos' = pos"
| "owns _ pos' \<longleftrightarrow> False"

fun prod_ok :: "nat \<Rightarrow> 'a system \<Rightarrow> 'a producer \<Rightarrow> bool" where
  "prod_ok cap s Idle \<longleftrightarrow> True"
| "prod_ok cap s (Load_Seq x pos) \<longleftrightarrow> (\<exists>p \<le> length (claimed s). pos = of_nat p)"
| "prod_ok cap s (Cas x pos) \<longleftrightarrow> (\<exists>p \<le> length (claimed s). pos = of_nat p \<and>
     (p = length (claimed s) \<longrightarrow> p < length (popped s) + cap))"
| "prod_ok cap s (Store_Data x pos) \<longleftrightarrow> (\<exists>p < length (claimed s). length (popped s) \<le> p \<and> pos = of_nat p \<and>
     claimed s ! p = x \<and> seq_at cap s p = of_nat p)"
| "prod_ok cap s (Release_Seq pos) \<longleftrightarrow> (\<exists>p < length (claimed s). length (popped s) \<le> p \<and> pos = of_nat p \<and>
     item_at cap s p = claimed s ! p \<and> seq_at cap s p = of_nat p)"

definition held :: "'a system \<Rightarrow> nat \<Rightarrow> bool" where
  "held s p \<longleftrightarrow> (\<exists>i. owns (prods s i) (of_nat p))"

definition cell_ok :: "nat \<Rightarrow> 'a system \<Rightarrow> nat \<Rightarrow> bool" where
  "cell_ok cap s p \<longleftrightarrow>
     (if p < length (claimed s)
      then seq_at cap s p = of_nat (p + 1) \<and> item_at cap s p = claimed s ! p \<or>
           seq_at cap s p = of_nat p \<and> held s p
      else seq_at cap s p = of_nat p)"

fun cons_ok :: "nat \<Rightarrow> 'a system \<Rightarrow> 'a consumer \<Rightarrow> bool" where
  "cons_ok cap s Look \<longleftrightarrow> True"
| "cons_ok cap s Copy_Data \<longleftrightarrow> length (popped s) < length (claimed s) \<and>
     seq_at cap s (length (popped s)) = of_nat (length (popped s) + 1)"
| "cons_ok cap s (Release_Cell x) \<longleftrightarrow> length (popped s) < length (claimed s) \<and>
     seq_at cap s (length (popped s)) = of_nat (length (popped s) + 1) \<and> x = claimed s ! length (popped s)"

definition ring_inv :: "nat \<Rightarrow> 'a system \<Rightarrow> bool" where
  "ring_inv cap s \<longleftrightarrow> ring_shape cap (shared s) \<and> length (claimed s) + cap < 2 ^ 63 \<and>
     length (popped s) \<le> length (claimed s) \<and> length (claimed s) \<le> length (popped s) + cap \<and>
     enqueue_pos (shared s) = of_nat (length (claimed s)) \<and> dequeue_pos (shared s) = of_nat (length (popped s)) \<and>
     popped s = take (length (popped s)) (claimed s) \<and>
     (\<forall>i. prod_ok cap s (prods s i)) \<and>
     (\<forall>i j pos. owns (prods s i) pos \<and> owns (prods s j) pos \<longrightarrow> i = j) \<and>
     (\<forall>p. length (popped s) \<le> p \<and> p < length (popped s) + cap \<longrightarrow> cell_ok cap s p) \<and>
     cons_ok cap s (cons s)"

lemmas system_simps = seq_at_def item_at_def

lemma ring_inv_facts:
  assumes "ring_inv cap s"
  shows "ring_shape cap (shared s)" "length (claimed s) + cap < 2 ^ 63" "length (popped s) \<le> length (claimed s)"
    "length (claimed s) \<le> length (popped s) + cap" "enqueue_pos (shared s) = of_nat (length (claimed s))"
    "dequeue_pos (shared s) = of_nat (length (popped s))" "popped s = take (length (popped s)) (claimed s)"
    "prod_ok cap s (prods s i)" "owns (prods s i) pos \<Longrightarrow> owns (prods s j) pos \<Longrightarrow> i = j"
    "length (popped s) \<le> p \<Longrightarrow> p < length (popped s) + cap \<Longrightarrow> cell_ok cap s p"
    "cons_ok cap s (cons s)"
  using assms unfolding ring_inv_def by blast+

lemma prod_ok_set_prod [simp]: "prod_ok cap (set_prod i pc s) pc' = prod_ok cap s pc'"
  by (cases pc') (simp_all add: system_simps)

lemma cons_ok_set_prod [simp]: "cons_ok cap (set_prod i pc s) pc' = cons_ok cap s pc'"
  by (cases pc') (simp_all add: system_simps)

text \<open>Steps of a producer outside its claim.\<close>

lemma inv_set_prod:
  assumes "ring_inv cap s" and "\<And>pos. \<not> owns (prods s i) pos" and "\<And>pos. \<not> owns pc pos" and "prod_ok cap s pc"
  shows "ring_inv cap (set_prod i pc s)"
proof -
  note inv = ring_inv_facts [OF assms(1)]
  have own: "owns (((prods s)(i := pc)) j) pos = owns (prods s j) pos" for j pos
    using assms(2,3) by simp
  show ?thesis
    unfolding ring_inv_def
  proof (intro conjI allI impI)
    show "prod_ok cap (set_prod i pc s) (prods (set_prod i pc s) j)" for j
      using inv(8) [of j] assms(4) by simp
    show "j = k" if "owns (prods (set_prod i pc s) j) pos \<and> owns (prods (set_prod i pc s) k) pos" for j k pos
      using that own inv(9) [of j pos k] by simp
    show "cell_ok cap (set_prod i pc s) p"
      if "length (popped (set_prod i pc s)) \<le> p \<and> p < length (popped (set_prod i pc s)) + cap" for p
    proof -
      have "cell_ok cap s p" using inv(10) that by simp
      moreover have "seq_at cap (set_prod i pc s) p = seq_at cap s p" "item_at cap (set_prod i pc s) p = item_at cap s p"
        by (simp_all add: system_simps)
      moreover have "held (set_prod i pc s) p = held s p" using own by (simp add: held_def)
      ultimately show ?thesis by (simp add: cell_ok_def cong: if_cong)
    qed
    show "cons_ok cap (set_prod i pc s) (cons (set_prod i pc s))" using inv(11) by simp
  qed (use inv(1-7) in simp_all)
qed

text \<open>What a producer finds in the cell of the position it loaded.\<close>

lemma window_rep:
  assumes "0 < cap"
  obtains w where "d \<le> w" "w < d + cap" "w mod cap = p mod (cap :: nat)"
proof -
  define q where "q = p + d * cap"
  have q: "d \<le> q" "q mod cap = p mod cap" using assms by (simp_all add: q_def trans_le_add2)
  have "(d + (q - d) mod cap) mod cap = p mod cap" using q by (metis le_add_diff_inverse mod_add_right_eq)
  then show thesis using that [of "d + (q - d) mod cap"] assms by simp
qed

lemma loaded_cell:
  assumes "ring_inv cap s" and "p \<le> length (claimed s)"
  obtains q where "get_cell (of_nat p) (shared s) = Some (buffer (shared s) ! (p mod cap))"
    "seq_at cap s p = of_nat q" "q < 2 ^ 63"
    "q < p \<Longrightarrow> p = length (claimed s) \<and> length (claimed s) = length (popped s) + cap"
    "q = p \<Longrightarrow> p = length (claimed s) \<Longrightarrow> p < length (popped s) + cap"
proof -
  note inv = ring_inv_facts [OF assms(1)]
  let ?d = "length (popped s)" and ?e = "length (claimed s)"
  have cap: "2 \<le> cap" by (rule ring_shape_cap [OF inv(1)])
  then obtain w where w: "?d \<le> w" "w < ?d + cap" "w mod cap = p mod cap" by (auto intro: window_rep [of cap ?d p])
  have "seq_at cap s p = seq_at cap s w" using w(3) by (simp add: seq_at_def)
  moreover have "seq_at cap s w = of_nat w \<or> seq_at cap s w = of_nat (w + 1)"
    using inv(10) [OF w(1,2)] by (auto simp: cell_ok_def split: if_splits)
  ultimately obtain q where q: "seq_at cap s p = of_nat q" "q = w \<or> q = w + 1" by metis
  have cases: "p < w \<or> p = w \<or> w = ?d \<and> p = ?d + cap \<and> p = ?e"
  proof (cases "p < ?d + cap")
    case True
    then show ?thesis using mod_window_eq [OF w(3,1,2) _ True] w(1) by linarith
  next
    case False
    then have p: "p = ?d + cap" "p = ?e" using assms(2) inv(4) by linarith+
    have "w mod cap = ?d mod cap" using w(3) p by simp
    then have "w = ?d" using mod_window_eq [of w cap ?d ?d] w(1,2) cap by simp
    with p show ?thesis by simp
  qed
  show thesis
  proof (rule that [OF ring_cells(1) [OF inv(1)] q(1)])
    show "q < 2 ^ 63" using q(2) w(2) inv(2,3) by linarith
    show "p = ?e \<and> ?e = ?d + cap" if "q < p" using cases q(2) that by linarith
    show "p < ?d + cap" if "q = p" "p = ?e"
      using cases q(2) that w(2) cap by linarith
  qed
qed

lemma inv_seq_equal:
  assumes "ring_inv cap s" and "prods s i = Load_Seq x pos" and "get_cell pos (shared s) = Some cell"
    and "seq_diff (sequence cell) pos = Some 0"
  shows "ring_inv cap (set_prod i (Cas x pos) s)"
proof (rule inv_set_prod [OF assms(1)])
  obtain p where p: "p \<le> length (claimed s)" "pos = of_nat p"
    using ring_inv_facts(8) [OF assms(1), of i] assms(2) by auto
  have lt: "p < 2 ^ 63" using p(1) ring_inv_facts(2) [OF assms(1)] by linarith
  obtain q where q: "get_cell pos (shared s) = Some (buffer (shared s) ! (p mod cap))"
    "seq_at cap s p = of_nat q" "q < 2 ^ 63" "q = p \<Longrightarrow> p = length (claimed s) \<Longrightarrow> p < length (popped s) + cap"
    using loaded_cell [OF assms(1) p(1)] p(2) by metis
  have "q = p" using assms(3,4) q lt p(2) seq_diff_pos [OF q(3) lt] by (simp add: seq_at_def)
  with p q show "prod_ok cap s (Cas x pos)" by auto
qed (simp_all add: assms(2))

text \<open>A push is refused only when \<open>cap\<close> items are in the queue.\<close>

lemma full_when_refused:
  assumes "ring_inv cap s" and "prods s i = Load_Seq x pos" and "get_cell pos (shared s) = Some cell"
    and "seq_diff (sequence cell) pos = Some diff" and "diff < 0"
  shows "length (claimed s) = length (popped s) + cap"
proof -
  obtain p where p: "p \<le> length (claimed s)" "pos = of_nat p"
    using ring_inv_facts(8) [OF assms(1), of i] assms(2) by auto
  have lt: "p < 2 ^ 63" using p(1) ring_inv_facts(2) [OF assms(1)] by linarith
  obtain q where q: "get_cell pos (shared s) = Some (buffer (shared s) ! (p mod cap))"
    "seq_at cap s p = of_nat q" "q < 2 ^ 63" "q < p \<Longrightarrow> length (claimed s) = length (popped s) + cap"
    using loaded_cell [OF assms(1) p(1)] p(2) by metis
  have "int q - int p < 0" using assms(3-5) q p(2) seq_diff_pos [OF q(3) lt] by (simp add: seq_at_def)
  with q(4) show ?thesis by simp
qed

lemma inv_reload:
  assumes "ring_inv cap s" and "\<And>pos. \<not> owns (prods s i) pos"
  shows "ring_inv cap (set_prod i (Load_Seq x (enqueue_pos (shared s))) s)"
  by (rule inv_set_prod [OF assms]) (use ring_inv_facts(5) [OF assms(1)] in auto)

text \<open>Steps that write to a cell: the cells of the other positions of the window stay.\<close>

lemma cell_written:
  assumes "ring_shape cap (shared s)" and "buffer (shared s') = buffer (upd_cell (of_nat p0) f (shared s))"
  shows "seq_at cap s' p0 = sequence (f (buffer (shared s) ! (p0 mod cap)))"
    "item_at cap s' p0 = cell_data (f (buffer (shared s) ! (p0 mod cap)))"
    "d \<le> p0 \<Longrightarrow> p0 < d + cap \<Longrightarrow> d \<le> p \<Longrightarrow> p < d + cap \<Longrightarrow> p \<noteq> p0 \<Longrightarrow>
       seq_at cap s' p = seq_at cap s p \<and> item_at cap s' p = item_at cap s p"
proof -
  note cells = ring_cells [OF assms(1)]
  have b: "buffer (shared s') = (buffer (shared s))[p0 mod cap := f (buffer (shared s) ! (p0 mod cap))]"
    by (simp add: assms(2) cells(2))
  show "seq_at cap s' p0 = sequence (f (buffer (shared s) ! (p0 mod cap)))"
    "item_at cap s' p0 = cell_data (f (buffer (shared s) ! (p0 mod cap)))"
    using cells(3) by (simp_all add: system_simps b)
  show "seq_at cap s' p = seq_at cap s p \<and> item_at cap s' p = item_at cap s p"
    if "d \<le> p0" "p0 < d + cap" "d \<le> p" "p < d + cap" "p \<noteq> p0"
  proof -
    have "p mod cap \<noteq> p0 mod cap" using mod_window_eq [of p cap p0 d] that by blast
    then show ?thesis by (simp add: system_simps b)
  qed
qed

lemma owner_pos:
  assumes "ring_inv cap s" and "owns (prods s j) pos"
  obtains p where "pos = of_nat p" "p < length (claimed s)" "length (popped s) \<le> p" "seq_at cap s p = of_nat p"
    "p < length (popped s) + cap" "p < 2 ^ 63"
proof -
  have "\<exists>p < length (claimed s). length (popped s) \<le> p \<and> pos = of_nat p \<and> seq_at cap s p = of_nat p"
    using ring_inv_facts(8) [OF assms(1), of j] assms(2) by (cases "prods s j") auto
  then show thesis using that ring_inv_facts(2,4) [OF assms(1)] by fastforce
qed

lemma held_keep:
  assumes "\<And>j. owns (prods s j) (of_nat p) \<Longrightarrow> owns (prods s' j) (of_nat p)"
  shows "held s p \<Longrightarrow> held s' p"
  using assms unfolding held_def by blast

text \<open>The position a compare-and-swap takes is free, and nobody owns it.\<close>

lemma cas_room:
  assumes "ring_inv cap s" and "prods s i = Cas x pos" and "enqueue_pos (shared s) = pos"
  shows "length (claimed s) < length (popped s) + cap" "seq_at cap s (length (claimed s)) = of_nat (length (claimed s))"
    "\<not> owns (prods s j) (of_nat (length (claimed s)))"
proof -
  note inv = ring_inv_facts [OF assms(1)]
  let ?d = "length (popped s)" and ?e = "length (claimed s)"
  have pos: "pos = of_nat ?e" using assms(3) inv(5) by simp
  obtain p where p: "p \<le> ?e" "of_nat ?e = (of_nat p :: u64)" "p = ?e \<longrightarrow> p < ?d + cap"
    using inv(8) [of i] assms(2) pos by auto
  then have "p = ?e" using pos_eq_iff [of ?e p] inv(2) by simp
  with p show room: "?e < ?d + cap" by simp
  show "seq_at cap s ?e = of_nat ?e" using inv(10) [OF inv(3) room] by (simp add: cell_ok_def)
  show "\<not> owns (prods s j) (of_nat ?e)"
  proof
    assume "owns (prods s j) (of_nat ?e)"
    then obtain q where "of_nat ?e = (of_nat q :: u64)" "q < ?e" "q < 2 ^ 63" by (rule owner_pos [OF assms(1)])
    then show False using pos_eq_iff [of ?e q] inv(2) by simp
  qed
qed

lemma inv_cas_done:
  fixes s :: "'a system"
  assumes "ring_inv cap s" and "prods s i = Cas x pos" and "enqueue_pos (shared s) = pos"
    and "length (claimed s) + 1 + cap < 2 ^ 63"
  shows "ring_inv cap ((set_prod i (Store_Data x pos) s)
      \<lparr>shared := (shared s)\<lparr>enqueue_pos := pos + 1\<rparr>, claimed := claimed s @ [x]\<rparr>)" (is "ring_inv cap ?s")
proof -
  note inv = ring_inv_facts [OF assms(1)]
  let ?d = "length (popped s)" and ?e = "length (claimed s)"
  note room = cas_room(1) [OF assms(1-3)] and seqe = cas_room(2) [OF assms(1-3)] and old = cas_room(3) [OF assms(1-3)]
  have pos: "pos = of_nat ?e" using assms(3) inv(5) by simp
  have at: "seq_at cap ?s q = seq_at cap s q" "item_at cap ?s q = item_at cap s q" for q
    by (simp_all add: system_simps)
  have noti: "\<not> owns (prods s i) pos'" for pos' using assms(2) by simp
  show ?thesis
    unfolding ring_inv_def
  proof (intro conjI allI impI)
    show "prod_ok cap ?s (prods ?s j)" for j
    proof (cases "j = i")
      case True
      have "\<exists>q < Suc ?e. ?d \<le> q \<and> pos = of_nat q \<and> (claimed s @ [x]) ! q = x \<and> seq_at cap s q = of_nat q"
        using inv(3) seqe pos by (intro exI [of _ ?e]) simp
      then show ?thesis using True by (simp add: at)
    next
      case False
      then show ?thesis
        using inv(8) [of j]
        by (cases "prods s j") (auto simp: at nth_append, (metis le_SucI Suc_n_not_le_n)+)
    qed
    show "j = k" if "owns (prods ?s j) pos' \<and> owns (prods ?s k) pos'" for j k pos'
      using that inv(9) old pos by (auto split: if_splits)
    show "cell_ok cap ?s q" if "length (popped ?s) \<le> q \<and> q < length (popped ?s) + cap" for q
    proof -
      have "cell_ok cap s q" using inv(10) that by simp
      moreover have "held s q \<Longrightarrow> held ?s q" by (rule held_keep) (use noti in auto)
      moreover have "owns (prods ?s i) (of_nat ?e)" using pos by simp
      then have "held ?s ?e" unfolding held_def by blast
      ultimately show ?thesis
        using seqe by (cases "q = ?e") (auto simp: cell_ok_def at nth_append split: if_splits)
    qed
    show "cons_ok cap ?s (cons ?s)" using inv(11) by (cases "cons s") (auto simp: at nth_append)
  qed (use inv(1,3,7) room assms(4) in \<open>simp_all add: pos inv(6) add_ac\<close>)
qed

lemma inv_store_data:
  fixes s :: "'a system"
  assumes "ring_inv cap s" and "prods s i = Store_Data x pos"
  shows "ring_inv cap ((set_prod i (Release_Seq pos) s)
      \<lparr>shared := upd_cell pos (\<lambda>c. c\<lparr>cell_data := x\<rparr>) (shared s)\<rparr>)" (is "ring_inv cap ?s")
proof -
  note inv = ring_inv_facts [OF assms(1)]
  let ?d = "length (popped s)" and ?e = "length (claimed s)"
  obtain p0 where p0: "p0 < ?e" "?d \<le> p0" "pos = of_nat p0" "claimed s ! p0 = x" "seq_at cap s p0 = of_nat p0"
    using inv(8) [of i] assms(2) by auto
  have w0: "p0 < ?d + cap" using p0(1) inv(4) by linarith
  have "buffer (shared ?s) = buffer (upd_cell (of_nat p0) (\<lambda>c. c\<lparr>cell_data := x\<rparr>) (shared s))" by (simp add: p0(3))
  note at = cell_written [OF inv(1) this]
  have at0: "seq_at cap ?s p0 = of_nat p0" "item_at cap ?s p0 = x" using at(1,2) p0(5) by (simp_all add: seq_at_def)
  have atw: "seq_at cap ?s p = seq_at cap s p" "p \<noteq> p0 \<Longrightarrow> item_at cap ?s p = item_at cap s p"
    if "?d \<le> p" "p < ?d + cap" for p
    using at(3) [OF p0(2) w0 that] at0(1) p0(5) by (cases "p = p0"; simp)+
  have own: "owns (prods ?s j) pos' = owns (prods s j) pos'" for j pos' using assms(2) by simp
  show ?thesis
    unfolding ring_inv_def own
  proof (intro conjI allI impI)
    show "prod_ok cap ?s (prods ?s j)" for j
    proof (cases "j = i")
      case True
      have "\<exists>p < ?e. ?d \<le> p \<and> pos = of_nat p \<and> item_at cap ?s p = claimed s ! p \<and> seq_at cap ?s p = of_nat p"
        using p0 at0 by (intro exI [of _ p0]) simp
      then show ?thesis using True by simp
    next
      case False
      have ne: "p \<noteq> p0" if "owns (prods s j) (of_nat p)" for p
        using inv(9) [OF that, of i] that False assms(2) p0(3) by auto
      have win: "p < ?d + cap" if "p < ?e" for p using that inv(4) by linarith
      show ?thesis
        using inv(8) [of j] False ne by (cases "prods s j") (fastforce simp: atw win)+
    qed
    show "cell_ok cap ?s p" if "length (popped ?s) \<le> p \<and> p < length (popped ?s) + cap" for p
    proof -
      have w: "?d \<le> p" "p < ?d + cap" and "cell_ok cap s p" using that inv(10) by simp_all
      moreover have "item_at cap ?s p = claimed s ! p" if "item_at cap s p = claimed s ! p"
        using that atw(2) [OF w] at0(2) p0(4) by (cases "p = p0") simp_all
      moreover have "held ?s p = held s p" unfolding held_def own ..
      ultimately show ?thesis using atw(1) [OF w] by (auto simp: cell_ok_def split: if_splits)
    qed
    show "cons_ok cap ?s (cons ?s)"
      using inv(11) ring_shape_cap [OF inv(1)] by (cases "cons s") (auto simp: atw)
  qed (use inv in \<open>auto simp: upd_cell_def ring_shape_def\<close>)
qed

lemma inv_release_seq:
  fixes s :: "'a system"
  assumes "ring_inv cap s" and "prods s i = Release_Seq pos"
  shows "ring_inv cap ((set_prod i Idle s)
      \<lparr>shared := upd_cell pos (\<lambda>c. c\<lparr>sequence := pos + 1\<rparr>) (shared s)\<rparr>)" (is "ring_inv cap ?s")
proof -
  note inv = ring_inv_facts [OF assms(1)]
  let ?d = "length (popped s)" and ?e = "length (claimed s)"
  obtain p0 where p0: "p0 < ?e" "?d \<le> p0" "pos = of_nat p0" "item_at cap s p0 = claimed s ! p0" "seq_at cap s p0 = of_nat p0"
    using inv(8) [of i] assms(2) by auto
  have w0: "p0 < ?d + cap" using p0(1) inv(4) by linarith
  have "buffer (shared ?s) = buffer (upd_cell (of_nat p0) (\<lambda>c. c\<lparr>sequence := of_nat (p0 + 1)\<rparr>) (shared s))"
    by (simp add: p0(3) add_ac)
  note at = cell_written [OF inv(1) this]
  have at0: "seq_at cap ?s p0 = of_nat (p0 + 1)" "item_at cap ?s p0 = claimed s ! p0"
    using at(1,2) p0(4) by (simp_all add: item_at_def)
  have atw: "seq_at cap ?s p = seq_at cap s p" "item_at cap ?s p = item_at cap s p"
    if "?d \<le> p" "p < ?d + cap" "p \<noteq> p0" for p
    using at(3) [OF p0(2) w0 that] by blast+
  have own: "owns (prods s j) pos' \<and> j \<noteq> i" if "owns (prods ?s j) pos'" for j pos'
    using that by (auto split: if_splits)
  have other: "p \<noteq> p0" if "owns (prods s j) (of_nat p)" "j \<noteq> i" for j p
    using inv(9) [OF that(1), of i] that(2) assms(2) p0(3) by auto
  show ?thesis
    unfolding ring_inv_def
  proof (intro conjI allI impI)
    show "prod_ok cap ?s (prods ?s j)" for j
    proof (cases "j = i")
      case False
      have win: "p < ?d + cap" if "p < ?e" for p using that inv(4) by linarith
      show ?thesis
        using inv(8) [of j] False other [of j] by (cases "prods s j") (fastforce simp: atw win)+
    qed simp
    show "j = k" if "owns (prods ?s j) pos' \<and> owns (prods ?s k) pos'" for j k pos'
      using that own inv(9) by blast
    show "cell_ok cap ?s p" if "length (popped ?s) \<le> p \<and> p < length (popped ?s) + cap" for p
    proof (cases "p = p0")
      case True
      then show ?thesis using p0(1) at0 by (simp add: cell_ok_def)
    next
      case False
      have w: "?d \<le> p" "p < ?d + cap" and ok: "cell_ok cap s p" using that inv(10) by simp_all
      have "held s p \<Longrightarrow> held ?s p"
        by (rule held_keep) (use assms(2) False p0(3) w pos_eq_iff [of p p0] inv(2,3) w0 in auto)
      then show ?thesis using ok atw [OF w False] by (auto simp: cell_ok_def split: if_splits)
    qed
    have "?d \<noteq> p0" if "seq_at cap s ?d = of_nat (?d + 1)"
      using that p0(5) pos_eq_iff [of ?d "?d + 1"] inv(2,3) ring_shape_cap [OF inv(1)] by auto
    then show "cons_ok cap ?s (cons ?s)"
      using inv(11) ring_shape_cap [OF inv(1)] by (cases "cons s") (auto simp: atw)
  qed (use inv in \<open>auto simp: upd_cell_def ring_shape_def\<close>)
qed

lemma prod_ok_popped:
  assumes "ring_inv cap s" and "prod_ok cap s pc" and "claimed s' = claimed s" and "length (popped s') = length (popped s) + 1"
    and "\<And>p. length (popped s) < p \<Longrightarrow> p < length (popped s) + cap \<Longrightarrow> seq_at cap s' p = seq_at cap s p \<and> item_at cap s' p = item_at cap s p"
    and "\<And>p. seq_at cap s p = of_nat p \<Longrightarrow> p \<noteq> length (popped s)"
  shows "prod_ok cap s' pc"
proof -
  have step: "length (popped s) < p \<and> seq_at cap s' p = seq_at cap s p \<and> item_at cap s' p = item_at cap s p"
    if "p < length (claimed s)" "length (popped s) \<le> p" "seq_at cap s p = of_nat p" for p
    using assms(5) [of p] assms(6) [OF that(3)] that ring_inv_facts(4) [OF assms(1)] by linarith
  show ?thesis
  proof (cases pc)
    case (Store_Data x pos)
    then obtain p where p: "p < length (claimed s)" "length (popped s) \<le> p" "pos = of_nat p" "claimed s ! p = x" "seq_at cap s p = of_nat p"
      using assms(2) by auto
    then have "length (popped s') \<le> p" "seq_at cap s' p = of_nat p" using step [OF p(1,2,5)] assms(4) by simp_all
    then show ?thesis using p assms(3) unfolding Store_Data prod_ok.simps by metis
  next
    case (Release_Seq pos)
    then obtain p where p: "p < length (claimed s)" "length (popped s) \<le> p" "pos = of_nat p" "item_at cap s p = claimed s ! p"
        "seq_at cap s p = of_nat p"
      using assms(2) by auto
    then have "length (popped s') \<le> p" "seq_at cap s' p = of_nat p" "item_at cap s' p = claimed s ! p"
      using step [OF p(1,2,5)] assms(4) by simp_all
    then show ?thesis using p assms(3) unfolding Release_Seq prod_ok.simps by metis
  qed (use assms(2-4) in auto)
qed

lemma inv_release_cell:
  fixes s :: "'a system"
  assumes "ring_inv cap s" and "cons s = Release_Cell x" and "pos = dequeue_pos (shared s)"
  shows "ring_inv cap (s\<lparr>shared := (upd_cell pos (\<lambda>c. c\<lparr>sequence := pos + ring_mask (shared s) + 1\<rparr>) (shared s))
        \<lparr>dequeue_pos := pos + 1\<rparr>, cons := Look, popped := popped s @ [x]\<rparr>)" (is "ring_inv cap ?s")
proof -
  note inv = ring_inv_facts [OF assms(1)]
  let ?d = "length (popped s)" and ?e = "length (claimed s)"
  have c: "?d < ?e" "seq_at cap s ?d = of_nat (?d + 1)" "x = claimed s ! ?d" using inv(11) assms(2) by simp_all
  have cap: "2 \<le> cap" by (rule ring_shape_cap [OF inv(1)])
  have pos: "pos = of_nat ?d" using assms(3) inv(6) by simp
  have nx: "of_nat ?d + ring_mask (shared s) + 1 = of_nat (?d + cap)"
    using inv(1) cap by (auto simp: ring_shape_def of_nat_diff)
  have "buffer (shared ?s) = buffer (upd_cell (of_nat ?d) (\<lambda>c. c\<lparr>sequence := of_nat (?d + cap)\<rparr>) (shared s))"
    unfolding nx [symmetric] pos by simp
  note at = cell_written [OF inv(1) this]
  have at0: "seq_at cap ?s (?d + cap) = of_nat (?d + cap)" using at(1) by (simp add: seq_at_def)
  have atw: "seq_at cap ?s p = seq_at cap s p" "item_at cap ?s p = item_at cap s p"
    if "?d < p" "p < ?d + cap" for p
    using at(3) [of ?d p] that cap by (simp_all)
  have free: "p \<noteq> ?d" if "seq_at cap s p = of_nat p" for p
    using that c(2) pos_eq_iff [of ?d "?d + 1"] inv(2) c(1) cap by auto
  have win: "p < ?d + cap" if "p < ?e" for p using that inv(4) by linarith
  have same: "prods ?s = prods s" "claimed ?s = claimed s" "length (popped ?s) = ?d + 1" "cons ?s = Look"
    "held ?s = held s" "enqueue_pos (shared ?s) = enqueue_pos (shared s)" "dequeue_pos (shared ?s) = of_nat (?d + 1)"
    by (simp_all add: held_def fun_eq_iff upd_cell_def pos add_ac)
  show ?thesis
    unfolding ring_inv_def same
  proof (intro conjI allI impI)
    show "prod_ok cap ?s (prods s j)" for j
      by (rule prod_ok_popped [OF assms(1) inv(8) same(2,3)]) (simp_all only: atw free not_False_eq_True simp_thms)
    show "popped ?s = take (?d + 1) (claimed s)" using inv(7) c(1,3) by (simp add: take_Suc_conv_app_nth)
    show "cell_ok cap ?s p" if "?d + 1 \<le> p \<and> p < ?d + 1 + cap" for p
    proof (cases "p = ?d + cap")
      case True
      then show ?thesis using at0 inv(4) by (simp add: cell_ok_def same)
    next
      case False
      then have "?d < p" "p < ?d + cap" using that by simp_all
      then show ?thesis using inv(10) [of p] atw [of p] by (simp add: cell_ok_def same cong: if_cong)
    qed
    show "j = k" if "owns (prods s j) pos' \<and> owns (prods s k) pos'" for j k pos'
      using that inv(9) by blast
  qed (use inv c in \<open>auto simp: upd_cell_def ring_shape_def\<close>)
qed

lemma inv_consumer:
  assumes "ring_inv cap s" and "cons_ok cap s pc"
  shows "ring_inv cap (s\<lparr>cons := pc\<rparr>)"
proof -
  note inv = ring_inv_facts [OF assms(1)]
  have at: "seq_at cap (s\<lparr>cons := pc\<rparr>) = seq_at cap s" "item_at cap (s\<lparr>cons := pc\<rparr>) = item_at cap s"
    "held (s\<lparr>cons := pc\<rparr>) = held s" for pc
    by (simp_all add: system_simps held_def fun_eq_iff)
  have "prod_ok cap (s\<lparr>cons := pc\<rparr>) pc' = prod_ok cap s pc'" for pc' by (cases pc') (simp_all add: at)
  moreover have "cell_ok cap (s\<lparr>cons := pc\<rparr>) p = cell_ok cap s p" for p by (simp add: cell_ok_def at)
  moreover have "cons_ok cap (s\<lparr>cons := pc\<rparr>) pc = cons_ok cap s pc" by (cases pc) (simp_all add: at)
  ultimately show ?thesis using inv assms(2) unfolding ring_inv_def by auto
qed

text \<open>What the consumer finds in the cell of its position.\<close>

lemma consumer_cell:
  assumes "ring_inv cap s"
  shows "get_cell (dequeue_pos (shared s)) (shared s) = Some (buffer (shared s) ! (length (popped s) mod cap))"
    "cell_ok cap s (length (popped s))" "length (popped s) + 1 < 2 ^ 63"
  using ring_inv_facts [OF assms] ring_cells(1) [of cap "shared s" "length (popped s)"]
    ring_shape_cap [of cap "shared s"] by simp_all

lemma consumer_ready:
  assumes "ring_inv cap s" and "seq_at cap s (length (popped s)) = of_nat q" and "q = length (popped s) \<or> q = length (popped s) + 1"
  shows "seq_diff (seq_at cap s (length (popped s))) (dequeue_pos (shared s) + 1) =
    Some (int q - int (length (popped s) + 1))"
proof -
  have pos: "dequeue_pos (shared s) + 1 = of_nat (length (popped s) + 1)"
    by (simp add: ring_inv_facts(6) [OF assms(1)])
  show ?thesis
    unfolding assms(2) pos by (rule seq_diff_pos) (use assms(3) consumer_cell(3) [OF assms(1)] in auto)
qed

lemma inv_look_ready:
  assumes "ring_inv cap s" and "get_cell (dequeue_pos (shared s)) (shared s) = Some cell"
    and "seq_diff (sequence cell) (dequeue_pos (shared s) + 1) = Some 0"
  shows "cons_ok cap s Copy_Data"
proof -
  let ?d = "length (popped s)"
  note cell = consumer_cell [OF assms(1)]
  have seq: "sequence cell = seq_at cap s ?d" using cell(1) assms(2) by (simp add: seq_at_def)
  have "seq_at cap s ?d \<noteq> of_nat ?d"
    using consumer_ready [OF assms(1), of ?d] assms(3) seq by auto
  with cell(2) show ?thesis by (auto simp: cell_ok_def split: if_splits)
qed

lemma inv_copy_data:
  assumes "ring_inv cap s" and "cons s = Copy_Data" and "get_cell (dequeue_pos (shared s)) (shared s) = Some cell"
  shows "cons_ok cap s (Release_Cell (cell_data cell))"
proof -
  let ?d = "length (popped s)"
  note cell = consumer_cell [OF assms(1)]
  have c: "?d < length (claimed s)" "seq_at cap s ?d = of_nat (?d + 1)"
    using ring_inv_facts(11) [OF assms(1)] assms(2) by simp_all
  have "of_nat (?d + 1) \<noteq> (of_nat ?d :: u64)" using pos_eq_iff [of "?d + 1" ?d] cell(3) by simp
  then have "item_at cap s ?d = claimed s ! ?d" using cell(2) c by (auto simp: cell_ok_def)
  with c cell(1) assms(3) show ?thesis by (simp add: item_at_def)
qed

lemma step_inv:
  assumes "step s s'" and "ring_inv cap s" and "length (claimed s') + cap < 2 ^ 63"
  shows "ring_inv cap s'"
  using assms
proof (cases rule: step.cases)
  case (seq_behind i x pos cell diff)
  then show ?thesis using inv_set_prod [OF assms(2), of i Idle] by simp
next
  case (look_ready cell)
  then show ?thesis using inv_consumer [OF assms(2) inv_look_ready [OF assms(2)]] by simp
next
  case (copy_data cell)
  then show ?thesis using inv_consumer [OF assms(2) inv_copy_data [OF assms(2)]] by simp
qed (auto intro: inv_reload inv_seq_equal inv_cas_done inv_store_data inv_release_seq inv_release_cell
    simp: assms(2))

lemma step_grows: "step s s' \<Longrightarrow> length (claimed s) \<le> length (claimed s')"
  by (cases rule: step.cases) auto

lemma reachable_inv:
  assumes "step\<^sup>*\<^sup>* (start (2 ^ m) init) s" and "0 < m" and "m < 62" and "length (claimed s) + 2 ^ m < 2 ^ 63"
  shows "ring_inv (2 ^ m) s"
  using assms(1,4)
proof (induction rule: rtranclp_induct)
  case base
  have "ring_rel (2 ^ m) (new_ring (2 ^ m) init) [] 0" by (rule new_ring_rel [OF refl assms(2,3)])
  then show ?case
    by (simp add: ring_inv_def ring_rel_def start_def cell_ok_def seq_at_def)
next
  case (step s s')
  then show ?case using step_inv step_grows by (metis add_le_mono1 le_less_trans)
qed

text \<open>A producer that has loaded a position finds a cell and a difference that do not overflow.\<close>

lemma newest_not_ahead:
  assumes "ring_inv cap s" and "p = length (claimed s)" and "seq_at cap s p = of_nat q" and "q < 2 ^ 63"
  shows "q \<le> p"
proof (cases "p < length (popped s) + cap")
  case True
  note inv = ring_inv_facts [OF assms(1)]
  have "seq_at cap s p = of_nat p" using inv(10) [of p] inv(3) assms(2) True by (simp add: cell_ok_def)
  moreover have "p < 2 ^ 63" using assms(2) inv(2) by linarith
  ultimately show ?thesis using assms(3,4) pos_eq_iff [of q p] by simp
next
  case False
  note inv = ring_inv_facts [OF assms(1)]
  let ?d = "length (popped s)"
  have d: "p = ?d + cap" using False assms(2) inv(4) by simp
  then have "seq_at cap s p = seq_at cap s ?d" by (simp add: seq_at_def)
  then have "seq_at cap s p = of_nat ?d \<or> seq_at cap s p = of_nat (?d + 1)"
    using consumer_cell(2) [OF assms(1)] by (auto simp: cell_ok_def split: if_splits)
  then have "q = ?d \<or> q = ?d + 1"
    using assms(3,4) consumer_cell(3) [OF assms(1)] pos_eq_iff [of q ?d] pos_eq_iff [of q "?d + 1"] by (metis add_lessD1)
  then show ?thesis using d ring_shape_cap [OF inv(1)] by linarith
qed

lemma load_seq_moves:
  assumes "ring_inv cap s" and "prods s i = Load_Seq x pos"
  shows "\<exists>s'. step s s' \<and> prods s' i \<noteq> prods s i"
proof -
  note inv = ring_inv_facts [OF assms(1)]
  obtain p where p: "p \<le> length (claimed s)" "pos = of_nat p" using inv(8) [of i] assms(2) by auto
  have lt: "p < 2 ^ 63" using p(1) inv(2) by linarith
  obtain q where q: "get_cell pos (shared s) = Some (buffer (shared s) ! (p mod cap))"
    "seq_at cap s p = of_nat q" "q < 2 ^ 63"
    using loaded_cell [OF assms(1) p(1)] p(2) by metis
  have diff: "seq_diff (sequence (buffer (shared s) ! (p mod cap))) pos = Some (int q - int p)"
    using seq_diff_pos [OF q(3) lt] q(2) p(2) by (simp add: seq_at_def)
  consider "q = p" | "q < p" | "p < q" by linarith
  then show ?thesis
  proof cases
    case 1
    then have "step s (set_prod i (Cas x pos) s)" using seq_equal [OF assms(2) q(1) diff] by simp
    then show ?thesis using assms(2) by (intro exI [of _ "set_prod i (Cas x pos) s"]) simp
  next
    case 2
    then have "step s (set_prod i Idle s)" using seq_behind [OF assms(2) q(1) diff] by simp
    then show ?thesis using assms(2) by (intro exI [of _ "set_prod i Idle s"]) simp
  next
    case 3
    then have "p \<noteq> length (claimed s)" using newest_not_ahead [OF assms(1) _ q(2,3)] by auto
    then have "pos \<noteq> enqueue_pos (shared s)" using p pos_eq_iff [of p "length (claimed s)"] inv(2,5) lt by simp
    moreover have "step s (set_prod i (Load_Seq x (enqueue_pos (shared s))) s)"
      using seq_ahead [OF assms(2) q(1) diff] 3 by simp
    ultimately show ?thesis
      using assms(2) by (intro exI [of _ "set_prod i (Load_Seq x (enqueue_pos (shared s))) s"]) simp
  qed
qed

lemma producer_moves:
  assumes "ring_inv cap s" and "prods s i \<noteq> Idle"
  shows "\<exists>s'. step s s' \<and> prods s' i \<noteq> prods s i"
proof (cases "prods s i")
  case (Load_Seq x pos)
  then show ?thesis by (rule load_seq_moves [OF assms(1)])
next
  case (Cas x pos)
  then show ?thesis using cas_failed [of s i x pos] by (intro exI [of _ "set_prod i (Load_Seq x (enqueue_pos (shared s))) s"]) simp
next
  case (Store_Data x pos)
  show ?thesis by (intro exI conjI) (rule step.store_data [OF Store_Data], simp add: Store_Data)
next
  case (Release_Seq pos)
  show ?thesis by (intro exI conjI) (rule step.release_seq [OF Release_Seq], simp add: Release_Seq)
qed (use assms(2) in simp)

lemma refused_step:
  assumes "ring_inv cap s" and "step s s'" and "prods s i = Load_Seq x pos" and "prods s' i = Idle"
  shows "length (claimed s) = length (popped s) + cap"
  using assms(2)
proof (cases rule: step.cases)
  case (seq_behind j y pos' cell diff)
  then have "j = i" using assms(3,4) by (auto split: if_splits)
  with seq_behind show ?thesis using full_when_refused [OF assms(1), of i] by blast
qed (use assms(3,4) in \<open>auto split: if_splits\<close>)

text \<open>
  The two readings of the code agree: a call of \<open>try_push\<close> or \<open>try_pop\<close> that runs undisturbed is a run
  of the transition system.
\<close>

definition after_push :: "nat \<Rightarrow> 'a \<Rightarrow> bool \<Rightarrow> 'a MpscRingBuffer \<Rightarrow> 'a system \<Rightarrow> 'a system" where
  "after_push i item ok r s = (set_prod i Idle s)
     \<lparr>shared := r, claimed := claimed s @ (if ok then [item] else [])\<rparr>"

lemma claim_run:
  assumes "step s (set_prod i (Cas item pos) s)" and "enqueue_pos (shared s) = pos"
  shows "step\<^sup>*\<^sup>* s (after_push i item True
    (upd_cell pos (\<lambda>c. c\<lparr>sequence := pos + 1\<rparr>)
      (upd_cell pos (\<lambda>c. c\<lparr>cell_data := item\<rparr>) ((shared s)\<lparr>enqueue_pos := pos + 1\<rparr>))) s)"
proof -
  let ?r1 = "(shared s)\<lparr>enqueue_pos := pos + 1\<rparr>"
  let ?r2 = "upd_cell pos (\<lambda>c. c\<lparr>cell_data := item\<rparr>) ?r1"
  let ?r3 = "upd_cell pos (\<lambda>c. c\<lparr>sequence := pos + 1\<rparr>) ?r2"
  let ?in = "\<lambda>pc r'. (set_prod i pc s)\<lparr>shared := r', claimed := claimed s @ [item]\<rparr>"
  have "step (set_prod i (Cas item pos) s) (?in (Store_Data item pos) ?r1)"
    using cas_done [of "set_prod i (Cas item pos) s" i item pos] assms(2) by simp
  moreover have "step (?in (Store_Data item pos) ?r1) (?in (Release_Seq pos) ?r2)"
    using store_data [of "?in (Store_Data item pos) ?r1" i item pos] by (cases s) simp
  moreover have "step (?in (Release_Seq pos) ?r2) (?in Idle ?r3)"
    using release_seq [of "?in (Release_Seq pos) ?r2" i pos] by (cases s) simp
  ultimately have "step\<^sup>*\<^sup>* s (?in Idle ?r3)"
    using assms(1) by (meson converse_rtranclp_into_rtranclp rtranclp.rtrancl_refl)
  then show ?thesis by (simp add: after_push_def)
qed

lemma reload_run:
  assumes "step\<^sup>*\<^sup>* s (set_prod i pc s)" and "step\<^sup>*\<^sup>* (set_prod i pc s) (after_push i item ok r (set_prod i pc s))"
  shows "step\<^sup>*\<^sup>* s (after_push i item ok r s)"
proof -
  have "after_push i item ok r (set_prod i pc s) = after_push i item ok r s" by (simp add: after_push_def)
  then show ?thesis using rtranclp_trans [OF assms] by simp
qed

lemma cas_retry:
  assumes "step s (set_prod i (Cas item pos) s)"
  shows "step\<^sup>*\<^sup>* s (set_prod i (Load_Seq item (enqueue_pos (shared s))) s)"
  using assms cas_failed [of "set_prod i (Cas item pos) s" i item pos]
  by (auto intro: converse_rtranclp_into_rtranclp)

lemma push_loop_run:
  fixes r :: "'a MpscRingBuffer"
  assumes "push_loop weak item pos r = Some y"
  shows "\<forall>s. shared s = r \<longrightarrow> prods s i = Load_Seq item pos \<longrightarrow> step\<^sup>*\<^sup>* s (after_push i item (fst y) (snd y) s)"
proof (rule push_loop.raw_induct [OF _ assms], intro allI impI)
  fix push_loop weak item pos y and r :: "'a MpscRingBuffer" and s :: "'a system"
  assume "\<And>weak item pos r y. push_loop weak item pos r = Some y \<Longrightarrow>
      \<forall>s. shared s = r \<longrightarrow> prods s i = Load_Seq item pos \<longrightarrow> step\<^sup>*\<^sup>* s (after_push i item (fst y) (snd y) s)"
    and "(do {
      cell \<leftarrow> get_cell pos r;
      diff \<leftarrow> seq_diff (sequence cell) pos;
      if diff = 0 then
        (if enqueue_pos r = pos \<and> weak = 0
         then Some (True,
           upd_cell pos (\<lambda>c. c\<lparr>sequence := pos + 1\<rparr>)
             (upd_cell pos (\<lambda>c. c\<lparr>cell_data := item\<rparr>) (r\<lparr>enqueue_pos := pos + 1\<rparr>)))
         else push_loop (weak - 1) item (enqueue_pos r) r)
      else if diff < 0 then Some (False, r)
      else push_loop weak item (enqueue_pos r) r
    }) = Some y"
    and "shared s = r" and "prods s i = Load_Seq item pos"
  note call = this
  obtain cell diff where cell: "get_cell pos (shared s) = Some cell" "seq_diff (sequence cell) pos = Some diff"
    using call(2,3) by (auto simp: bind_eq_Some_conv)
  let ?reload = "set_prod i (Load_Seq item (enqueue_pos r)) s"
  have again: "step\<^sup>*\<^sup>* s (after_push i item (fst y) (snd y) s)"
    if "step\<^sup>*\<^sup>* s ?reload" "push_loop w item (enqueue_pos r) r = Some y" for w
    using reload_run [OF that(1)] call(1) [OF that(2)] call(3) by simp
  consider "diff = 0" | "diff < 0" | "0 < diff" by linarith
  then show "step\<^sup>*\<^sup>* s (after_push i item (fst y) (snd y) s)"
  proof cases
    case 1
    have start: "step s (set_prod i (Cas item pos) s)" by (rule seq_equal [OF call(4) cell 1])
    show ?thesis
    proof (cases "enqueue_pos r = pos \<and> weak = 0")
      case True
      have "y = (True, upd_cell pos (\<lambda>c. c\<lparr>sequence := pos + 1\<rparr>)
          (upd_cell pos (\<lambda>c. c\<lparr>cell_data := item\<rparr>) ((shared s)\<lparr>enqueue_pos := pos + 1\<rparr>)))"
        using call(2,3) cell 1 True by simp
      then show ?thesis using claim_run [OF start] call(3) True by simp
    next
      case False
      then have "push_loop (weak - 1) item (enqueue_pos r) r = Some y"
        using call(2,3) cell 1 by (auto split: if_splits)
      then show ?thesis using again cas_retry [OF start] call(3) by blast
    qed
  next
    case 2
    then have "y = (False, r)" using call(2,3) cell by simp
    then have "after_push i item (fst y) (snd y) s = set_prod i Idle s" using call(3) by (simp add: after_push_def)
    moreover have "step s (set_prod i Idle s)" by (rule seq_behind [OF call(4) cell 2])
    ultimately show ?thesis by simp
  next
    case 3
    have "step s ?reload" using seq_ahead [OF call(4) cell 3] call(3) by simp
    moreover have "push_loop weak item (enqueue_pos r) r = Some y" using call(2,3) cell 3 by simp
    ultimately show ?thesis using again by blast
  qed
qed

lemma try_push_run:
  assumes "try_push weak item (shared s) = Some (ok, r)" and "prods s i = Idle"
  shows "step\<^sup>*\<^sup>* s (after_push i item ok r s)"
proof -
  let ?s = "set_prod i (Load_Seq item (enqueue_pos (shared s))) s"
  have "step s ?s" by (rule enter [OF assms(2)])
  moreover have "step\<^sup>*\<^sup>* ?s (after_push i item ok r ?s)"
    using push_loop_run [OF assms(1) [unfolded try_push_def], of i] by simp
  moreover have "after_push i item ok r ?s = after_push i item ok r s" by (simp add: after_push_def)
  ultimately show ?thesis by (metis converse_rtranclp_into_rtranclp)
qed

lemma try_pop_run:
  assumes "try_pop (shared s) = Some (Some x, r)" and "cons s = Look"
  shows "step\<^sup>*\<^sup>* s (s\<lparr>shared := r, popped := popped s @ [x]\<rparr>)"
proof -
  let ?pos = "dequeue_pos (shared s)"
  obtain cell where cell: "get_cell ?pos (shared s) = Some cell" "seq_diff (sequence cell) (?pos + 1) = Some 0"
    and x: "x = cell_data cell" and r: "r = (upd_cell ?pos (\<lambda>c. c\<lparr>sequence := ?pos + ring_mask (shared s) + 1\<rparr>) (shared s))
      \<lparr>dequeue_pos := ?pos + 1\<rparr>"
    using assms(1) by (auto simp: try_pop_def bind_eq_Some_conv split: if_splits)
  have "step s (s\<lparr>cons := Copy_Data\<rparr>)" by (rule look_ready [OF assms(2) cell])
  moreover have "step (s\<lparr>cons := Copy_Data\<rparr>) (s\<lparr>cons := Release_Cell x\<rparr>)"
    using copy_data [of "s\<lparr>cons := Copy_Data\<rparr>" cell] cell(1) x by simp
  moreover have "step (s\<lparr>cons := Release_Cell x\<rparr>) (s\<lparr>shared := r, cons := Look, popped := popped s @ [x]\<rparr>)"
    using release_cell [of "s\<lparr>cons := Release_Cell x\<rparr>", OF _ refl] r by simp
  moreover have "s\<lparr>shared := r, cons := Look, popped := popped s @ [x]\<rparr> = s\<lparr>shared := r, popped := popped s @ [x]\<rparr>"
    using assms(2) by (cases s) simp
  ultimately show ?thesis by (metis converse_rtranclp_into_rtranclp rtranclp.rtrancl_refl)
qed

text \<open>No two threads are at one cell, once they have claimed it or found it published.\<close>

lemma owner_cells:
  assumes "ring_inv cap s" and "owns (prods s i) pos" and "owns (prods s j) pos'"
    and "cell_of pos' (shared s) = cell_of pos (shared s)"
  shows "i = j"
proof -
  note inv = ring_inv_facts [OF assms(1)]
  let ?d = "length (popped s)"
  obtain p where p: "pos = of_nat p" "?d \<le> p" "p < ?d + cap" by (rule owner_pos [OF assms(1,2)])
  obtain q where q: "pos' = of_nat q" "?d \<le> q" "q < ?d + cap" by (rule owner_pos [OF assms(1,3)])
  have "q = p" using assms(4) mod_window_eq [OF _ q(2,3) p(2,3)] by (simp add: q(1) p(1) cell_of_pos [OF inv(1)])
  then show ?thesis using assms(2,3) p(1) q(1) inv(9) by blast
qed

lemma owner_not_consumed:
  assumes "ring_inv cap s" and "owns (prods s i) pos" and "cons s \<noteq> Look"
  shows "cell_of (dequeue_pos (shared s)) (shared s) \<noteq> cell_of pos (shared s)"
proof
  note inv = ring_inv_facts [OF assms(1)]
  let ?d = "length (popped s)"
  obtain p where p: "pos = of_nat p" "?d \<le> p" "p < ?d + cap" "seq_at cap s p = of_nat p" "p < 2 ^ 63"
    by (rule owner_pos [OF assms(1,2)])
  assume "cell_of (dequeue_pos (shared s)) (shared s) = cell_of pos (shared s)"
  then have "?d = p"
    using mod_window_eq [of ?d cap p ?d] p ring_shape_cap [OF inv(1)] by (simp add: inv(6) cell_of_pos [OF inv(1)])
  moreover have "seq_at cap s ?d = of_nat (?d + 1)" using inv(11) assms(3) by (cases "cons s") simp_all
  ultimately show False using p(4,5) pos_eq_iff [of ?d "?d + 1"] consumer_cell(3) [OF assms(1)] by simp
qed

section \<open>Properties\<close>

text \<open>C14. First in, first out. In every state that any interleaving of producers and consumer can
  reach, the items delivered so far are exactly the first ones in the order in which the producers
  claimed their positions: nothing is lost, duplicated, reordered or made up. At most \<open>capacity\<close>
  items are in flight.\<close>

theorem ring_delivers_in_claim_order:
  assumes "step\<^sup>*\<^sup>* (start (2 ^ m) init) s" and "0 < m" and "m < 62" and "length (claimed s) + 2 ^ m < 2 ^ 63"
  shows "popped s = take (length (popped s)) (claimed s) \<and> length (claimed s) \<le> length (popped s) + 2 ^ m"
  using ring_inv_facts(7,4) [OF reachable_inv [OF assms]] by blast

text \<open>No data race on the item of a cell: two producers that are about to store an item, or a
  producer about to store and the consumer about to copy, are never at the same cell.\<close>

theorem ring_cells_exclusive:
  assumes "step\<^sup>*\<^sup>* (start (2 ^ m) init) s" and "0 < m" and "m < 62" and "length (claimed s) + 2 ^ m < 2 ^ 63"
    and "prods s i = Store_Data x pos"
  shows "(\<forall>j y pos'. prods s j = Store_Data y pos' \<longrightarrow> j \<noteq> i \<longrightarrow> cell_of pos' (shared s) \<noteq> cell_of pos (shared s)) \<and>
    (cons s = Copy_Data \<longrightarrow> cell_of (dequeue_pos (shared s)) (shared s) \<noteq> cell_of pos (shared s))"
proof -
  note ri = reachable_inv [OF assms(1-4)]
  have own: "owns (prods s i) pos" using assms(5) by simp
  have "j = i" if "prods s j = Store_Data y pos'" "cell_of pos' (shared s) = cell_of pos (shared s)" for j y pos'
    by (rule owner_cells [OF ri _ own that(2) [symmetric]]) (simp add: that(1))
  then show ?thesis using owner_not_consumed [OF ri own] by auto
qed

text \<open>Under sequentially consistent interleaving a producer inside \<open>try_push\<close> can always move on: no subscript leaves the buffer and no signed
  difference overflows. And it is turned away ("queue full") only at a moment when \<open>capacity\<close> items
  are claimed and not yet delivered.\<close>

theorem ring_producer_progress:
  assumes "step\<^sup>*\<^sup>* (start (2 ^ m) init) s" and "0 < m" and "m < 62" and "length (claimed s) + 2 ^ m < 2 ^ 63"
    and "prods s i \<noteq> Idle"
  shows "(\<exists>s'. step s s' \<and> prods s' i \<noteq> prods s i) \<and>
    (\<forall>s' x pos. step s s' \<and> prods s i = Load_Seq x pos \<and> prods s' i = Idle \<longrightarrow>
       length (claimed s) = length (popped s) + 2 ^ m)"
  using producer_moves [OF reachable_inv [OF assms(1-4)] assms(5)] refused_step [OF reachable_inv [OF assms(1-4)]]
  by blast

text \<open>A published item can be delivered: whenever the next position to be popped has been claimed and
  its producer has released it, the consumer's next call returns that item.\<close>

theorem ring_published_item_delivered:
  assumes "step\<^sup>*\<^sup>* (start (2 ^ m) init) s" and "0 < m" and "m < 62" and "length (claimed s) + 2 ^ m < 2 ^ 63"
    and "cons s = Look" and "length (popped s) < length (claimed s)"
    and "\<And>i. \<not> owns (prods s i) (dequeue_pos (shared s))"
  shows "\<exists>s'. step\<^sup>*\<^sup>* s s' \<and> cons s' = Look \<and> popped s' = popped s @ [claimed s ! length (popped s)]"
proof -
  note ri = reachable_inv [OF assms(1-4)]
  note cell = consumer_cell [OF ri]
  let ?d = "length (popped s)" and ?cell = "buffer (shared s) ! (length (popped s) mod 2 ^ m)"
  have "\<not> held s ?d" using assms(7) ring_inv_facts(6) [OF ri] by (simp add: held_def)
  then have pub: "seq_at (2 ^ m) s ?d = of_nat (?d + 1)" "item_at (2 ^ m) s ?d = claimed s ! ?d"
    using cell(2) assms(6) by (auto simp: cell_ok_def)
  have "seq_diff (sequence ?cell) (dequeue_pos (shared s) + 1) = Some 0"
    using consumer_ready [OF ri pub(1)] by (simp add: seq_at_def)
  then have 1: "step s (s\<lparr>cons := Copy_Data\<rparr>)" by (rule look_ready [OF assms(5) cell(1)])
  have "step (s\<lparr>cons := Copy_Data\<rparr>) (s\<lparr>cons := Copy_Data\<rparr>\<lparr>cons := Release_Cell (cell_data ?cell)\<rparr>)"
    by (rule copy_data) (simp_all add: cell(1))
  then have 2: "step (s\<lparr>cons := Copy_Data\<rparr>) (s\<lparr>cons := Release_Cell (claimed s ! ?d)\<rparr>)"
    using pub(2) by (simp add: item_at_def)
  from release_cell [of "s\<lparr>cons := Release_Cell (claimed s ! ?d)\<rparr>", OF _ refl]
  obtain s' where 3: "step (s\<lparr>cons := Release_Cell (claimed s ! ?d)\<rparr>) s'" "cons s' = Look"
    "popped s' = popped s @ [claimed s ! ?d]"
    by fastforce
  have "step\<^sup>*\<^sup>* s s'" using 1 2 3(1) by (meson converse_rtranclp_into_rtranclp rtranclp.rtrancl_refl)
  with 3 show ?thesis by blast
qed

text \<open>C16. Run one call at a time, the queue is a bounded FIFO list: for every sequence of \<open>try_push\<close> and
  \<open>try_pop\<close> calls on a fresh queue of a power-of-two capacity from 2 on, and any number of spurious
  failures of the compare-and-swap, every call returns and answers as the list does.\<close>

theorem ring_refines_fifo:
  assumes "0 < m" and "m < 62" and "pushes ops + 2 ^ m < 2 ^ 63"
  shows "\<exists>r. run_ops try_push try_pop ops (new_ring (2 ^ m) init) = Some (fifo_ops (2 ^ m) ops [], r)"
  by (rule ring.run_ops_fifo [OF new_ring_rel [OF refl assms(1,2)]]) (use assms(3) in simp)

theorem ring_refines_fifo_witness:
  "\<exists>r. run_ops try_push try_pop [Push 0 (7::nat), Push 3 8, Push 0 9, Pop, Pop, Pop] (new_ring 2 0) =
    Some ([Pushed True, Pushed True, Pushed False, Popped (Some 7), Popped (Some 8), Popped None], r)"
  using ring_refines_fifo [of 1 "[Push 0 (7::nat), Push 3 8, Push 0 9, Pop, Pop, Pop]" 0]
  by (simp add: pushes_def)

text \<open>C39. A capacity of one, although a power of two, breaks the queue: the second \<open>try_push\<close> succeeds
  although the first item has not been taken, that item is overwritten, and \<open>try_pop\<close> then reports an
  empty queue, so both acknowledged items are lost.\<close>

theorem ring_capacity_one_loses:
  "\<exists>r. run_ops try_push try_pop [Push 0 x, Push 0 y, Pop] (new_ring 1 init) =
     Some ([Pushed True, Pushed True, Popped None], r)"
proof -
  let ?ring = "\<lambda>seq d n. \<lparr>ring_mask = 0, buffer = [\<lparr>sequence = seq, cell_data = d\<rparr>], enqueue_pos = n, dequeue_pos = 0\<rparr>"
  have "new_ring 1 init = ?ring 0 init 0" by (simp add: new_ring_def)
  moreover have "try_push 0 x (?ring 0 init 0) = Some (True, ?ring 1 x 1)"
    unfolding try_push_def
    by (subst push_loop.simps) (simp add: get_cell_def upd_cell_def cell_of_def seq_diff_def in_i64_def)
  moreover have "try_push 0 y (?ring 1 x 1) = Some (True, ?ring 2 y 2)"
    unfolding try_push_def
    by (subst push_loop.simps) (simp add: get_cell_def upd_cell_def cell_of_def seq_diff_def in_i64_def)
  moreover have "try_pop (?ring 2 y 2) = Some (None, ?ring 2 y 2)"
    by (simp add: try_pop_def get_cell_def cell_of_def seq_diff_def in_i64_def)
  ultimately show ?thesis by simp
qed

section \<open>A run\<close>

text \<open>Producer 0 claims a cell, stores 7 and releases it.\<close>

definition demo_claimed :: "nat system" where
  "demo_claimed = (set_prod 0 (Store_Data 7 0) (start 2 0))
     \<lparr>shared := (new_ring 2 0)\<lparr>enqueue_pos := 1\<rparr>, claimed := [7]\<rparr>"

definition demo_published :: "nat system" where
  "demo_published = (start 2 0)
     \<lparr>shared := (new_ring 2 0)\<lparr>buffer := [\<lparr>sequence = 1, cell_data = 7\<rparr>, \<lparr>sequence = 1, cell_data = 0\<rparr>],
        enqueue_pos := 1\<rparr>, claimed := [7]\<rparr>"

lemma demo_claimed_reached: "step\<^sup>*\<^sup>* (start (2 ^ 1) 0) demo_claimed"
proof -
  let ?s0 = "start 2 (0::nat)"
  have 1: "step ?s0 (set_prod 0 (Load_Seq 7 0) ?s0)"
    using enter [of ?s0 0 7] by (simp add: start_def new_ring_def)
  have "step (set_prod 0 (Load_Seq 7 0) ?s0) (set_prod 0 (Cas 7 0) (set_prod 0 (Load_Seq 7 0) ?s0))"
    by (rule seq_equal [where diff = 0 and cell = "\<lparr>sequence = 0, cell_data = 0\<rparr>"])
      (simp_all add: start_def new_ring_def get_cell_def cell_of_def seq_diff_def in_i64_def upt_rec)
  then have 2: "step (set_prod 0 (Load_Seq 7 0) ?s0) (set_prod 0 (Cas 7 0) ?s0)" by simp
  have 3: "step (set_prod 0 (Cas 7 0) ?s0) demo_claimed"
    using cas_done [of "set_prod 0 (Cas 7 0) ?s0" 0 7 0]
    by (simp add: demo_claimed_def start_def new_ring_def)
  have "step\<^sup>*\<^sup>* ?s0 demo_claimed"
    using 1 2 3 by (meson converse_rtranclp_into_rtranclp rtranclp.rtrancl_refl)
  then show ?thesis by simp
qed

lemma demo_published_reached: "step\<^sup>*\<^sup>* (start (2 ^ 1) 0) demo_published"
proof -
  let ?s = "demo_claimed\<lparr>prods := (prods demo_claimed)(0 := Release_Seq 0),
    shared := upd_cell 0 (\<lambda>c. c\<lparr>cell_data := 7\<rparr>) (shared demo_claimed)\<rparr>"
  have 1: "step demo_claimed ?s" by (rule store_data) (simp add: demo_claimed_def)
  have "step ?s (?s\<lparr>prods := (prods ?s)(0 := Idle),
      shared := upd_cell 0 (\<lambda>c. c\<lparr>sequence := 0 + 1\<rparr>) (shared ?s)\<rparr>)"
    by (rule release_seq) simp
  moreover have "?s\<lparr>prods := (prods ?s)(0 := Idle),
      shared := upd_cell 0 (\<lambda>c. c\<lparr>sequence := 0 + 1\<rparr>) (shared ?s)\<rparr> = demo_published"
    by (simp add: demo_claimed_def demo_published_def start_def new_ring_def upd_cell_def cell_of_def
        upt_rec fun_eq_iff)
  ultimately have 2: "step ?s demo_published" by simp
  show ?thesis using demo_claimed_reached 1 2 by (meson rtranclp.rtrancl_into_rtrancl)
qed

text \<open>Then the consumer is about to copy the 7 while producer 0 is about to store an 8.\<close>

definition demo_busy :: "nat system" where
  "demo_busy = (set_prod 0 (Store_Data 8 1) demo_published)
     \<lparr>shared := (shared demo_published)\<lparr>enqueue_pos := 2\<rparr>, cons := Copy_Data, claimed := [7, 8]\<rparr>"

lemma demo_busy_reached: "step\<^sup>*\<^sup>* (start (2 ^ 1) 0) demo_busy"
proof -
  let ?s0 = "demo_published\<lparr>cons := Copy_Data\<rparr>"
  have 0: "step demo_published ?s0"
    by (rule look_ready [where cell = "\<lparr>sequence = 1, cell_data = 7\<rparr>"])
      (simp_all add: demo_published_def start_def new_ring_def get_cell_def cell_of_def seq_diff_def in_i64_def)
  have 1: "step ?s0 (set_prod 0 (Load_Seq 8 1) ?s0)"
    using enter [of ?s0 0 8] by (simp add: demo_published_def start_def)
  have "step (set_prod 0 (Load_Seq 8 1) ?s0) (set_prod 0 (Cas 8 1) (set_prod 0 (Load_Seq 8 1) ?s0))"
    by (rule seq_equal [where diff = 0 and cell = "\<lparr>sequence = 1, cell_data = 0\<rparr>"])
      (simp_all add: demo_published_def start_def new_ring_def get_cell_def cell_of_def seq_diff_def in_i64_def)
  then have 2: "step (set_prod 0 (Load_Seq 8 1) ?s0) (set_prod 0 (Cas 8 1) ?s0)" by simp
  have 3: "step (set_prod 0 (Cas 8 1) ?s0) demo_busy"
    using cas_done [of "set_prod 0 (Cas 8 1) ?s0" 0 8 1]
    by (simp add: demo_busy_def demo_published_def start_def new_ring_def)
  show ?thesis using demo_published_reached 0 1 2 3 by (meson rtranclp.rtrancl_into_rtrancl)
qed

section \<open>Witnesses\<close>

theorem ring_delivers_in_claim_order_witness:
  "popped demo_published = take (length (popped demo_published)) (claimed demo_published) \<and>
   length (claimed demo_published) \<le> length (popped demo_published) + 2 ^ 1"
  by (rule ring_delivers_in_claim_order [OF demo_published_reached]) (simp_all add: demo_published_def)

theorem ring_cells_exclusive_witness:
  "cell_of (dequeue_pos (shared demo_busy)) (shared demo_busy) \<noteq> cell_of 1 (shared demo_busy)"
proof -
  have "prods demo_busy 0 = Store_Data 8 1" "cons demo_busy = Copy_Data" "length (claimed demo_busy) + 2 ^ 1 < 2 ^ 63"
    by (simp_all add: demo_busy_def)
  then show ?thesis using ring_cells_exclusive [OF demo_busy_reached, of 0 8 1] by simp
qed

theorem ring_producer_progress_witness: "\<exists>s'. step demo_claimed s' \<and> prods s' 0 \<noteq> prods demo_claimed 0"
proof -
  have "prods demo_claimed 0 \<noteq> Idle" "length (claimed demo_claimed) + 2 ^ 1 < 2 ^ 63"
    by (simp_all add: demo_claimed_def)
  then show ?thesis using ring_producer_progress [OF demo_claimed_reached, of 0] by simp
qed

theorem ring_published_item_delivered_witness:
  "\<exists>s'. step\<^sup>*\<^sup>* demo_published s' \<and> cons s' = Look \<and> popped s' = [] @ [7]"
proof -
  have "cons demo_published = Look" "popped demo_published = []" "claimed demo_published = [7]"
    "\<And>i. \<not> owns (prods demo_published i) (dequeue_pos (shared demo_published))"
    by (simp_all add: demo_published_def start_def)
  then show ?thesis using ring_published_item_delivered [OF demo_published_reached] by simp
qed

end
