(* ===== verification/Engine.thy ===== *)
theory Engine
  imports Recovery Idempotency_Cache Ring_Buffer "HOL-Library.Sublist"
begin

text \<open>
  The engine (\<open>engine.hpp\<close>, \<open>engine.cpp\<close>): producers submit transactions to the ring buffer, and the
  single writer thread takes them out, rejects duplicates, validates, appends to the log, applies to
  the working state, publishes and acknowledges. The completion slots belong to the callers; they
  are a memory from pointers to slots, and a null or dangling pointer is undefined behaviour
  (\<open>None\<close>). The operations of the ring buffer are taken as atomic here, which the transition system
  of \<open>Ring_Buffer\<close> justifies.

  The theory shows that \<open>process_pending\<close> always returns and serves the queue in order
  (\<open>process_loop_serves\<close>), and from that: acknowledged transactions are on stable storage, the books
  stay balanced and solvent, a repeated key has no effect, readers see states the ledger went
  through, and recovery after a crash rebuilds exactly the working state.
\<close>

section \<open>State\<close>

record Completion =
  comp_done :: bool
  comp_error :: LedgerError

definition new_completion :: Completion where
  "new_completion = \<lparr>comp_done = False, comp_error = ErrNone\<rparr>"

type_synonym completions = "nat \<rightharpoonup> Completion"

record Config =
  wal_path :: string
  sync_mode :: SyncMode
  ring_buffer_capacity :: u64
  idempotency_capacity :: u64
  publish_snapshot_every_n :: u64

definition default_config :: Config where
  "default_config = \<lparr>wal_path = [], sync_mode = SyncEveryWrite, ring_buffer_capacity = 4096,
     idempotency_capacity = 2 ^ 17, publish_snapshot_every_n = 1\<rparr>"

record PendingRequest =
  req_tx :: Transaction
  completion :: "nat option"

definition default_request :: PendingRequest where
  "default_request = \<lparr>req_tx = default_tx, completion = None\<rparr>"

record LedgerEngine =
  config :: Config
  wal_writer :: BinaryWalWriter
  store :: LedgerStateStore
  idempotency :: IdempotencyCache
  requests :: "PendingRequest MpscRingBuffer"
  next_tx_id :: u64
  processed_since_publish :: u64

section \<open>Operations\<close>

definition new_engine :: "Config \<Rightarrow> LedgerEngine option" where
  "new_engine cfg = do {
     cache \<leftarrow> new_cache (idempotency_capacity cfg);
     Some \<lparr>config = cfg, wal_writer = new_writer, store = new_store, idempotency = cache,
       requests = new_ring (ring_buffer_capacity cfg) default_request, next_tx_id = 0,
       processed_since_publish = 0\<rparr>
   }"

definition engine_open :: "LedgerEngine \<Rightarrow> os \<Rightarrow> result_void \<times> LedgerEngine \<times> os" where
  "engine_open e os =
     (let (r, w, os) = writer_open (wal_path (config e)) (sync_mode (config e)) (wal_writer e) os
      in (r, e\<lparr>wal_writer := w\<rparr>, os))"

definition engine_add_account :: "Account \<Rightarrow> LedgerEngine \<Rightarrow> bool \<times> LedgerEngine" where
  "engine_add_account account e =
     (let (added, s) = add_account account (working (store e))
      in (added, e\<lparr>store := (store e)\<lparr>working := s\<rparr>\<rparr>))"

definition allocate_transaction_id :: "LedgerEngine \<Rightarrow> TransactionId \<times> LedgerEngine" where
  "allocate_transaction_id e = (next_tx_id e + 1, e\<lparr>next_tx_id := next_tx_id e + 1\<rparr>)"

definition engine_snapshot :: "LedgerEngine \<Rightarrow> LedgerState" where
  "engine_snapshot e = published (store e)"

text \<open>
  \<open>submit\<close> clears the caller's slot, stamps the transaction and queues it. \<open>weak\<close> is the number of
  spurious compare-and-swap failures during the push.
\<close>

definition submit ::
    "nat \<Rightarrow> Transaction \<Rightarrow> nat \<Rightarrow> LedgerEngine \<Rightarrow> completions \<Rightarrow> os \<Rightarrow>
     (result_void \<times> LedgerEngine \<times> completions \<times> os) option"
where
  "submit weak tx ptr e cs os = do {
     let (now, os) = monotonic_now_ns os;
     let tx = tx\<lparr>created_at_ns := now\<rparr>;
     slot \<leftarrow> cs ptr;
     let cs = cs(ptr \<mapsto> slot\<lparr>comp_done := False\<rparr>);
     (pushed, ring) \<leftarrow> try_push weak \<lparr>req_tx = tx, completion = Some ptr\<rparr> (requests e);
     Some (if pushed then ErrNone else QueueFull, e\<lparr>requests := ring\<rparr>, cs, os)
   }"

definition complete :: "nat option \<Rightarrow> LedgerError \<Rightarrow> completions \<Rightarrow> completions option" where
  "complete ptr err cs = do {
     p \<leftarrow> ptr;
     slot \<leftarrow> cs p;
     Some (cs(p \<mapsto> slot\<lparr>comp_error := err, comp_done := True\<rparr>))
   }"

text \<open>The publication counter, after a transaction has been applied.\<close>

definition count_and_publish :: "LedgerEngine \<Rightarrow> LedgerEngine" where
  "count_and_publish e =
     (let n = processed_since_publish e + 1 in
      if n \<ge> publish_snapshot_every_n (config e)
      then e\<lparr>store := publish_snapshot (store e), processed_since_publish := 0\<rparr>
      else e\<lparr>processed_since_publish := n\<rparr>)"

definition process_request ::
    "(u64 \<Rightarrow> u64) \<Rightarrow> PendingRequest \<Rightarrow> LedgerEngine \<Rightarrow> completions \<Rightarrow> os \<Rightarrow>
     (LedgerEngine \<times> completions \<times> os) option"
where
  "process_request std_hash request e cs os = do {
     let tx = req_tx request;
     (duplicate, cache) \<leftarrow> check_and_insert std_hash (idempotency_key tx) (idempotency e);
     let e = e\<lparr>idempotency := cache\<rparr>;
     if duplicate then do {
       cs \<leftarrow> complete (completion request) DuplicateTransaction cs;
       Some (e, cs, os)
     }
     else if \<not> has_value (validate_transaction_shape tx) then do {
       cs \<leftarrow> complete (completion request) (validate_transaction_shape tx) cs;
       Some (e, cs, os)
     }
     else do {
       against_state \<leftarrow> validate_transaction_against_state tx (find_account (working (store e)));
       if \<not> has_value against_state then do {
         cs \<leftarrow> complete (completion request) against_state cs;
         Some (e, cs, os)
       }
       else do {
         (appended, w, os) \<leftarrow> wal_append tx (wal_writer e) os;
         let e = e\<lparr>wal_writer := w\<rparr>;
         if \<not> has_value appended then do {
           cs \<leftarrow> complete (completion request) appended cs;
           Some (e, cs, os)
         }
         else do {
           let e = e\<lparr>store := (store e)\<lparr>working := snd (apply_tx tx (working (store e)))\<rparr>\<rparr>;
           let e = count_and_publish e;
           cs \<leftarrow> complete (completion request) ErrNone cs;
           Some (e, cs, os)
         }
       }
     }
   }"

lemma unat_plus_one: "p < m \<Longrightarrow> unat (p + 1) = unat p + 1" for p m :: u64
proof -
  assume "p < m"
  have "unat m < 2 ^ LENGTH(64)" by (rule unsigned_less)
  with \<open>p < m\<close> have "unat p + 1 < 2 ^ 64" by (simp add: word_less_nat_alt)
  then show ?thesis by (simp add: unat_word_ariths)
qed

function process_loop ::
    "(u64 \<Rightarrow> u64) \<Rightarrow> u64 \<Rightarrow> u64 \<Rightarrow> LedgerEngine \<Rightarrow> completions \<Rightarrow> os \<Rightarrow>
     (u64 \<times> LedgerEngine \<times> completions \<times> os) option"
where
  "process_loop std_hash max_items processed e cs os =
     (if processed < max_items then do {
        (popped, ring) \<leftarrow> try_pop (requests e);
        let e = e\<lparr>requests := ring\<rparr>;
        (case popped of
           None \<Rightarrow> Some (processed, e, cs, os)
         | Some request \<Rightarrow> do {
             (e, cs, os) \<leftarrow> process_request std_hash request e cs os;
             process_loop std_hash max_items (processed + 1) e cs os
           })
      }
      else Some (processed, e, cs, os))"
  by auto
termination
proof (relation "measure (\<lambda>(h, max_items, processed, e, cs, os). unat max_items - unat processed)", goal_cases)
  case (2 std_hash max_items processed)
  then show ?case using unat_plus_one [of processed max_items] by (simp add: word_less_nat_alt)
qed simp

declare process_loop.simps [simp del]

definition process_pending ::
    "(u64 \<Rightarrow> u64) \<Rightarrow> u64 \<Rightarrow> LedgerEngine \<Rightarrow> completions \<Rightarrow> os \<Rightarrow>
     (u64 \<times> LedgerEngine \<times> completions \<times> os) option"
where
  "process_pending std_hash max_items e cs os = process_loop std_hash max_items 0 e cs os"

section \<open>One request\<close>

text \<open>What the checks before the log append say.\<close>

definition verdict :: "bool \<Rightarrow> Transaction \<Rightarrow> LedgerState \<Rightarrow> LedgerError" where
  "verdict duplicate tx s =
     (if duplicate then DuplicateTransaction
      else if \<not> has_value (validate_transaction_shape tx) then validate_transaction_shape tx
      else if unknown_account (find_account s) (tx_legs tx) then AccountNotFound
      else if overdraws (find_account s) (tx_legs tx) then InsufficientFunds
      else ErrNone)"

lemma verdict_ok: "verdict duplicate tx s = ErrNone \<longleftrightarrow> \<not> duplicate \<and> admitted (find_account s) tx"
  by (auto simp: verdict_def admitted_def has_value_def validate_transaction_against_state_eq)

text \<open>The effect of an append on the file alone.\<close>

definition file_effect :: "SyncMode \<Rightarrow> Transaction \<Rightarrow> i64 \<Rightarrow> LedgerError \<Rightarrow> diskfile \<Rightarrow> diskfile \<Rightarrow> bool" where
  "file_effect mode tx now r f f' \<longleftrightarrow>
     r = ErrNone \<and> contents f' = contents f @ record_bytes tx now \<and>
       stable f' = (if mode = SyncEveryWrite then contents f' else stable f) \<or>
     r = WalSyncFailed \<and> contents f' = contents f @ record_bytes tx now \<and> stable f' = stable f \<or>
     r = WalWriteFailed \<and> stable f' = stable f \<and>
       (\<exists>k < length (record_bytes tx now). contents f' = contents f @ take k (record_bytes tx now))"

lemma append_file_effect:
  "append_effect tx now w f r w' f' \<Longrightarrow>
     file_effect (w_sync_mode w) tx now r f f' \<and> w_sync_mode w' = w_sync_mode w"
  by (auto simp: append_effect_def file_effect_def)

text \<open>With a reliable operating system no append fails.\<close>

lemma record_length_bound: "wf_tx tx \<Longrightarrow> length (record_bytes tx now) \<le> 321"
  using length_tx_legs [of tx] by (simp add: length_record_bytes)

lemma wal_append_reliable:
  assumes "wf_tx tx" and "writer_on w os path f" and "reliable 321 os" and "wal_append tx w os = Some (r, w', os')"
  shows "r = ErrNone \<and> reliable 321 os'"
proof -
  let ?len = "length (record_bytes tx (fst (monotonic_now_ns os)))"
  have ans: "321 \<le> script os (tick os + 2)" "321 \<le> script os (tick os + 3)" using assms(3) by (simp_all add: reliable_def)
  have "?len \<le> 321" by (rule record_length_bound [OF assms(1)])
  then have "append_result (w_sync_mode w) ?len (script os (tick os + 2)) (script os (tick os + 3)) = ErrNone"
    using ans by (simp add: append_result_def)
  then show ?thesis
    using assms(3,4) by (auto simp: reliable_def intro: wal_append_cases [OF assms(1,2)])
qed

text \<open>The checks never answer with an error of the log.\<close>

lemma shape_loop_errors: "shape_loop ls d c = Inl err \<Longrightarrow> err = ZeroAmountLeg \<or> err = AmountOverflow"
  by (induction ls d c rule: shape_loop.induct) (auto split: if_splits prod.splits)

lemma verdict_range: "verdict duplicate tx s \<noteq> WalWriteFailed" "verdict duplicate tx s \<noteq> WalSyncFailed"
  using shape_loop_errors [of "tx_legs tx" 0 0]
  by (auto simp: verdict_def validate_transaction_shape_def Let_def split: sum.splits prod.splits if_splits)

definition valid_request :: "completions \<Rightarrow> PendingRequest \<Rightarrow> bool" where
  "valid_request cs request \<longleftrightarrow>
     wf_tx (req_tx request) \<and> (\<exists>p. completion request = Some p \<and> cs p \<noteq> None)"

definition acked :: "PendingRequest \<Rightarrow> LedgerError \<Rightarrow> completions \<Rightarrow> completions" where
  "acked request err cs =
     (case completion request of
        None \<Rightarrow> cs
      | Some p \<Rightarrow> cs(p \<mapsto> \<lparr>comp_done = True, comp_error = err\<rparr>))"

lemma complete_valid: "valid_request cs request \<Longrightarrow> complete (completion request) err cs = Some (acked request err cs)"
proof -
  assume "valid_request cs request"
  then obtain p slot where p: "completion request = Some p" "cs p = Some slot" by (auto simp: valid_request_def)
  have eq: "slot\<lparr>comp_error := err, comp_done := True\<rparr> = \<lparr>comp_done = True, comp_error = err\<rparr>"
    by (cases slot) simp
  show ?thesis by (simp only: complete_def acked_def p Option.bind.bind_lunit eq option.case)
qed

lemma valid_request_acked: "valid_request cs request \<Longrightarrow> valid_request (acked r err cs) request"
  by (auto simp: valid_request_def acked_def split: option.splits)

text \<open>The engine holds its resources: the cache has seen \<open>hs\<close>, the queue holds \<open>q\<close>, the log is \<open>f\<close>.\<close>

definition engine_ok ::
    "(u64 \<Rightarrow> u64) \<Rightarrow> nat \<Rightarrow> nat \<Rightarrow> LedgerEngine \<Rightarrow> os \<Rightarrow> diskfile \<Rightarrow> IdempotencyKey list \<Rightarrow>
     PendingRequest list \<Rightarrow> nat \<Rightarrow> bool"
where
  "engine_ok std_hash cap rcap e os f hs q n \<longleftrightarrow>
     cache_rel std_hash cap (idempotency e) (recent cap hs) \<and> ring_rel rcap (requests e) q n \<and>
     writer_on (wal_writer e) os (wal_path (config e)) f \<and> w_sync_mode (wal_writer e) = sync_mode (config e) \<and>
     (processed_since_publish e = 0 \<or> processed_since_publish e < publish_snapshot_every_n (config e))"

definition committed_store :: "LedgerEngine \<Rightarrow> Transaction \<Rightarrow> LedgerStateStore" where
  "committed_store e tx =
     (let s = snd (apply_tx tx (working (store e))) in
      if processed_since_publish e + 1 \<ge> publish_snapshot_every_n (config e)
      then \<lparr>working = s, published = s\<rparr> else \<lparr>working = s, published = published (store e)\<rparr>)"

lemma count_and_publish_bound:
  "processed_since_publish (count_and_publish e) = 0 \<or>
   processed_since_publish (count_and_publish e) < publish_snapshot_every_n (config e)"
  by (auto simp: count_and_publish_def Let_def)

text \<open>What one request does: rejected by the checks, refused by the log, or committed.\<close>

definition untouched :: "LedgerEngine \<Rightarrow> LedgerEngine \<Rightarrow> bool" where
  "untouched e e' \<longleftrightarrow> store e' = store e \<and> processed_since_publish e' = processed_since_publish e"

definition committed :: "LedgerEngine \<Rightarrow> Transaction \<Rightarrow> LedgerEngine \<Rightarrow> bool" where
  "committed e tx e' \<longleftrightarrow> store e' = committed_store e tx \<and>
     processed_since_publish e' =
       (if processed_since_publish e + 1 \<ge> publish_snapshot_every_n (config e) then 0
        else processed_since_publish e + 1)"

definition request_effect ::
    "LedgerError \<Rightarrow> Transaction \<Rightarrow> i64 \<Rightarrow> LedgerEngine \<Rightarrow> diskfile \<Rightarrow> LedgerError \<Rightarrow> LedgerEngine \<Rightarrow> diskfile \<Rightarrow> bool"
where
  "request_effect v tx now e f r e' f' \<longleftrightarrow>
     config e' = config e \<and>
     (if v \<noteq> ErrNone then r = v \<and> f' = f \<and> untouched e e'
      else file_effect (sync_mode (config e)) tx now r f f' \<and> (if r = ErrNone then committed e tx e' else untouched e e'))"

lemma process_request_rejects:
  assumes "engine_ok std_hash cap rcap e os f hs q n" and "valid_request cs request"
  defines "tx \<equiv> req_tx request"
  defines "v \<equiv> verdict (idempotency_key tx \<in> set (recent cap hs)) tx (working (store e))"
  assumes "v \<noteq> ErrNone"
  obtains e' where "process_request std_hash request e cs os = Some (e', acked request v cs, os)"
    "engine_ok std_hash cap rcap e' os f (hs @ [idempotency_key tx]) q n" "request_effect v tx now e f v e' f"
proof -
  have "cache_rel std_hash cap (idempotency e) (recent cap hs)" using assms(1) by (simp add: engine_ok_def)
  then obtain cache where cache: "check_and_insert std_hash (idempotency_key tx) (idempotency e) =
      Some (idempotency_key tx \<in> set (recent cap hs), cache)"
    "cache_rel std_hash cap cache (recent cap (hs @ [idempotency_key tx]))"
    by (rule seen_keys.check_recent)
  have "process_request std_hash request e cs os = Some (e\<lparr>idempotency := cache\<rparr>, acked request v cs, os)"
    using assms(5) unfolding v_def
    by (auto simp: process_request_def tx_def [symmetric] cache(1) complete_valid [OF assms(2)]
        validate_transaction_against_state_eq verdict_def has_value_def)
  then show thesis
    by (rule that) (use assms(1,5) cache(2) in \<open>simp_all add: engine_ok_def request_effect_def untouched_def\<close>)
qed

lemma process_request_appends:
  assumes "engine_ok std_hash cap rcap e os f hs q n" and "valid_request cs request"
  defines "tx \<equiv> req_tx request"
  assumes "verdict (idempotency_key tx \<in> set (recent cap hs)) tx (working (store e)) = ErrNone"
  obtains r w' os' f' e' where "process_request std_hash request e cs os = Some (e', acked request r cs, os')"
    "wal_append tx (wal_writer e) os = Some (r, w', os')"
    "engine_ok std_hash cap rcap e' os' f' (hs @ [idempotency_key tx]) q n"
    "request_effect ErrNone tx (fst (monotonic_now_ns os)) e f r e' f'"
proof -
  have ok: "cache_rel std_hash cap (idempotency e) (recent cap hs)" "ring_rel rcap (requests e) q n"
    "writer_on (wal_writer e) os (wal_path (config e)) f" "w_sync_mode (wal_writer e) = sync_mode (config e)"
    "processed_since_publish e = 0 \<or> processed_since_publish e < publish_snapshot_every_n (config e)"
    using assms(1) by (simp_all add: engine_ok_def)
  note v = assms(4) [unfolded verdict_ok admitted_def]
  obtain cache where cache: "check_and_insert std_hash (idempotency_key tx) (idempotency e) = Some (False, cache)"
    "cache_rel std_hash cap cache (recent cap (hs @ [idempotency_key tx]))"
    using seen_keys.check_recent [OF ok(1), of "idempotency_key tx"] v by auto
  have "wf_tx tx" using assms(2) by (simp add: valid_request_def tx_def)
  then obtain r w' os' f' where app: "wal_append tx (wal_writer e) os = Some (r, w', os')"
    "append_effect tx (fst (monotonic_now_ns os)) (wal_writer e) f r w' f'"
    "writer_on w' os' (wal_path (config e)) f'"
    by (rule wal_append_cases [OF _ ok(3)])
  note eff = append_file_effect [OF app(2), unfolded ok(4)]
  let ?e = "e\<lparr>idempotency := cache, wal_writer := w'\<rparr>"
  let ?e' = "if r = ErrNone then count_and_publish (?e\<lparr>store := (store e)\<lparr>working := snd (apply_tx tx (working (store e)))\<rparr>\<rparr>)
    else ?e"
  have "process_request std_hash request e cs os = Some (?e', acked request r cs, os')"
    using v cache(1) app(1) complete_valid [OF assms(2)]
    by (simp add: process_request_def Let_def tx_def [symmetric] has_value_def)
  moreover have "engine_ok std_hash cap rcap ?e' os' f' (hs @ [idempotency_key tx]) q n"
    using ok cache(2) app(3) eff by (auto simp: engine_ok_def count_and_publish_def Let_def)
  moreover have "request_effect ErrNone tx (fst (monotonic_now_ns os)) e f r ?e' f'"
    using eff by (auto simp: request_effect_def untouched_def committed_def committed_store_def
        count_and_publish_def publish_snapshot_def Let_def)
  ultimately show thesis using that app(1) by blast
qed

lemma process_request_cases:
  assumes "engine_ok std_hash cap rcap e os f hs q n" and "valid_request cs request"
  defines "tx \<equiv> req_tx request"
  defines "v \<equiv> verdict (idempotency_key tx \<in> set (recent cap hs)) tx (working (store e))"
  obtains r e' os' f' where "process_request std_hash request e cs os = Some (e', acked request r cs, os')"
    "engine_ok std_hash cap rcap e' os' f' (hs @ [idempotency_key tx]) q n"
    "request_effect v tx (fst (monotonic_now_ns os)) e f r e' f'"
    "reliable 321 os \<longrightarrow> reliable 321 os' \<and> r \<noteq> WalWriteFailed \<and> r \<noteq> WalSyncFailed"
proof (cases "v = ErrNone")
  case False
  then obtain e' where "process_request std_hash request e cs os = Some (e', acked request v cs, os)"
    "engine_ok std_hash cap rcap e' os f (hs @ [idempotency_key tx]) q n"
    "request_effect v tx (fst (monotonic_now_ns os)) e f v e' f"
    unfolding v_def tx_def by (rule process_request_rejects [OF assms(1,2)])
  then show thesis by (rule that) (simp add: v_def verdict_range)
next
  case True
  have wf: "wf_tx tx" using assms(2) by (simp add: valid_request_def tx_def)
  have on: "writer_on (wal_writer e) os (wal_path (config e)) f" using assms(1) by (simp add: engine_ok_def)
  show thesis
    by (rule process_request_appends [OF assms(1,2) True [unfolded v_def tx_def]])
      (use that True wal_append_reliable [OF wf on] in \<open>auto simp: tx_def\<close>)
qed

section \<open>The event loop\<close>

text \<open>
  The answers given to a sequence of requests: the transactions among them that were committed, the
  completion slots, the log file, and the published state.
\<close>

type_synonym answers = "(PendingRequest \<times> LedgerError) list"

definition commits :: "answers \<Rightarrow> Transaction list" where
  "commits rs = map (req_tx \<circ> fst) (filter (\<lambda>(request, err). err = ErrNone) rs)"

definition acks :: "answers \<Rightarrow> completions \<Rightarrow> completions" where
  "acks rs cs = fold (\<lambda>(request, err). acked request err) rs cs"

inductive logged :: "SyncMode \<Rightarrow> diskfile \<Rightarrow> answers \<Rightarrow> diskfile \<Rightarrow> bool" for mode where
  logged_none: "logged mode f [] f"
| logged_rejected: "err \<noteq> ErrNone \<Longrightarrow> logged mode f rs f' \<Longrightarrow> logged mode f ((request, err) # rs) f'"
| logged_append: "file_effect mode (req_tx request) now err f f1 \<Longrightarrow> logged mode f1 rs f' \<Longrightarrow>
    logged mode f ((request, err) # rs) f'"

text \<open>
  How far the published state is behind: \<open>lag\<close> transactions. After committing \<open>txs\<close> it is the state
  without the last \<open>lag\<close> of them, or nothing was published in between.
\<close>

definition lag :: "LedgerEngine \<Rightarrow> nat" where
  "lag e = unat (processed_since_publish e)"

definition published_after :: "LedgerEngine \<Rightarrow> Transaction list \<Rightarrow> LedgerEngine \<Rightarrow> bool" where
  "published_after e txs e' \<longleftrightarrow>
     (if lag e' < length txs
      then published (store e') = apply_run apply_tx (take (length txs - lag e') txs) (working (store e))
      else published (store e') = published (store e) \<and> lag e' = lag e + length txs)"

text \<open>No append failed.\<close>

definition appends_ok :: "answers \<Rightarrow> bool" where
  "appends_ok rs \<longleftrightarrow> (\<forall>(request, err) \<in> set rs. err \<noteq> WalWriteFailed \<and> err \<noteq> WalSyncFailed)"

text \<open>
  The answers are the verdicts of the checks on the state at that point, and where these find
  nothing wrong, the outcome of the append.
\<close>

primrec judged :: "nat \<Rightarrow> IdempotencyKey list \<Rightarrow> LedgerState \<Rightarrow> answers \<Rightarrow> bool" where
  "judged cap hs s [] \<longleftrightarrow> True"
| "judged cap hs s (ra # rs) \<longleftrightarrow>
     (let tx = req_tx (fst ra); key = idempotency_key tx; v = verdict (key \<in> set (recent cap hs)) tx s in
      (if v \<noteq> ErrNone then snd ra = v else snd ra \<in> {ErrNone, WalWriteFailed, WalSyncFailed}) \<and>
      judged cap (hs @ [key]) (if snd ra = ErrNone then snd (apply_tx tx s) else s) rs)"

definition serves ::
    "nat \<Rightarrow> LedgerEngine \<Rightarrow> diskfile \<Rightarrow> IdempotencyKey list \<Rightarrow> answers \<Rightarrow> LedgerEngine \<Rightarrow> diskfile \<Rightarrow> bool"
where
  "serves cap e f hs rs e' f' \<longleftrightarrow>
     config e' = config e \<and> working (store e') = apply_run apply_tx (commits rs) (working (store e)) \<and>
     judged cap hs (working (store e)) rs \<and> logged (sync_mode (config e)) f rs f' \<and>
     published_after e (commits rs) e' \<and> (\<forall>ra \<in> set rs. wf_tx (req_tx (fst ra)))"

lemma commits_Cons: "commits ((request, err) # rs) = (if err = ErrNone then req_tx request # commits rs else commits rs)"
  by (simp add: commits_def)

lemma judged_admitted: "judged cap hs s rs \<Longrightarrow> admitted_run find_account apply_tx (commits rs) s"
proof (induction rs arbitrary: hs s)
  case (Cons ra rs)
  obtain request err where ra: "ra = (request, err)" by (cases ra)
  show ?case
  proof (cases "err = ErrNone")
    case True
    have "verdict (idempotency_key (req_tx request) \<in> set (recent cap hs)) (req_tx request) s = ErrNone"
      using Cons.prems by (auto simp: ra True Let_def split: if_splits)
    then show ?thesis using Cons by (auto simp: ra True Let_def commits_Cons verdict_ok)
  next
    case False
    then show ?thesis using Cons by (auto simp: ra Let_def commits_Cons)
  qed
qed (simp add: commits_def)

lemma serves_admitted:
  "serves cap e f hs rs e' f' \<Longrightarrow> admitted_run find_account apply_tx (commits rs) (working (store e))"
  by (rule judged_admitted [where cap = cap and hs = hs]) (simp add: serves_def)

lemma serves_idle: "untouched e e' \<Longrightarrow> config e' = config e \<Longrightarrow> serves cap e f hs [] e' f"
  by (simp add: serves_def untouched_def commits_def published_after_def lag_def logged_none)

lemma serves_none: "serves cap e f hs [] e f"
  by (simp add: serves_idle untouched_def)

lemma published_after_untouched: "published_after e1 txs e' \<Longrightarrow> untouched e e1 \<Longrightarrow> published_after e txs e'"
  by (auto simp: published_after_def untouched_def lag_def split: if_splits)

lemma published_after_commit:
  assumes "published_after e1 txs e'" and "committed e tx e1"
    and "processed_since_publish e = 0 \<or> processed_since_publish e < publish_snapshot_every_n (config e)"
  shows "published_after e (tx # txs) e'"
proof (cases "publish_snapshot_every_n (config e) \<le> processed_since_publish e + 1")
  case True
  then show ?thesis
    using assms(1,2)
    by (auto simp: published_after_def committed_def committed_store_def lag_def Let_def Suc_diff_le split: if_splits)
next
  case False
  then have "lag e1 = Suc (lag e)"
    using assms(2,3) unat_plus_one [of "processed_since_publish e"] by (auto simp: committed_def lag_def)
  then show ?thesis
    using False assms(1,2)
    by (auto simp: published_after_def committed_def committed_store_def Let_def Suc_diff_le split: if_splits)
qed

lemma serves_Cons:
  assumes "serves cap e1 f1 (hs @ [key]) rs e2 f2" and "wf_tx (req_tx request)"
    and "key = idempotency_key (req_tx request)"
    and "v = verdict (key \<in> set (recent cap hs)) (req_tx request) (working (store e))"
    and "processed_since_publish e = 0 \<or> processed_since_publish e < publish_snapshot_every_n (config e)"
    and "request_effect v (req_tx request) now e f r e1 f1"
  shows "serves cap e f hs ((request, r) # rs) e2 f2"
proof (cases "r = ErrNone")
  case False
  then have same: "untouched e e1" "config e1 = config e"
    "logged (sync_mode (config e)) f1 rs f2 \<Longrightarrow> logged (sync_mode (config e)) f ((request, r) # rs) f2"
    using assms(6) by (auto simp: request_effect_def intro: logged.intros split: if_splits)
  moreover have "if v \<noteq> ErrNone then r = v else r \<in> {ErrNone, WalWriteFailed, WalSyncFailed}"
    using assms(6) by (auto simp: request_effect_def file_effect_def)
  moreover have "published_after e (commits rs) e2"
    using assms(1) published_after_untouched [OF _ same(1)] by (simp add: serves_def)
  ultimately show ?thesis using False assms(1-4) by (auto simp: serves_def commits_Cons untouched_def Let_def)
next
  case True
  then have c: "committed e (req_tx request) e1" "config e1 = config e" "v = ErrNone"
    "file_effect (sync_mode (config e)) (req_tx request) now ErrNone f f1"
    using assms(6) by (auto simp: request_effect_def split: if_splits)
  have "working (store e1) = snd (apply_tx (req_tx request) (working (store e)))"
    using c(1) by (simp add: committed_def committed_store_def Let_def)
  then show ?thesis
    using True assms(1-4) c(2-4) published_after_commit [OF _ c(1) assms(5)]
    by (auto simp: serves_def commits_Cons intro: logged_append)
qed

lemma serves_requests [simp]: "serves cap (e\<lparr>requests := ring\<rparr>) = serves cap e"
  by (simp add: fun_eq_iff serves_def published_after_def lag_def)

text \<open>One turn of the loop takes the head of the queue and answers it.\<close>

lemma serve_head:
  assumes "engine_ok std_hash cap rcap e os f hs (request # q) n" and "valid_request cs request"
  defines "key \<equiv> idempotency_key (req_tx request)"
  obtains r e' os' f' where
    "\<And>max_items processed. processed < max_items \<Longrightarrow> process_loop std_hash max_items processed e cs os =
       process_loop std_hash max_items (processed + 1) e' (acked request r cs) os'"
    "engine_ok std_hash cap rcap e' os' f' (hs @ [key]) q n"
    "\<And>rs e2 f2. serves cap e' f' (hs @ [key]) rs e2 f2 \<Longrightarrow> serves cap e f hs ((request, r) # rs) e2 f2"
    "reliable 321 os \<longrightarrow> reliable 321 os' \<and> r \<noteq> WalWriteFailed \<and> r \<noteq> WalSyncFailed"
proof -
  have "ring_rel rcap (requests e) (request # q) n" using assms(1) by (simp add: engine_ok_def)
  from ring.pop_item [OF this] obtain ring' where
    pop: "try_pop (requests e) = Some (Some request, ring')" "ring_rel rcap ring' q n"
    by blast
  let ?e = "e\<lparr>requests := ring'\<rparr>" and ?tx = "req_tx request"
  let ?v = "verdict (idempotency_key ?tx \<in> set (recent cap hs)) ?tx (working (store ?e))"
  have ok: "engine_ok std_hash cap rcap ?e os f hs q n" using assms(1) pop(2) by (simp add: engine_ok_def)
  obtain r e' os' f' where req: "process_request std_hash request ?e cs os = Some (e', acked request r cs, os')"
    "engine_ok std_hash cap rcap e' os' f' (hs @ [idempotency_key ?tx]) q n"
    "request_effect ?v ?tx (fst (monotonic_now_ns os)) ?e f r e' f'"
    "reliable 321 os \<longrightarrow> reliable 321 os' \<and> r \<noteq> WalWriteFailed \<and> r \<noteq> WalSyncFailed"
    by (rule process_request_cases [OF ok assms(2)])
  show thesis
  proof (rule that [OF _ _ _ req(4)])
    fix max_items processed :: u64
    assume "processed < max_items"
    then show "process_loop std_hash max_items processed e cs os =
        process_loop std_hash max_items (processed + 1) e' (acked request r cs) os'"
      by (subst process_loop.simps) (simp add: pop(1) req(1))
  next
    fix rs e2 f2
    assume "serves cap e' f' (hs @ [key]) rs e2 f2"
    from serves_Cons [OF this [unfolded key_def] _ refl refl _ req(3)] show "serves cap e f hs ((request, r) # rs) e2 f2"
      using ok assms(2) by (simp add: engine_ok_def valid_request_def)
  qed (use req(2) in \<open>simp add: key_def\<close>)
qed

lemma process_loop_serves:
  assumes "engine_ok std_hash cap rcap e os f hs q n" and "\<forall>request \<in> set q. valid_request cs request"
    and "processed \<le> max_items" and "k = min (unat max_items - unat processed) (length q)"
  shows "\<exists>rs e' os' f'. process_loop std_hash max_items processed e cs os =
      Some (processed + of_nat k, e', acks rs cs, os') \<and> map fst rs = take k q \<and>
    engine_ok std_hash cap rcap e' os' f' (hs @ map (idempotency_key \<circ> req_tx) (take k q)) (drop k q) n \<and>
    serves cap e f hs rs e' f' \<and> (reliable 321 os \<longrightarrow> reliable 321 os' \<and> appends_ok rs)"
  using assms
proof (induction "unat max_items - unat processed" arbitrary: processed e cs os f hs q k)
  case 0
  then have "\<not> processed < max_items" by (simp add: word_less_nat_alt)
  then have "process_loop std_hash max_items processed e cs os = Some (processed, e, cs, os)"
    by (simp add: process_loop.simps)
  with 0 show ?case
    using serves_none by (intro exI [of _ "[]"] exI) (auto simp: acks_def appends_ok_def)
next
  case (Suc m)
  then have lt: "processed < max_items" by (simp add: word_less_nat_alt)
  have ring: "ring_rel rcap (requests e) q n" using Suc.prems(1) by (simp add: engine_ok_def)
  show ?case
  proof (cases q)
    case Nil
    then have "try_pop (requests e) = Some (None, requests e)" using ring.pop_empty ring by blast
    then have "process_loop std_hash max_items processed e cs os = Some (processed, e, cs, os)"
      using lt by (simp add: process_loop.simps)
    with Suc.prems Nil show ?thesis
      using serves_none by (intro exI [of _ "[]"] exI) (auto simp: acks_def appends_ok_def)
  next
    case (Cons request q')
    let ?key = "idempotency_key (req_tx request)"
    have val: "valid_request cs request" using Suc.prems(2) Cons by simp
    obtain r e1 os1 f1 where req: "process_loop std_hash max_items processed e cs os =
        process_loop std_hash max_items (processed + 1) e1 (acked request r cs) os1"
      "engine_ok std_hash cap rcap e1 os1 f1 (hs @ [?key]) q' n"
      "\<And>rs e2 f2. serves cap e1 f1 (hs @ [?key]) rs e2 f2 \<Longrightarrow> serves cap e f hs ((request, r) # rs) e2 f2"
      "reliable 321 os \<longrightarrow> reliable 321 os1 \<and> r \<noteq> WalWriteFailed \<and> r \<noteq> WalSyncFailed"
      by (rule serve_head [OF Suc.prems(1) [unfolded Cons] val]) (use lt in blast)
    have valid: "\<forall>request' \<in> set q'. valid_request (acked request r cs) request'"
      using Suc.prems(2) Cons valid_request_acked by simp
    have up: "unat (processed + 1) = unat processed + 1" by (rule unat_plus_one [OF lt])
    have m: "m = unat max_items - unat (processed + 1)" "processed + 1 \<le> max_items"
      using Suc.hyps(2) up lt by (simp_all add: word_less_nat_alt word_le_nat_alt)
    define k' where "k' = min (unat max_items - unat (processed + 1)) (length q')"
    have k: "k = Suc k'" using Suc.prems(4) Cons Suc.hyps(2) m(1) by (simp add: k'_def)
    from Suc.hyps(1) [OF m(1) req(2) valid m(2) k'_def] obtain rs e2 os2 f2 where
      rest: "process_loop std_hash max_items (processed + 1) e1 (acked request r cs) os1 =
        Some (processed + 1 + of_nat k', e2, acks rs (acked request r cs), os2)" "map fst rs = take k' q'"
      "engine_ok std_hash cap rcap e2 os2 f2 ((hs @ [?key]) @ map (idempotency_key \<circ> req_tx) (take k' q')) (drop k' q') n"
      "serves cap e1 f1 (hs @ [?key]) rs e2 f2" "reliable 321 os1 \<longrightarrow> reliable 321 os2 \<and> appends_ok rs"
      by blast
    have "process_loop std_hash max_items processed e cs os =
        Some (processed + of_nat k, e2, acks ((request, r) # rs) cs, os2)"
      unfolding req(1) rest(1) by (simp add: k acks_def add.assoc)
    moreover note req(3) [OF rest(4)]
    moreover have "reliable 321 os \<longrightarrow> reliable 321 os2 \<and> appends_ok ((request, r) # rs)"
      using req(4) rest(5) by (auto simp: appends_ok_def)
    ultimately show ?thesis using rest(2,3) Cons k by (intro exI [of _ "(request, r) # rs"] exI) auto
  qed
qed

section \<open>What the answers say about the log and the slots\<close>

lemma file_effect_grows:
  assumes "file_effect mode tx now r f f'" and "prefix (stable f) (contents f)"
  shows "prefix (contents f) (contents f')" "prefix (stable f') (contents f')" "prefix (stable f) (stable f')"
proof -
  show c: "prefix (contents f) (contents f')" using assms(1) by (auto simp: file_effect_def)
  have "stable f' = stable f \<or> stable f' = contents f'" using assms(1) by (auto simp: file_effect_def)
  then show "prefix (stable f') (contents f')" "prefix (stable f) (stable f')"
    using prefix_order.trans [OF assms(2) c] by auto
qed

lemma logged_grows:
  assumes "logged mode f rs f'" and "prefix (stable f) (contents f)"
  shows "prefix (contents f) (contents f') \<and> prefix (stable f') (contents f') \<and> prefix (stable f) (stable f')"
  using assms
proof (induction rule: logged.induct)
  case (logged_append request now err f f1 rs f')
  note grow = file_effect_grows [OF logged_append.hyps(1) logged_append.prems]
  from logged_append.IH [OF grow(2)] show ?case
    using prefix_order.trans [OF grow(1)] prefix_order.trans [OF grow(3)] by blast
qed simp_all

lemma logged_durable:
  assumes "logged SyncEveryWrite f rs f'" and "prefix (stable f) (contents f)" and "(request, ErrNone) \<in> set rs"
  shows "\<exists>pre now post. stable f' = pre @ record_bytes (req_tx request) now @ post"
  using assms
proof (induction rule: logged.induct)
  case (logged_append request' now err f f1 rs f')
  note grow = file_effect_grows [OF logged_append.hyps(1) logged_append.prems(1)]
  show ?case
  proof (cases "(request, ErrNone) \<in> set rs")
    case True
    then show ?thesis using logged_append.IH grow(2) by blast
  next
    case False
    then have "stable f1 = contents f @ record_bytes (req_tx request) now"
      using logged_append.hyps(1) logged_append.prems(2) by (auto simp: file_effect_def)
    moreover have "prefix (stable f1) (stable f')" using logged_grows [OF logged_append.hyps(2) grow(2)] by blast
    ultimately show ?thesis by (auto simp: prefix_def)
  qed
qed auto

lemma log_bytes_Cons: "log_bytes ((tx, now) # rs) = record_bytes tx now @ log_bytes rs"
  by (simp add: log_bytes_def)

text \<open>Without a failed append the log grows by exactly the committed records.\<close>

lemma logged_records:
  assumes "logged mode f rs f'" and "appends_ok rs"
  shows "\<exists>recs. map fst recs = commits rs \<and> contents f' = contents f @ log_bytes recs \<and>
    (mode = SyncEveryWrite \<and> stable f = contents f \<longrightarrow> stable f' = contents f')"
  using assms
proof (induction rule: logged.induct)
  case (logged_none f)
  then show ?case by (auto simp: commits_def log_bytes_def)
next
  case (logged_rejected err f rs f' request)
  then show ?case by (auto simp: commits_Cons appends_ok_def)
next
  case (logged_append request now err f f1 rs f')
  then have e: "err = ErrNone" "contents f1 = contents f @ record_bytes (req_tx request) now"
    "mode = SyncEveryWrite \<longrightarrow> stable f1 = contents f1"
    by (auto simp: file_effect_def appends_ok_def)
  obtain recs where recs: "map fst recs = commits rs" "contents f' = contents f1 @ log_bytes recs"
    "mode = SyncEveryWrite \<and> stable f1 = contents f1 \<longrightarrow> stable f' = contents f'"
    using logged_append.IH logged_append.prems by (auto simp: appends_ok_def)
  then show ?case using e by (intro exI [of _ "(req_tx request, now) # recs"]) (auto simp: commits_Cons log_bytes_Cons)
qed

lemma commits_append: "commits (rs @ rs') = commits rs @ commits rs'"
  by (simp add: commits_def)

lemma set_commits: "set (commits rs) = req_tx ` {request. (request, ErrNone) \<in> set rs}"
  by (force simp: commits_def)

lemma acks_other:
  "(\<And>request err. (request, err) \<in> set rs \<Longrightarrow> completion request \<noteq> Some p) \<Longrightarrow> acks rs cs p = cs p"
proof (induction rs arbitrary: cs)
  case (Cons ra rs)
  obtain request err where ra: "ra = (request, err)" by (cases ra)
  then have "acked request err cs p = cs p"
    using Cons.prems [of request err] by (auto simp: acked_def split: option.splits)
  moreover have "acks rs (acked request err cs) p = acked request err cs p"
    by (rule Cons.IH) (use Cons.prems in auto)
  ultimately show ?case by (simp add: acks_def ra)
qed (simp add: acks_def)

lemma acks_lookup:
  assumes "(request, err) \<in> set rs" and "completion request = Some p" and "distinct (map (completion \<circ> fst) rs)"
  shows "acks rs cs p = Some \<lparr>comp_done = True, comp_error = err\<rparr>"
  using assms(1,3)
proof (induction rs arbitrary: cs)
  case (Cons ra rs)
  show ?case
  proof (cases "ra = (request, err)")
    case True
    have "acks rs (acked request err cs) p = acked request err cs p"
      by (rule acks_other) (use Cons.prems(2) True assms(2) in force)
    then show ?thesis using True assms(2) by (simp add: acks_def acked_def)
  next
    case False
    then show ?thesis using Cons by (cases ra) (auto simp: acks_def)
  qed
qed simp

lemma dom_acks: "dom cs \<subseteq> dom (acks rs cs)"
proof (induction rs arbitrary: cs)
  case (Cons ra rs)
  obtain request err where ra: "ra = (request, err)" by (cases ra)
  have "dom cs \<subseteq> dom (acked request err cs)" by (auto simp: acked_def split: option.splits)
  with Cons.IH [of "acked request err cs"] show ?case by (auto simp: acks_def ra)
qed (simp add: acks_def)

section \<open>Histories of an engine\<close>

lemma published_after_append:
  assumes "published_after e txs e1" and "published_after e1 txs' e2"
    and "working (store e1) = apply_run apply_tx txs (working (store e))"
  shows "published_after e (txs @ txs') e2"
proof (cases "lag e2 < length txs'")
  case True
  then have "length txs + length txs' - lag e2 = length txs + (length txs' - lag e2)" by simp
  then show ?thesis using True assms(2,3) by (simp add: published_after_def apply_run_append)
next
  case False
  then show ?thesis using assms(1,2) by (auto simp: published_after_def)
qed

lemma logged_trans: "logged mode f rs f1 \<Longrightarrow> logged mode f1 rs' f' \<Longrightarrow> logged mode f (rs @ rs') f'"
  by (induction rule: logged.induct) (auto intro: logged.intros)

lemma judged_append:
  "judged cap hs s (rs @ rs') \<longleftrightarrow> judged cap hs s rs \<and>
     judged cap (hs @ map (idempotency_key \<circ> req_tx \<circ> fst) rs) (apply_run apply_tx (commits rs) s) rs'"
proof (induction rs arbitrary: hs s)
  case (Cons ra rs)
  then show ?case by (cases ra) (simp add: Let_def commits_Cons)
qed (simp add: commits_def)

lemma serves_trans:
  assumes "serves cap e f hs rs e1 f1"
    and "serves cap e1 f1 (hs @ map (idempotency_key \<circ> req_tx \<circ> fst) rs) rs' e2 f2"
  shows "serves cap e f hs (rs @ rs') e2 f2"
  using assms published_after_append [of e "commits rs" e1 "commits rs'" e2]
    logged_trans [of "sync_mode (config e)" f rs f1 rs' f2]
  by (auto simp: serves_def commits_append apply_run_append judged_append)

text \<open>A new engine with its log opened.\<close>

lemma new_engine_ok:
  assumes "new_engine cfg = Some e" and "engine_open e os = (ErrNone, e', os')"
    and "ring_buffer_capacity cfg = 2 ^ m" and "0 < m" and "m < 62" and "unat (idempotency_capacity cfg) \<le> 2 ^ 31"
  obtains f where "engine_ok std_hash (max 1 (unat (idempotency_capacity cfg))) (2 ^ m) e' os' f [] [] 0"
    "config e' = cfg" "store e' = new_store"
    "path_file os (wal_path cfg) = Some f \<or> names os (wal_path cfg) = None \<and> f = \<lparr>contents = [], stable = []\<rparr>"
proof -
  obtain c where c: "new_cache (idempotency_capacity cfg) = Some c"
    "cache_rel std_hash (max 1 (unat (idempotency_capacity cfg))) c []"
    using assms(6) by (rule new_cache_rel)
  then have e: "e = \<lparr>config = cfg, wal_writer = new_writer, store = new_store, idempotency = c,
       requests = new_ring (ring_buffer_capacity cfg) default_request, next_tx_id = 0, processed_since_publish = 0\<rparr>"
    using assms(1) by (simp add: new_engine_def)
  obtain w where w: "writer_open (wal_path cfg) (sync_mode cfg) new_writer os = (ErrNone, w, os')" "e' = e\<lparr>wal_writer := w\<rparr>"
    using assms(2) by (auto simp: engine_open_def e Let_def split: prod.splits)
  have "w_fd new_writer < 0" by (simp add: new_writer_def ufd_new_def)
  with w(1) obtain f where f: "writer_on w os' (wal_path cfg) f" "w_sync_mode w = sync_mode cfg"
    "path_file os (wal_path cfg) = Some f \<or> names os (wal_path cfg) = None \<and> f = \<lparr>contents = [], stable = []\<rparr>"
    by (rule writer_open_success)
  show thesis
    by (rule that [of f])
      (use f c(2) new_ring_rel [OF assms(3-5)] in \<open>simp_all add: engine_ok_def w(2) e recent_def\<close>)
qed

lemma submit_cases:
  assumes "engine_ok std_hash cap rcap e os f hs q n" and "cs p = Some slot0" and "n + rcap + 1 < 2 ^ 63"
    and tx'_def: "tx' = tx\<lparr>created_at_ns := fst (monotonic_now_ns os)\<rparr>"
  obtains (queued) e' os' where "submit weak tx p e cs os = Some (ErrNone, e', cs(p \<mapsto> slot0\<lparr>comp_done := False\<rparr>), os')"
      "length q < rcap" "untouched e e'" "config e' = config e"
      "engine_ok std_hash cap rcap e' os' f hs (q @ [\<lparr>req_tx = tx', completion = Some p\<rparr>]) (n + 1)"
      "os' = snd (monotonic_now_ns os)"
  | (full) os' where "submit weak tx p e cs os = Some (QueueFull, e, cs(p \<mapsto> slot0\<lparr>comp_done := False\<rparr>), os')"
      "length q = rcap" "engine_ok std_hash cap rcap e os' f hs q n" "os' = snd (monotonic_now_ns os)"
proof -
  have ok: "ring_rel rcap (requests e) q n" "writer_on (wal_writer e) os (wal_path (config e)) f"
    using assms(1) by (simp_all add: engine_ok_def)
  obtain now os' where now: "monotonic_now_ns os = (now, os')" by (cases "monotonic_now_ns os")
  have on: "writer_on (wal_writer e) os' (wal_path (config e)) f" using writer_on_answers [OF ok(2)] now by simp
  show thesis
  proof (cases "length q < rcap")
    case True
    have "n < 2 ^ 63 - rcap - 1" using assms(3) by simp
    with ring.push_room [OF ok(1) _ True] obtain r where
      r: "try_push weak \<lparr>req_tx = tx', completion = Some p\<rparr> (requests e) = Some (True, r)"
      "ring_rel rcap r (q @ [\<lparr>req_tx = tx', completion = Some p\<rparr>]) (n + 1)"
      by blast
    show thesis
      by (rule queued [of "e\<lparr>requests := r\<rparr>" os'])
        (use True r assms(1,2) on now in \<open>simp_all add: submit_def engine_ok_def untouched_def tx'_def\<close>)
  next
    case False
    then have len: "length q = rcap" using ring.bounded [OF ok(1)] by simp
    have "try_push weak \<lparr>req_tx = tx', completion = Some p\<rparr> (requests e) = Some (False, requests e)"
      by (rule ring.push_full [OF ok(1) len])
    then show thesis
      by (intro full [of os']) (use len assms(1,2) on now in \<open>simp_all add: submit_def engine_ok_def tx'_def\<close>)
  qed
qed

text \<open>Sequences of calls by the clients and by the writer thread.\<close>

datatype engine_op = Submit nat Transaction nat | Process u64 | Allocate

primrec engine_run ::
    "(u64 \<Rightarrow> u64) \<Rightarrow> engine_op list \<Rightarrow> LedgerEngine \<Rightarrow> completions \<Rightarrow> os \<Rightarrow> (LedgerEngine \<times> completions \<times> os) option"
where
  "engine_run std_hash [] e cs os = Some (e, cs, os)"
| "engine_run std_hash (op # ops) e cs os = do {
     (e, cs, os) \<leftarrow> (case op of
        Submit weak tx p \<Rightarrow> do { (r, e, cs, os) \<leftarrow> submit weak tx p e cs os; Some (e, cs, os) }
      | Process max_items \<Rightarrow> do { (n, e, cs, os) \<leftarrow> process_pending std_hash max_items e cs os; Some (e, cs, os) }
      | Allocate \<Rightarrow> Some (snd (allocate_transaction_id e), cs, os));
     engine_run std_hash ops e cs os
   }"

definition op_ok :: "completions \<Rightarrow> engine_op \<Rightarrow> bool" where
  "op_ok cs op \<longleftrightarrow> (case op of Submit weak tx p \<Rightarrow> wf_tx tx \<and> p \<in> dom cs | _ \<Rightarrow> True)"

definition submissions :: "engine_op list \<Rightarrow> nat" where
  "submissions ops = length (filter (\<lambda>op. case op of Submit weak tx p \<Rightarrow> True | _ \<Rightarrow> False) ops)"

fun submitted_ids :: "engine_op list \<Rightarrow> TransactionId list" where
  "submitted_ids [] = []"
| "submitted_ids (Submit weak tx p # ops) = tx_id tx # submitted_ids ops"
| "submitted_ids (_ # ops) = submitted_ids ops"

abbreviation request_ids :: "PendingRequest list \<Rightarrow> TransactionId list" where
  "request_ids q \<equiv> map (tx_id \<circ> req_tx) q"

lemma submitted_ids_Cons: "submitted_ids (op # ops) = submitted_ids [op] @ submitted_ids ops"
  by (cases op) simp_all

lemma reliable_clock: "reliable n os \<Longrightarrow> reliable n (snd (monotonic_now_ns os))"
  by (simp add: reliable_def)

lemma valid_request_mono: "valid_request cs request \<Longrightarrow> dom cs \<subseteq> dom cs' \<Longrightarrow> valid_request cs' request"
  by (auto simp: valid_request_def)

lemma op_ok_mono: "op_ok cs op \<Longrightarrow> dom cs \<subseteq> dom cs' \<Longrightarrow> op_ok cs' op"
  by (auto simp: op_ok_def split: engine_op.splits)

text \<open>One call: it returns, and what it serves is described by \<open>serves\<close>.\<close>

lemma engine_step_serves:
  assumes "engine_ok std_hash cap rcap e os f hs q n" and "\<forall>request \<in> set q. valid_request cs request"
    and "op_ok cs op" and "n + submissions [op] + rcap < 2 ^ 63"
  obtains e' cs' os' f' q' rs where
    "engine_run std_hash [op] e cs os = Some (e', cs', os')"
    "engine_ok std_hash cap rcap e' os' f' (hs @ map (idempotency_key \<circ> req_tx \<circ> fst) rs) q' (n + submissions [op])
     \<or> engine_ok std_hash cap rcap e' os' f' (hs @ map (idempotency_key \<circ> req_tx \<circ> fst) rs) q' n"
    "\<forall>request \<in> set q'. valid_request cs' request" "dom cs \<subseteq> dom cs'" "serves cap e f hs rs e' f'"
    "reliable 321 os \<longrightarrow> reliable 321 os' \<and> appends_ok rs"
    "subseq (request_ids (map fst rs @ q')) (request_ids q @ submitted_ids [op])"
proof (cases op)
  case (Submit weak tx p)
  then obtain slot0 where p: "cs p = Some slot0" "wf_tx tx" using assms(3) by (auto simp: op_ok_def)
  define tx' where "tx' = tx\<lparr>created_at_ns := fst (monotonic_now_ns os)\<rparr>"
  let ?cs = "cs(p \<mapsto> slot0\<lparr>comp_done := False\<rparr>)"
  have dom: "dom cs \<subseteq> dom ?cs" by auto
  have val: "\<forall>request \<in> set q. valid_request ?cs request" using assms(2) valid_request_mono [OF _ dom] by blast
  have new: "valid_request ?cs \<lparr>req_tx = tx', completion = Some p\<rparr>"
    using p(2) by (simp add: valid_request_def tx'_def wf_tx_def)
  have one: "submissions [op] = 1" using Submit by (simp add: submissions_def)
  then have bound: "n + rcap + 1 < 2 ^ 63" using assms(4) by simp
  from assms(1) p(1) bound tx'_def show thesis
  proof (cases rule: submit_cases [where weak = weak and cs = cs and p = p])
    case (queued e' os')
    show thesis
      by (rule that [of e' ?cs os' f "[]" "q @ [\<lparr>req_tx = tx', completion = Some p\<rparr>]"])
        (use queued Submit val new one dom serves_idle in \<open>simp_all add: reliable_clock appends_ok_def tx'_def\<close>)
  next
    case (full os')
    show thesis
      by (rule that [of e ?cs os' f "[]" q])
        (use full Submit val one dom serves_none in
          \<open>simp_all add: reliable_clock appends_ok_def prefix_imp_subseq\<close>)
  qed
next
  case (Process max_items)
  have "(0 :: u64) \<le> max_items" by simp
  from process_loop_serves [OF assms(1,2) this refl] obtain rs e' os' f' where
    r: "process_pending std_hash max_items e cs os = Some (of_nat (min (unat max_items) (length q)), e', acks rs cs, os')"
    "map fst rs = take (min (unat max_items) (length q)) q"
    "engine_ok std_hash cap rcap e' os' f' (hs @ map (idempotency_key \<circ> req_tx) (take (min (unat max_items) (length q)) q))
       (drop (min (unat max_items) (length q)) q) n" "serves cap e f hs rs e' f'"
    "reliable 321 os \<longrightarrow> reliable 321 os' \<and> appends_ok rs"
    by (auto simp: process_pending_def)
  have keys: "map (idempotency_key \<circ> req_tx \<circ> fst) rs = map (idempotency_key \<circ> req_tx) (map fst rs)" by simp
  show thesis
    by (rule that [of e' "acks rs cs" os' f' rs "drop (min (unat max_items) (length q)) q"])
      (use Process r keys assms(2) valid_request_mono [OF _ dom_acks] dom_acks in \<open>auto dest: in_set_dropD simp del: map_append\<close>)
next
  case Allocate
  then show thesis
    using assms by (intro that [of "snd (allocate_transaction_id e)" cs os f "[]" q] serves_idle)
      (auto simp: allocate_transaction_id_def engine_ok_def submissions_def appends_ok_def untouched_def)
qed

lemma engine_run_Cons:
  "engine_run std_hash [op] e cs os = Some (e', cs', os') \<Longrightarrow>
   engine_run std_hash (op # ops) e cs os = engine_run std_hash ops e' cs' os'"
  by (auto simp: bind_eq_Some_conv)

lemma submissions_Cons: "submissions (op # ops) = submissions [op] + submissions ops"
  by (simp add: submissions_def)

lemma engine_run_serves:
  assumes "engine_ok std_hash cap rcap e os f hs q n" and "\<forall>request \<in> set q. valid_request cs request"
    and "\<forall>op \<in> set ops. op_ok cs op" and "n + submissions ops + rcap < 2 ^ 63"
  shows "\<exists>e' cs' os' f' q' n' rs. engine_run std_hash ops e cs os = Some (e', cs', os') \<and>
    engine_ok std_hash cap rcap e' os' f' (hs @ map (idempotency_key \<circ> req_tx \<circ> fst) rs) q' n' \<and>
    (\<forall>request \<in> set q'. valid_request cs' request) \<and> serves cap e f hs rs e' f' \<and>
    (reliable 321 os \<longrightarrow> reliable 321 os' \<and> appends_ok rs) \<and>
    subseq (request_ids (map fst rs @ q')) (request_ids q @ submitted_ids ops)"
  using assms
proof (induction ops arbitrary: e cs os f hs q n)
  case Nil
  then show ?case using serves_none by (intro exI [of _ e] exI [of _ cs] exI [of _ os] exI [of _ f] exI [of _ q] exI [of _ n] exI [of _ "[]"])
      (auto simp: appends_ok_def)
next
  case (Cons op ops)
  let ?keys = "\<lambda>rs. map (idempotency_key \<circ> req_tx \<circ> fst) rs"
  have "op_ok cs op" "n + submissions [op] + rcap < 2 ^ 63"
    using Cons.prems(3,4) submissions_Cons [of op ops] by simp_all
  with Cons.prems(1,2) obtain e1 cs1 os1 f1 q1 rs1 where one: "engine_run std_hash [op] e cs os = Some (e1, cs1, os1)"
    "engine_ok std_hash cap rcap e1 os1 f1 (hs @ ?keys rs1) q1 (n + submissions [op]) \<or>
     engine_ok std_hash cap rcap e1 os1 f1 (hs @ ?keys rs1) q1 n"
    "\<forall>request \<in> set q1. valid_request cs1 request" "dom cs \<subseteq> dom cs1" "serves cap e f hs rs1 e1 f1"
    "reliable 321 os \<longrightarrow> reliable 321 os1 \<and> appends_ok rs1"
    "subseq (request_ids (map fst rs1 @ q1)) (request_ids q @ submitted_ids [op])"
    by (rule engine_step_serves)
  then obtain n1 where n1: "engine_ok std_hash cap rcap e1 os1 f1 (hs @ ?keys rs1) q1 n1" "n1 \<le> n + submissions [op]"
    by auto
  have "\<forall>op' \<in> set ops. op_ok cs1 op'" using Cons.prems(3) op_ok_mono [OF _ one(4)] by simp
  moreover have "n1 + submissions ops + rcap < 2 ^ 63" using Cons.prems(4) n1(2) submissions_Cons [of op ops] by simp
  ultimately obtain e2 cs2 os2 f2 q2 n2 rs2 where rest: "engine_run std_hash ops e1 cs1 os1 = Some (e2, cs2, os2)"
    "engine_ok std_hash cap rcap e2 os2 f2 ((hs @ ?keys rs1) @ ?keys rs2) q2 n2"
    "\<forall>request \<in> set q2. valid_request cs2 request" "serves cap e1 f1 (hs @ ?keys rs1) rs2 e2 f2"
    "reliable 321 os1 \<longrightarrow> reliable 321 os2 \<and> appends_ok rs2"
    "subseq (request_ids (map fst rs2 @ q2)) (request_ids q1 @ submitted_ids ops)"
    using Cons.IH [OF n1(1) one(3)] by blast
  have "engine_run std_hash (op # ops) e cs os = Some (e2, cs2, os2)"
    using engine_run_Cons [OF one(1)] rest(1) by simp
  moreover have "serves cap e f hs (rs1 @ rs2) e2 f2" by (rule serves_trans [OF one(5) rest(4)])
  moreover have "engine_ok std_hash cap rcap e2 os2 f2 (hs @ ?keys (rs1 @ rs2)) q2 n2" using rest(2) by simp
  moreover have "reliable 321 os \<longrightarrow> reliable 321 os2 \<and> appends_ok (rs1 @ rs2)"
    using one(6) rest(5) by (auto simp: appends_ok_def)
  moreover have "subseq (request_ids (map fst (rs1 @ rs2) @ q2)) (request_ids q @ submitted_ids (op # ops))"
  proof -
    have "subseq (request_ids (map fst rs1) @ request_ids (map fst rs2 @ q2))
        (request_ids (map fst rs1) @ request_ids q1 @ submitted_ids ops)"
      using rest(6) by (simp only: subseq_append')
    moreover have "subseq ((request_ids (map fst rs1 @ q1)) @ submitted_ids ops)
        ((request_ids q @ submitted_ids [op]) @ submitted_ids ops)"
      using one(7) by (rule list_emb_append_mono) simp
    ultimately show ?thesis
      using subseq_order.trans by (simp add: submitted_ids_Cons [of op ops])
  qed
  ultimately show ?case using rest(3) by blast
qed

section \<open>Properties\<close>

text \<open>An engine set up as the drivers do: constructed, its log opened, accounts registered.\<close>

definition engine_boot :: "Config \<Rightarrow> Account list \<Rightarrow> os \<Rightarrow> (LedgerEngine \<times> os) option" where
  "engine_boot cfg accs os = do {
     e \<leftarrow> new_engine cfg;
     let (r, e, os) = engine_open e os;
     if has_value r then Some (fold (\<lambda>a e. snd (engine_add_account a e)) accs e, os) else None
   }"

definition config_ok :: "Config \<Rightarrow> bool" where
  "config_ok cfg \<longleftrightarrow> (\<exists>m. 0 < m \<and> m < 62 \<and> ring_buffer_capacity cfg = 2 ^ m) \<and>
     unat (idempotency_capacity cfg) \<le> 2 ^ 31"

lemma snd_engine_add_account:
  "snd (engine_add_account a e) = e\<lparr>store := (store e)\<lparr>working := snd (add_account a (working (store e)))\<rparr>\<rparr>"
  by (simp add: engine_add_account_def case_prod_unfold Let_def)

lemma engine_ok_store [simp]:
  "engine_ok std_hash cap rcap (e\<lparr>store := s\<rparr>) os f hs q n = engine_ok std_hash cap rcap e os f hs q n"
  by (simp add: engine_ok_def)

lemma engine_boot_ok:
  assumes "engine_boot cfg accs os = Some (e, os')" and "config_ok cfg"
  obtains cap rcap f where "engine_ok std_hash cap rcap e os' f [] [] 0" "rcap = unat (ring_buffer_capacity cfg)"
    "cap = max 1 (unat (idempotency_capacity cfg))" "config e = cfg" "published (store e) = empty_state"
    "path_file os (wal_path cfg) = Some f \<or> names os (wal_path cfg) = None \<and> f = \<lparr>contents = [], stable = []\<rparr>"
proof -
  obtain m where m: "0 < m" "m < 62" "ring_buffer_capacity cfg = 2 ^ m" "unat (idempotency_capacity cfg) \<le> 2 ^ 31"
    using assms(2) by (auto simp: config_ok_def)
  obtain e0 where new: "new_engine cfg = Some e0"
    using assms(1) by (auto simp: engine_boot_def bind_eq_Some_conv)
  obtain r e1 os1 where opened: "engine_open e0 os = (r, e1, os1)" by (cases "engine_open e0 os")
  have e: "new_engine cfg = Some e0" "engine_open e0 os = (ErrNone, e1, os')"
    "e = fold (\<lambda>a e. snd (engine_add_account a e)) accs e1"
    using assms(1) new opened by (simp_all add: engine_boot_def has_value_def split: if_splits)
  obtain f where f: "engine_ok std_hash (max 1 (unat (idempotency_capacity cfg))) (2 ^ m) e1 os' f [] [] 0"
    "config e1 = cfg" "store e1 = new_store"
    "path_file os (wal_path cfg) = Some f \<or> names os (wal_path cfg) = None \<and> f = \<lparr>contents = [], stable = []\<rparr>"
    by (rule new_engine_ok [OF e(1,2) m(3,1,2,4)])
  have keep: "engine_ok std_hash cap rcap (fold (\<lambda>a e. snd (engine_add_account a e)) accs e') os' f [] [] 0 =
      engine_ok std_hash cap rcap e' os' f [] [] 0"
    "config (fold (\<lambda>a e. snd (engine_add_account a e)) accs e') = config e'"
    "published (store (fold (\<lambda>a e. snd (engine_add_account a e)) accs e')) = published (store e')" for cap rcap e'
    by (induction accs arbitrary: e') (simp_all add: snd_engine_add_account)
  have "(2::nat) ^ m < 2 ^ 64" using m(2) by (intro power_strict_increasing) simp_all
  then have "unat (ring_buffer_capacity cfg) = 2 ^ m"
    using m(2) unsigned_of_nat [of "2 ^ m", where 'a = nat and 'b = 64] by (simp add: m(3) take_bit_nat_eq_self)
  then show thesis using f by (intro that) (simp_all add: e(3) keep new_store_def)
qed

lemma engine_boot_fields:
  assumes "engine_boot cfg accs os = Some (e, os1)"
  shows "next_tx_id e = 0" "processed_since_publish e = 0"
    "writer_open (wal_path cfg) (sync_mode cfg) new_writer os = (ErrNone, wal_writer e, os1)"
proof -
  obtain c where c: "new_cache (idempotency_capacity cfg) = Some c"
    using assms by (auto simp: engine_boot_def new_engine_def bind_eq_Some_conv)
  have keep: "next_tx_id (fold (\<lambda>a e. snd (engine_add_account a e)) accs e1) = next_tx_id e1"
    "processed_since_publish (fold (\<lambda>a e. snd (engine_add_account a e)) accs e1) = processed_since_publish e1"
    "wal_writer (fold (\<lambda>a e. snd (engine_add_account a e)) accs e1) = wal_writer e1" for e1
    by (induction accs arbitrary: e1) (simp_all add: snd_engine_add_account)
  obtain r w os2 where w: "writer_open (wal_path cfg) (sync_mode cfg) new_writer os = (r, w, os2)"
    by (cases "writer_open (wal_path cfg) (sync_mode cfg) new_writer os")
  show "next_tx_id e = 0" "processed_since_publish e = 0"
    "writer_open (wal_path cfg) (sync_mode cfg) new_writer os = (ErrNone, wal_writer e, os1)"
    using assms c w by (auto simp: engine_boot_def new_engine_def engine_open_def has_value_def keep split: if_splits)
qed

lemma commits_ids: "subseq (map tx_id (commits rs)) (request_ids (map fst rs))"
  by (induction rs) (auto simp: commits_def)

lemma engine_boot_run:
  assumes "engine_boot cfg accs os = Some (e, os1)" and "config_ok cfg"
    and "\<forall>op \<in> set ops. op_ok cs op" and "submissions ops + unat (ring_buffer_capacity cfg) < 2 ^ 63"
  obtains cap e' cs' os' f f' hs q n rs where
    "engine_run std_hash ops e cs os1 = Some (e', cs', os')"
    "engine_ok std_hash cap (unat (ring_buffer_capacity cfg)) e' os' f' hs q n" "serves cap e f [] rs e' f'"
    "config e = cfg" "published (store e) = empty_state"
    "path_file os (wal_path cfg) = Some f \<or> names os (wal_path cfg) = None \<and> f = \<lparr>contents = [], stable = []\<rparr>"
    "reliable 321 os1 \<longrightarrow> appends_ok rs" "subseq (request_ids (map fst rs)) (submitted_ids ops)"
    "path_file os' (wal_path cfg) = Some f'"
proof -
  obtain cap rcap f where b: "engine_ok std_hash cap rcap e os1 f [] [] 0" "rcap = unat (ring_buffer_capacity cfg)"
    "config e = cfg" "published (store e) = empty_state"
    "path_file os (wal_path cfg) = Some f \<or> names os (wal_path cfg) = None \<and> f = \<lparr>contents = [], stable = []\<rparr>"
    by (rule engine_boot_ok [OF assms(1,2)])
  from engine_run_serves [OF b(1) _ assms(3)] assms(4) b(2) obtain e' cs' os' f' q n rs where
    r: "engine_run std_hash ops e cs os1 = Some (e', cs', os')"
    "engine_ok std_hash cap rcap e' os' f' ([] @ map (idempotency_key \<circ> req_tx \<circ> fst) rs) q n" "serves cap e f [] rs e' f'"
    "reliable 321 os1 \<longrightarrow> appends_ok rs" "subseq (request_ids (map fst rs @ q)) (request_ids [] @ submitted_ids ops)"
    by auto
  have "subseq (request_ids (map fst rs)) (submitted_ids ops)"
    using r(5) subseq_order.trans [of "request_ids (map fst rs)" "request_ids (map fst rs @ q)"]
    by (simp add: prefix_imp_subseq)
  moreover have "config e' = cfg" using r(3) b(3) by (simp add: serves_def)
  then have "path_file os' (wal_path cfg) = Some f'" using r(2) writer_on_path_file by (auto simp: engine_ok_def)
  ultimately show thesis using that r b by blast
qed

text \<open>A published state is one the working state went through.\<close>

lemma published_state_sound:
  assumes "serves cap e f hs rs e' f'" and "published (store e) = empty_state"
    and "validate_trial_balance (working (store e)) = ErrNone" and "solvent (find_account (working (store e)))"
  shows "validate_trial_balance (published (store e')) = ErrNone" "solvent (find_account (published (store e')))"
proof -
  have p: "published_after e (commits rs) e'" using assms(1) by (simp add: serves_def)
  note adm = serves_admitted [OF assms(1)]
  have empty: "validate_trial_balance empty_state = ErrNone" "solvent (find_account empty_state)"
    by (simp_all add: validate_trial_balance_eq empty_state_def solvent_def find_account_def)
  have run: "validate_trial_balance (apply_run apply_tx (take k (commits rs)) (working (store e))) = ErrNone"
    "solvent (find_account (apply_run apply_tx (take k (commits rs)) (working (store e))))" for k
  proof -
    have "admitted_run find_account apply_tx (take k (commits rs)) (working (store e))"
      using adm admitted_run_append [of find_account apply_tx "take k (commits rs)" "drop k (commits rs)"] by simp
    then show "validate_trial_balance (apply_run apply_tx (take k (commits rs)) (working (store e))) = ErrNone"
      "solvent (find_account (apply_run apply_tx (take k (commits rs)) (working (store e))))"
      using assms(3,4) book.run_trial book.run_solvent by auto
  qed
  have "published (store e') = empty_state \<or>
      (\<exists>k. published (store e') = apply_run apply_tx (take k (commits rs)) (working (store e)))"
    using p assms(2) by (auto simp: published_after_def split: if_splits)
  then show "validate_trial_balance (published (store e')) = ErrNone" "solvent (find_account (published (store e')))"
    using empty run by metis+
qed




text \<open>A retry is answered and has no effect. A request whose idempotency key is among the last
  \<open>capacity\<close> distinct keys the engine has seen is answered with \<open>DuplicateTransaction\<close>; neither the
  log nor the ledger nor anything but the order of the cache changes.\<close>

theorem duplicate_has_no_effect:
  assumes "engine_ok std_hash cap rcap e os f hs q n" and "valid_request cs request"
    and "idempotency_key (req_tx request) \<in> set (recent cap hs)"
  shows "\<exists>cache. process_request std_hash request e cs os =
    Some (e\<lparr>idempotency := cache\<rparr>, acked request DuplicateTransaction cs, os)"
proof -
  have "cache_rel std_hash cap (idempotency e) (recent cap hs)" using assms(1) by (simp add: engine_ok_def)
  then obtain cache where "check_and_insert std_hash (idempotency_key (req_tx request)) (idempotency e) =
      Some (idempotency_key (req_tx request) \<in> set (recent cap hs), cache)"
    by (rule seen_keys.check_recent)
  then show ?thesis
    using assms(3) complete_valid [OF assms(2)] by (intro exI [of _ cache]) (simp add: process_request_def)
qed

text \<open>Submitting never blocks: it queues the stamped transaction at the end of the queue, or, when the
  queue holds as many requests as the ring buffer has cells, refuses with \<open>QueueFull\<close> and leaves the
  engine as it was. In both cases the caller's slot is marked as not done.\<close>

theorem submit_outcomes:
  assumes "engine_ok std_hash cap rcap e os f hs q n" and "p \<in> dom cs" and "n + rcap + 1 < 2 ^ 63"
  shows "\<exists>r e' cs' os' n'. submit weak tx p e cs os = Some (r, e', cs', os') \<and>
    cs' = cs(p \<mapsto> (the (cs p))\<lparr>comp_done := False\<rparr>) \<and>
    engine_ok std_hash cap rcap e' os' f hs
      (if length q < rcap
       then q @ [\<lparr>req_tx = tx\<lparr>created_at_ns := fst (monotonic_now_ns os)\<rparr>, completion = Some p\<rparr>] else q) n' \<and>
    (if length q < rcap then r = ErrNone else r = QueueFull \<and> e' = e)"
proof -
  obtain slot0 where p: "cs p = Some slot0" using assms(2) by auto
  from assms(1) p assms(3) refl show ?thesis
    by (cases rule: submit_cases [where weak = weak and cs = cs and p = p and tx = tx]) (auto simp: p)
qed


text \<open>C35. A failed append uses up the idempotency key. When the log refuses a transaction, the client is told
  so and the ledger is unchanged; but the key was recorded before the append, so a retry with the
  same key, as clients are meant to send it, is answered with \<open>DuplicateTransaction\<close> and again
  changes nothing: the client takes the transaction for done.\<close>

theorem failed_append_blocks_retry:
  assumes "engine_ok std_hash cap rcap e os f hs q n" and "valid_request cs request"
    and "process_request std_hash request e cs os = Some (e', cs', os')"
    and "completion request = Some p" and "cs' p = Some \<lparr>comp_done = True, comp_error = err\<rparr>"
    and "err = WalWriteFailed \<or> err = WalSyncFailed"
    and "valid_request cs' retry" and "idempotency_key (req_tx retry) = idempotency_key (req_tx request)"
  shows "store e' = store e \<and> (\<exists>cache. process_request std_hash retry e' cs' os' =
    Some (e'\<lparr>idempotency := cache\<rparr>, acked retry DuplicateTransaction cs', os'))"
proof -
  let ?tx = "req_tx request"
  let ?v = "verdict (idempotency_key ?tx \<in> set (recent cap hs)) ?tx (working (store e))"
  obtain r e1 os1 f1 where one: "process_request std_hash request e cs os = Some (e1, acked request r cs, os1)"
    "engine_ok std_hash cap rcap e1 os1 f1 (hs @ [idempotency_key ?tx]) q n"
    "request_effect ?v ?tx (fst (monotonic_now_ns os)) e f r e1 f1"
    by (rule process_request_cases [OF assms(1,2)])
  have same: "e1 = e'" "acked request r cs = cs'" "os1 = os'" using one(1) assms(3) by simp_all
  have r: "r = WalWriteFailed \<or> r = WalSyncFailed" using assms(4-6) same(2) by (auto simp: acked_def)
  have "untouched e e1" using one(3) r by (auto simp: request_effect_def split: if_splits)
  moreover have "0 < cap" using assms(1) cache_rel_pos by (auto simp: engine_ok_def)
  then have "idempotency_key (req_tx retry) \<in> set (recent cap (hs @ [idempotency_key ?tx]))"
    using recent_iff [of "idempotency_key ?tx" "[]" cap hs] by (simp add: assms(8))
  from duplicate_has_no_effect [OF one(2) [unfolded same] assms(7) this]
  have "\<exists>cache. process_request std_hash retry e' cs' os' =
    Some (e'\<lparr>idempotency := cache\<rparr>, acked retry DuplicateTransaction cs', os')" .
  ultimately show ?thesis by (simp add: untouched_def same(1))
qed

section \<open>An engine at work\<close>

text \<open>Booting succeeds when the log can be created, and registers the accounts in the working state.\<close>

lemma boot_accounts:
  "store (fold (\<lambda>a e. snd (engine_add_account a e)) accs e) =
     (store e)\<lparr>working := fold (\<lambda>a s. snd (add_account a s)) accs (working (store e))\<rparr>"
  by (induction accs arbitrary: e) (simp_all add: snd_engine_add_account)

lemma writer_open_new_file:
  assumes "fresh_fds os" and "reliable n os" and "names os path = None" and "w_fd w < 0"
  obtains w' os' where "writer_open path mode w os = (ErrNone, w', os')" "later os os'" "fresh_fds os'"
    "names os' = (names os)(path \<mapsto> next_inode os)" "next_inode os' = next_inode os + 1"
    "inodes os' = (inodes os)(next_inode os \<mapsto> \<lparr>contents = [], stable = []\<rparr>)"
proof -
  have ans: "0 \<le> script os (tick os)" "0 \<le> script os (Suc (tick os))"
    using assms(2) by (auto simp: reliable_def intro: order_trans [of 0 "int n"])
  then show thesis
    using assms(1,3,4) that
    by (simp add: writer_open_def writer_close_fresh sys_open_def sys_fstat_def fd_file_def fresh_fds_def
        ufd_reset_def case_prod_unfold Let_def later_def)
qed

lemma engine_boot_new_log:
  assumes "config_ok cfg" and "fresh_fds os" and "reliable n os" and "names os (wal_path cfg) = None"
  obtains e os1 where "engine_boot cfg accs os = Some (e, os1)" "later os os1" "fresh_fds os1"
    "working (store e) = fold (\<lambda>a s. snd (add_account a s)) accs empty_state"
    "names os1 = (names os)(wal_path cfg \<mapsto> next_inode os)" "next_inode os1 = next_inode os + 1"
    "inodes os1 = (inodes os)(next_inode os \<mapsto> \<lparr>contents = [], stable = []\<rparr>)"
proof -
  obtain c where c: "new_cache (idempotency_capacity cfg) = Some c"
    using assms(1) new_cache_rel [of "idempotency_capacity cfg" id] by (auto simp: config_ok_def)
  have "w_fd new_writer < 0" by (simp add: new_writer_def ufd_new_def)
  with assms(2-4) obtain w os1 where w: "writer_open (wal_path cfg) (sync_mode cfg) new_writer os = (ErrNone, w, os1)"
    "later os os1" "fresh_fds os1"
    "names os1 = (names os)(wal_path cfg \<mapsto> next_inode os)" "next_inode os1 = next_inode os + 1"
    "inodes os1 = (inodes os)(next_inode os \<mapsto> \<lparr>contents = [], stable = []\<rparr>)"
    by (rule writer_open_new_file)
  obtain e where e: "engine_boot cfg accs os = Some (fold (\<lambda>a e. snd (engine_add_account a e)) accs e, os1)"
    "store e = new_store"
    using c w(1) by (simp add: engine_boot_def new_engine_def engine_open_def has_value_def)
  show thesis by (rule that [OF e(1) w(2,3) _ w(4-6)]) (simp add: boot_accounts e(2) new_store_def)
qed

text \<open>The default configuration on an empty disk, with the accounts of \<open>example_book\<close>.\<close>

definition demo_config :: Config where
  "demo_config = default_config\<lparr>wal_path := ''wal''\<rparr>"

definition demo_accounts :: "Account list" where
  "demo_accounts =
     [\<lparr>acc_id = 1, acc_type = Asset, balance = 0, overdraft_limit = 50000\<rparr>,
      \<lparr>acc_id = 2, acc_type = Revenue, balance = 0, overdraft_limit = 0\<rparr>]"

lemma demo_config_ok: "config_ok demo_config"
  unfolding config_ok_def by (intro conjI exI [of _ 12]) (simp_all add: demo_config_def default_config_def)

lemma demo_boot:
  obtains e os1 where "engine_boot demo_config demo_accounts (blank_os 321) = Some (e, os1)"
    "working (store e) = example_book" "reliable 321 os1" "fresh_fds os1" "wf_fs os1"
proof -
  obtain e os1 where b: "engine_boot demo_config demo_accounts (blank_os (int 321)) = Some (e, os1)"
    "later (blank_os (int 321)) os1" "fresh_fds os1"
    "working (store e) = fold (\<lambda>a s. snd (add_account a s)) demo_accounts empty_state"
    "names os1 = (names (blank_os (int 321)))(wal_path demo_config \<mapsto> next_inode (blank_os (int 321)))"
    "next_inode os1 = next_inode (blank_os (int 321)) + 1"
    "inodes os1 = (inodes (blank_os (int 321)))(next_inode (blank_os (int 321)) \<mapsto> \<lparr>contents = [], stable = []\<rparr>)"
    by (rule engine_boot_new_log [OF demo_config_ok, where os = "blank_os (int 321)" and n = 321])
      (simp_all add: blank_os_def fresh_fds_def reliable_def)
  have "reliable 321 os1" using later_reliable [OF b(2)] blank_os_facts(3) [of 321] by simp
  moreover have "working (store e) = example_book" by (simp add: b(4) demo_accounts_def example_book_def)
  moreover have "wf_fs os1" using b(5-7) by (simp add: wf_fs_def blank_os_def)
  ultimately show thesis using that b(1,3) by simp
qed

definition demo_slots :: completions where
  "demo_slots = [0 \<mapsto> new_completion, 1 \<mapsto> new_completion]"

definition demo_ops :: "engine_op list" where
  "demo_ops = [Allocate, Submit 0 (example_sale 1 10) 0, Submit 1 (example_sale 1 10) 1, Process 5]"

lemma demo_facts:
  "\<forall>op \<in> set demo_ops. op_ok demo_slots op" "submissions demo_ops + unat (ring_buffer_capacity demo_config) < 2 ^ 63"
  "submitted_ids demo_ops = [1, 1]" "sync_mode demo_config = SyncEveryWrite" "wal_path demo_config = ''wal''"
  "validate_trial_balance example_book = ErrNone"
  by (simp_all add: demo_ops_def demo_slots_def op_ok_def submissions_def demo_config_def default_config_def
      example_book_facts)

lemma example_book_solvent: "solvent (find_account example_book)"
  by (auto simp: solvent_def below_floor_def find_account_def accounts_example_book word_sless_alt split: if_splits)

text \<open>The engine with one sale in its queue.\<close>

definition demo_request :: "os \<Rightarrow> PendingRequest" where
  "demo_request os = \<lparr>req_tx = (example_sale 1 10)\<lparr>created_at_ns := fst (monotonic_now_ns os)\<rparr>, completion = Some 0\<rparr>"

lemma demo_request_simps [simp]:
  "completion (demo_request os) = Some 0" "tx_id (req_tx (demo_request os)) = 1"
  "idempotency_key (req_tx (demo_request os)) = IdempotencyKey 1 1" "wf_tx (req_tx (demo_request os))"
  "tx_legs (req_tx (demo_request os)) = tx_legs (example_sale 1 10)"
proof -
  have "wf_tx (example_sale 1 10)" by simp
  then show "wf_tx (req_tx (demo_request os))" "tx_legs (req_tx (demo_request os)) = tx_legs (example_sale 1 10)"
    by (simp_all add: demo_request_def wf_tx_def tx_legs_def)
qed (simp_all add: demo_request_def)

lemma demo_engine_ok:
  obtains e os f where "engine_ok id (2 ^ 17) 4096 e os f [] [] 0" "config e = demo_config"
    "working (store e) = example_book" "f = \<lparr>contents = [], stable = []\<rparr>" "reliable 321 os"
proof -
  obtain e os1 where b: "engine_boot demo_config demo_accounts (blank_os 321) = Some (e, os1)"
    "working (store e) = example_book" "reliable 321 os1"
    by (rule demo_boot)
  show thesis
  proof (rule engine_boot_ok [OF b(1) demo_config_ok, of id], goal_cases)
    case (1 cap rcap f)
    then show ?case
      using b(2,3) by (intro that [of e os1 f]) (auto simp: demo_config_def default_config_def blank_os_def path_file_def)
  qed
qed

lemma demo_queued:
  obtains e os f os0 where "engine_ok id (2 ^ 17) 4096 e os f [] [demo_request os0] 1" "config e = demo_config"
    "working (store e) = example_book" "f = \<lparr>contents = [], stable = []\<rparr>" "reliable 321 os"
proof -
  obtain e os f where b: "engine_ok id (2 ^ 17) 4096 e os f [] [] 0" "config e = demo_config"
    "working (store e) = example_book" "f = \<lparr>contents = [], stable = []\<rparr>" "reliable 321 os"
    by (rule demo_engine_ok)
  have slot0: "demo_slots 0 = Some new_completion" by (simp add: demo_slots_def)
  have bound: "(0 :: nat) + 4096 + 1 < 2 ^ 63" by simp
  from b(1) slot0 bound refl show thesis
  proof (cases rule: submit_cases [where weak = 0 and tx = "example_sale 1 10"])
    case (queued e' os')
    with b that [of e' os' f os] reliable_clock [OF b(5)] show thesis by (simp add: demo_request_def untouched_def)
  qed simp
qed

lemma demo_valid: "valid_request demo_slots (demo_request os)"
  by (simp add: valid_request_def demo_slots_def)

lemma demo_admitted: "admitted (find_account example_book) (req_tx (demo_request os))"
  using example_sale_admitted by (simp add: admitted_iff)

lemma demo_verdict:
  assumes "s = example_book"
  shows "verdict (idempotency_key (req_tx (demo_request os)) \<in> set (recent cap [])) (req_tx (demo_request os)) s = ErrNone"
  by (simp add: assms verdict_ok recent_def demo_admitted)





text \<open>A disk that refuses every write.\<close>

lemma refused_append:
  assumes "wf_tx tx" and "writer_on w os path f" and "script os = (\<lambda>k. -1)" and "wal_append tx w os = Some (r, w', os')"
  shows "r = WalWriteFailed"
  by (rule wal_append_cases [OF assms(1,2)]) (use assms(3,4) in \<open>simp add: append_result_def\<close>)

theorem failed_append_blocks_retry_witness:
  "\<exists>e os os0 e' cs' os' e'' cs''. process_request id (demo_request os0) e demo_slots os = Some (e', cs', os') \<and>
     cs' 0 = Some \<lparr>comp_done = True, comp_error = WalWriteFailed\<rparr> \<and>
     process_request id (demo_request os0) e' cs' os' = Some (e'', cs'', os') \<and> store e'' = store e \<and>
     cs'' 0 = Some \<lparr>comp_done = True, comp_error = DuplicateTransaction\<rparr>"
proof -
  obtain e os1 f os0 where q: "engine_ok id (2 ^ 17) 4096 e os1 f [] [demo_request os0] 1"
    "working (store e) = example_book"
    by (rule demo_queued)
  define os where "os = os1\<lparr>script := (\<lambda>k. -1)\<rparr>"
  have ok: "engine_ok id (2 ^ 17) 4096 e os f [] [demo_request os0] 1"
    using q(1) by (simp add: engine_ok_def writer_on_def open_on_def os_def)
  let ?tx = "req_tx (demo_request os0)"
  obtain r w' os' f' e' where p: "process_request id (demo_request os0) e demo_slots os = Some (e', acked (demo_request os0) r demo_slots, os')"
    "wal_append ?tx (wal_writer e) os = Some (r, w', os')"
    by (rule process_request_appends [OF ok demo_valid demo_verdict [OF q(2)]])
  have on: "writer_on (wal_writer e) os (wal_path (config e)) f" using ok by (simp add: engine_ok_def)
  have "r = WalWriteFailed" by (rule refused_append [OF _ on _ p(2)]) (simp_all add: os_def)
  then have slot: "acked (demo_request os0) r demo_slots 0 = Some \<lparr>comp_done = True, comp_error = WalWriteFailed\<rparr>"
    by (simp add: acked_def)
  have "valid_request (acked (demo_request os0) r demo_slots) (demo_request os0)" by (rule valid_request_acked [OF demo_valid])
  from failed_append_blocks_retry [OF ok demo_valid p(1) _ slot _ this refl] obtain cache where
    "store e' = store e" "process_request id (demo_request os0) e' (acked (demo_request os0) r demo_slots) os' =
      Some (e'\<lparr>idempotency := cache\<rparr>, acked (demo_request os0) DuplicateTransaction (acked (demo_request os0) r demo_slots), os')"
    by auto
  then show ?thesis using p(1) slot by (intro exI conjI) (assumption | simp add: acked_def)+
qed

theorem duplicate_has_no_effect_witness:
  "\<exists>e os os0 cache. process_request id (demo_request os0) e demo_slots os =
     Some (e\<lparr>idempotency := cache\<rparr>, acked (demo_request os0) DuplicateTransaction demo_slots, os)"
proof -
  obtain e os f os0 where q: "engine_ok id (2 ^ 17) 4096 e os f [] [demo_request os0] 1"
    by (rule demo_queued)
  have "\<forall>request \<in> set [demo_request os0]. valid_request demo_slots request" using demo_valid by simp
  from process_loop_serves [OF q this, of 0 5 1] obtain e' os' f' where
    ok: "engine_ok id (2 ^ 17) 4096 e' os' f' [IdempotencyKey 1 1] [] 1"
    by auto
  have "idempotency_key (req_tx (demo_request os0)) \<in> set (recent (2 ^ 17) [IdempotencyKey 1 1])"
    by (simp add: recent_def)
  from duplicate_has_no_effect [OF ok demo_valid this] show ?thesis by blast
qed

theorem submit_outcomes_witness:
  "\<exists>e os os0 f e' cs' os' n' request. submit 0 (example_sale 2 10) 1 e demo_slots os = Some (ErrNone, e', cs', os') \<and>
     engine_ok id (2 ^ 17) 4096 e' os' f [] [demo_request os0, request] n'"
proof -
  obtain e os f os0 where q: "engine_ok id (2 ^ 17) 4096 e os f [] [demo_request os0] 1"
    by (rule demo_queued)
  have "1 \<in> dom demo_slots" "(1 :: nat) + 4096 + 1 < 2 ^ 63" by (simp_all add: demo_slots_def)
  from submit_outcomes [OF q this, of 0 "example_sale 2 10"] obtain r e' cs' os' n' where
    "submit 0 (example_sale 2 10) 1 e demo_slots os = Some (r, e', cs', os')" "r = ErrNone"
    "engine_ok id (2 ^ 17) 4096 e' os' f [] ([demo_request os0] @ [\<lparr>req_tx = (example_sale 2 10)
       \<lparr>created_at_ns := fst (monotonic_now_ns os)\<rparr>, completion = Some 1\<rparr>]) n'"
    by auto
  then show ?thesis by (metis append_Cons append_Nil)
qed

end
