(* ===== verification/Driver.thy ===== *)
theory Driver
  imports Engine
begin

text \<open>
  The demo driver (\<open>src/src/main.cpp\<close>): several producer threads each submit a number of sales and
  wait for every answer, while the main thread drains the queue; then the published state is written
  as a snapshot and recovered. The threads are a transition system: one step is one iteration of a
  producer up to its next call of the engine, or one iteration of the writer's loop, and the steps
  are interleaved arbitrarily. The directory handling at the start of \<open>main\<close> is an assumption on the
  file system (the log does not exist yet); the lines the driver prints are the result of
  \<open>driver_report\<close>.

  The theory shows that in every interleaving no step is undefined, that the driver can always run
  to its end, and what it prints there.
\<close>

section \<open>The code\<close>

definition kCash :: AccountId where
  "kCash = 1"

definition kRevenue :: AccountId where
  "kRevenue = 2"

definition kProducers :: nat where
  "kProducers = 4"

definition kTxPerProducer :: nat where
  "kTxPerProducer = 500"

definition driver_config :: "string \<Rightarrow> Config" where
  "driver_config path = default_config\<lparr>wal_path := path, sync_mode := SyncEveryWrite,
     ring_buffer_capacity := 1024, publish_snapshot_every_n := 16\<rparr>"

definition state_working_copy :: "LedgerEngine \<Rightarrow> LedgerState" where
  "state_working_copy e = working (store e)"

text \<open>The engine is opened, the accounts are registered and written as the first snapshot, whose
  result is ignored. \<open>pad\<close> is the padding of the snapshot's header.\<close>

definition driver_setup ::
    "u32 \<Rightarrow> string \<Rightarrow> string \<Rightarrow> os \<Rightarrow> ((LedgerError + LedgerEngine) \<times> os) option"
where
  "driver_setup pad wal snap os = do {
     e \<leftarrow> new_engine (driver_config wal);
     let (opened, e, os) = engine_open e os;
     if \<not> has_value opened then Some (Inl opened, os)
     else do {
       let e = snd (engine_add_account \<lparr>acc_id = kCash, acc_type = Asset, balance = 0, overdraft_limit = 50000\<rparr> e);
       let e = snd (engine_add_account \<lparr>acc_id = kRevenue, acc_type = Revenue, balance = 0, overdraft_limit = 0\<rparr> e);
       (r, os) \<leftarrow> write_snapshot pad snap (state_working_copy e) 0 os;
       Some (Inr e, os)
     }
   }"

text \<open>The transaction a producer submits.\<close>

definition driver_tx :: "TransactionId \<Rightarrow> Transaction" where
  "driver_tx i = default_tx\<lparr>tx_id := i, idempotency_key := IdempotencyKey i i,
     legs := snd (push_back \<lparr>account_id = kCash, direction = Credit, amount = 10\<rparr>
       (snd (push_back \<lparr>account_id = kRevenue, direction = Debit, amount = 10\<rparr> (legs default_tx))))\<rparr>"

text \<open>
  A producer in iteration \<open>i\<close> of its loop: at the head, with an id, or waiting for the answer. The
  writer evaluates the condition of its loop, or is inside \<open>process_pending\<close> after \<open>k\<close> requests, in
  the loop or in the final drain.
\<close>

datatype thread = Looping nat | Holding nat TransactionId | Waiting nat | Finished

datatype writer = Checking | Draining bool u64 | Drained

record driver =
  engine :: LedgerEngine
  slots :: completions
  kernel :: os
  threads :: "thread list"
  writer :: writer
  accepted :: nat
  rejected :: nat
  producers_finished :: nat

definition driver_start :: "LedgerEngine \<Rightarrow> os \<Rightarrow> driver" where
  "driver_start e os = \<lparr>engine = e, slots = Map.empty, kernel = os, threads = replicate kProducers (Looping 0),
     writer = Checking, accepted = 0, rejected = 0, producers_finished = 0\<rparr>"

text \<open>
  One step of producer \<open>p\<close>. Its completion slot lives on its own stack, is new in every iteration,
  and has address \<open>p\<close>. While the slot is not done the producer yields.
\<close>

definition thread_step :: "nat \<Rightarrow> nat \<Rightarrow> driver \<Rightarrow> driver option" where
  "thread_step weak p d =
     (case threads d ! p of
        Looping i \<Rightarrow>
          if i < kTxPerProducer then
            (let (tid, e) = allocate_transaction_id (engine d)
             in Some (d\<lparr>engine := e, threads := (threads d)[p := Holding i tid]\<rparr>))
          else Some (d\<lparr>producers_finished := producers_finished d + 1, threads := (threads d)[p := Finished]\<rparr>)
      | Holding i tid \<Rightarrow> do {
          (r, e, cs, os) \<leftarrow> submit weak (driver_tx tid) p (engine d) ((slots d)(p \<mapsto> new_completion)) (kernel d);
          let d = d\<lparr>engine := e, slots := cs, kernel := os\<rparr>;
          if \<not> has_value r
          then Some (d\<lparr>rejected := rejected d + 1, threads := (threads d)[p := Looping (i + 1)]\<rparr>)
          else Some (d\<lparr>threads := (threads d)[p := Waiting i]\<rparr>)
        }
      | Waiting i \<Rightarrow> do {
          slot \<leftarrow> slots d p;
          if \<not> comp_done slot then Some d
          else if comp_error slot = ErrNone
          then Some (d\<lparr>accepted := accepted d + 1, threads := (threads d)[p := Looping (i + 1)]\<rparr>)
          else Some (d\<lparr>rejected := rejected d + 1, threads := (threads d)[p := Looping (i + 1)]\<rparr>)
        }
      | Finished \<Rightarrow> Some d)"

text \<open>One step of the main thread: its loop condition, or one iteration of the loop inside
  \<open>process_pending\<close>, called with 1024 in the loop and with \<open>2 ^ 20\<close> for the final drain.\<close>

definition writer_step :: "(u64 \<Rightarrow> u64) \<Rightarrow> driver \<Rightarrow> driver option" where
  "writer_step std_hash d =
     (case writer d of
        Checking \<Rightarrow> Some (d\<lparr>writer := Draining (\<not> producers_finished d < kProducers) 0\<rparr>)
      | Draining final k \<Rightarrow>
          if k < (if final then 2 ^ 20 else 1024) then do {
            (popped, ring) \<leftarrow> try_pop (requests (engine d));
            let e = (engine d)\<lparr>requests := ring\<rparr>;
            (case popped of
               None \<Rightarrow> Some (d\<lparr>engine := e, writer := (if final then Drained else Checking)\<rparr>)
             | Some request \<Rightarrow> do {
                 (e, cs, os) \<leftarrow> process_request std_hash request e (slots d) (kernel d);
                 Some (d\<lparr>engine := e, slots := cs, kernel := os, writer := Draining final (k + 1)\<rparr>)
               })
          }
          else Some (d\<lparr>writer := (if final then Drained else Checking)\<rparr>)
      | Drained \<Rightarrow> Some d)"

inductive driver_step :: "(u64 \<Rightarrow> u64) \<Rightarrow> driver \<Rightarrow> driver \<Rightarrow> bool" for std_hash where
  producer_moves: "p < kProducers \<Longrightarrow> thread_step weak p d = Some d' \<Longrightarrow> driver_step std_hash d d'"
| writer_moves: "writer_step std_hash d = Some d' \<Longrightarrow> driver_step std_hash d d'"

text \<open>The end of \<open>main\<close>: the counters and balances it prints, the balances or the error after
  recovery. A missing account is a null pointer.\<close>

record report =
  shown_counters :: "nat \<times> nat"
  shown_balances :: "Amount \<times> Amount"
  shown_recovery :: "LedgerError + Amount \<times> Amount"

definition driver_report :: "u32 \<Rightarrow> string \<Rightarrow> string \<Rightarrow> driver \<Rightarrow> report option" where
  "driver_report pad wal snap d = do {
     let state = engine_snapshot (engine d);
     cash \<leftarrow> find_account state kCash;
     revenue \<leftarrow> find_account state kRevenue;
     (r, os) \<leftarrow> write_snapshot pad snap state (size_bytes (wal_writer (engine d))) (kernel d);
     (recovered, os) \<leftarrow> recover wal snap os;
     again \<leftarrow> (case recovered of
        Inl err \<Rightarrow> Some (Inl err)
      | Inr value \<Rightarrow> do {
          cash \<leftarrow> find_account (rec_state value) kCash;
          revenue \<leftarrow> find_account (rec_state value) kRevenue;
          Some (Inr (balance cash, balance revenue))
        });
     Some \<lparr>shown_counters = (accepted d, rejected d), shown_balances = (balance cash, balance revenue),
       shown_recovery = again\<rparr>
   }"

section \<open>Sales\<close>

lemma driver_tx_eq: "driver_tx i = example_sale i 10"
  by (simp add: driver_tx_def example_sale_def make_tx_def default_tx_def kCash_def kRevenue_def)

text \<open>The ledger after \<open>k\<close> sales.\<close>

definition sold :: "nat \<Rightarrow> TransactionId \<Rightarrow> LedgerState" where
  "sold k i =
     \<lparr>accounts = [(1, \<lparr>acc_id = 1, acc_type = Asset, balance = - of_nat (10 * k), overdraft_limit = 50000\<rparr>),
                  (2, \<lparr>acc_id = 2, acc_type = Revenue, balance = - of_nat (10 * k), overdraft_limit = 0\<rparr>)],
      last_applied_id = i\<rparr>"

lemma apply_sale:
  assumes "tx_legs tx = tx_legs (example_sale j 10)"
  shows "apply_tx tx (sold k i) = (ErrNone, sold (Suc k) (max i (tx_id tx)))"
  using assms by (auto simp: apply_tx_def sold_def find_account_def store_account_def signed_delta_def
      is_debit_normal_def max_def)

lemma sale_admitted:
  assumes "tx_legs tx = tx_legs (example_sale j 10)" and "k < 5000"
  shows "admitted (find_account (sold k i)) tx"
proof -
  have "- of_nat (10 * k) - 10 = (of_int (- (10 * int k + 10)) :: i64)" by simp
  then have "sint (- of_nat (10 * k) - 10 :: i64) = - (10 * int k + 10)"
    using sint_of_int_i64 [of "- (10 * int k + 10)"] assms(2) by (simp only: in_i64_def) simp
  then have "\<not> - of_nat (10 * k) - 10 <s (- 50000 :: i64)"
    using assms(2) by (simp add: word_sless_alt)
  then show ?thesis using assms(1)
  by (simp add: admitted_iff find_account_def sold_def balanced_shape_def
      unknown_account_def overdraws_def below_floor_def is_debit_normal_def leg_delta_def
      signed_delta_def)
qed


section \<open>Frames\<close>

text \<open>What the engine does to the operating system: answers are consumed and files change, but
  names and descriptors stay.\<close>

definition calm :: "os \<Rightarrow> os \<Rightarrow> bool" where
  "calm os os' \<longleftrightarrow> names os' = names os \<and> next_inode os' = next_inode os \<and> script os' = script os \<and>
     tick os \<le> tick os' \<and> next_fd os' = next_fd os \<and> dom (fds os') = dom (fds os) \<and>
     dom (inodes os) \<subseteq> dom (inodes os')"

lemma calm_refl [simp]: "calm os os"
  by (simp add: calm_def)

lemma calm_trans: "calm a b \<Longrightarrow> calm b c \<Longrightarrow> calm a c"
  using order_trans [of "dom (inodes a)" "dom (inodes b)" "dom (inodes c)"] by (simp add: calm_def)

lemma calm_answer [simp]: "calm os (snd (answer os))"
  by (simp add: calm_def)

lemma calm_clock [simp]: "calm os (snd (monotonic_now_ns os))"
  by (simp add: calm_def)

lemma calm_put: "i \<in> dom (inodes os) \<Longrightarrow> calm os (put_file i f os)"
  by (auto simp: calm_def)

lemma calm_write: "sys_write fd bs os = (n, os') \<Longrightarrow> calm os os'"
  by (auto simp: sys_write_def case_prod_unfold Let_def calm_def split: option.splits if_splits)

lemma calm_fsync: "sys_fsync fd os = (n, os') \<Longrightarrow> calm os os'"
  by (auto simp: sys_fsync_def case_prod_unfold Let_def calm_def split: option.splits if_splits)

lemma calm_flush: "flush w os = (r, w', os') \<Longrightarrow> calm os os'"
  by (auto simp: flush_def Let_def split: if_splits prod.splits dest: calm_fsync)

lemma calm_append:
  assumes "wf_tx tx" and "0 \<le> w_fd w" and "wal_append tx w os = Some (r, w', os')"
  shows "calm os os'"
proof -
  obtain now os1 where now: "monotonic_now_ns os = (now, os1)" by (cases "monotonic_now_ns os")
  then have 1: "calm os os1" using calm_clock [of os] by simp
  obtain n os2 where w: "sys_write (w_fd w) (record_bytes tx now) os1 = (n, os2)"
    by (cases "sys_write (w_fd w) (record_bytes tx now) os1")
  have "calm os2 os'"
    using assms(3) unfolding wal_append_eq [OF assms(1,2)] now Let_def
    by (auto simp: w split: if_splits dest: calm_flush)
  then show ?thesis using calm_trans [OF calm_trans [OF 1 calm_write [OF w]]] by blast
qed

lemma calm_facts:
  assumes "calm os os'"
  shows "reliable n os \<Longrightarrow> reliable n os'" "fresh_fds os \<Longrightarrow> fresh_fds os'" "wf_fs os \<Longrightarrow> wf_fs os'"
proof -
  show "reliable n os \<Longrightarrow> reliable n os'" using assms by (auto simp: calm_def reliable_def)
  have dom: "dom (fds os') = dom (fds os)" "dom (inodes os) \<subseteq> dom (inodes os')" using assms by (simp_all add: calm_def)
  then have "fds os' fd = None \<longleftrightarrow> fds os fd = None" for fd using domIff by metis
  then show "fresh_fds os \<Longrightarrow> fresh_fds os'" using assms by (simp add: calm_def fresh_fds_def)
  have "inodes os i \<noteq> None \<Longrightarrow> inodes os' i \<noteq> None" for i using dom(2) by blast
  moreover have "names os' = names os" "next_inode os' = next_inode os" using assms by (simp_all add: calm_def)
  ultimately show "wf_fs os \<Longrightarrow> wf_fs os'" unfolding wf_fs_def by simp
qed

section \<open>A committed request\<close>

lemma process_request_commits:
  assumes "engine_ok std_hash cap rcap e os f hs q n" and "valid_request cs request" and "reliable 321 os"
    and "verdict (idempotency_key (req_tx request) \<in> set (recent cap hs)) (req_tx request) (working (store e)) = ErrNone"
  obtains cache w' os' f' where
    "process_request std_hash request e cs os =
       Some (count_and_publish (e\<lparr>idempotency := cache, wal_writer := w',
         store := (store e)\<lparr>working := snd (apply_tx (req_tx request) (working (store e)))\<rparr>\<rparr>),
         acked request ErrNone cs, os')"
    "cache_rel std_hash cap cache (recent cap (hs @ [idempotency_key (req_tx request)]))"
    "writer_on w' os' (wal_path (config e)) f'" "calm os os'"
    "append_effect (req_tx request) (fst (monotonic_now_ns os)) (wal_writer e) f ErrNone w' f'"
proof -
  let ?tx = "req_tx request"
  have ok: "cache_rel std_hash cap (idempotency e) (recent cap hs)" "writer_on (wal_writer e) os (wal_path (config e)) f"
    using assms(1) by (simp_all add: engine_ok_def)
  have wf: "wf_tx ?tx" using assms(2) by (simp add: valid_request_def)
  note v = assms(4) [unfolded verdict_ok admitted_def]
  obtain cache where cache: "check_and_insert std_hash (idempotency_key ?tx) (idempotency e) = Some (False, cache)"
    "cache_rel std_hash cap cache (recent cap (hs @ [idempotency_key ?tx]))"
    using seen_keys.check_recent [OF ok(1), of "idempotency_key ?tx"] v by auto
  obtain r w' os' f' where app: "wal_append ?tx (wal_writer e) os = Some (r, w', os')"
    "append_effect ?tx (fst (monotonic_now_ns os)) (wal_writer e) f r w' f'"
    "writer_on w' os' (wal_path (config e)) f'"
    by (rule wal_append_cases [OF wf ok(2)])
  have r: "r = ErrNone" using wal_append_reliable [OF wf ok(2) assms(3) app(1)] by simp
  have "calm os os'" using calm_append [OF wf _ app(1)] ok(2) by (simp add: writer_on_def)
  moreover have "process_request std_hash request e cs os =
       Some (count_and_publish (e\<lparr>idempotency := cache, wal_writer := w',
         store := (store e)\<lparr>working := snd (apply_tx ?tx (working (store e)))\<rparr>\<rparr>), acked request ErrNone cs, os')"
    using v cache(1) app(1) by (simp add: process_request_def Let_def complete_valid [OF assms(2)] has_value_def r)
  ultimately show thesis using that cache(2) app(2,3) by (simp add: r)
qed


section \<open>The invariant of the driver\<close>

text \<open>Iterations completed, ids taken, requests sent, and whether the thread has ended; with their sums
  over the threads.\<close>

fun iters :: "thread \<Rightarrow> nat" where
  "iters (Looping i) = i" | "iters (Holding i tid) = i" | "iters (Waiting i) = i" | "iters Finished = kTxPerProducer"

fun taken :: "thread \<Rightarrow> nat" where
  "taken (Looping i) = i" | "taken (Holding i tid) = i + 1" | "taken (Waiting i) = i + 1" | "taken Finished = kTxPerProducer"

fun sent :: "thread \<Rightarrow> nat" where
  "sent (Looping i) = i" | "sent (Holding i tid) = i" | "sent (Waiting i) = i + 1" | "sent Finished = kTxPerProducer"

fun ended :: "thread \<Rightarrow> nat" where
  "ended Finished = 1" | "ended _ = 0"

fun thread_ok :: "thread \<Rightarrow> bool" where
  "thread_ok (Looping i) \<longleftrightarrow> i \<le> kTxPerProducer"
| "thread_ok (Holding i tid) \<longleftrightarrow> i < kTxPerProducer"
| "thread_ok (Waiting i) \<longleftrightarrow> i < kTxPerProducer"
| "thread_ok Finished \<longleftrightarrow> True"

definition tally :: "(thread \<Rightarrow> nat) \<Rightarrow> thread list \<Rightarrow> nat" where
  "tally f ts = sum_list (map f ts)"

lemma tally_update:
  assumes "p < length ts"
  shows "tally f (ts[p := t]) + f (ts ! p) = tally f ts + f t"
  using assms sum_list_update [of p "map f ts" "f t"] elem_le_sum_list [of p "map f ts"]
  by (simp add: tally_def map_update)

lemma tally_le: "\<forall>t \<in> set ts. f t \<le> b \<Longrightarrow> tally f ts \<le> length ts * b"
  by (induction ts) (auto simp: tally_def add_mono)

definition counts_ok :: "driver \<Rightarrow> nat \<Rightarrow> bool" where
  "counts_ok d n \<longleftrightarrow> length (threads d) = kProducers \<and> (\<forall>t \<in> set (threads d). thread_ok t) \<and>
     accepted d = tally iters (threads d) \<and> rejected d = 0 \<and> producers_finished d = tally ended (threads d) \<and>
     n = tally sent (threads d) \<and> unat (next_tx_id (engine d)) = tally taken (threads d)"

text \<open>A queued request is the sale of a waiting thread whose slot is open; a waiting thread has a request
  in the queue, or its answer.\<close>

definition queued_sale :: "driver \<Rightarrow> PendingRequest \<Rightarrow> nat \<Rightarrow> bool" where
  "queued_sale d request p \<longleftrightarrow> p < kProducers \<and> completion request = Some p \<and> (\<exists>i. threads d ! p = Waiting i) \<and>
     (\<exists>slot. slots d p = Some slot \<and> \<not> comp_done slot) \<and>
     (\<exists>tid now. req_tx request = (example_sale tid 10)\<lparr>created_at_ns := now\<rparr>)"

definition queue_ok :: "driver \<Rightarrow> PendingRequest list \<Rightarrow> bool" where
  "queue_ok d q \<longleftrightarrow> distinct (map completion q) \<and> (\<forall>request \<in> set q. \<exists>p. queued_sale d request p)"

definition waiting_ok :: "driver \<Rightarrow> PendingRequest list \<Rightarrow> bool" where
  "waiting_ok d q \<longleftrightarrow> (\<forall>p i. p < kProducers \<longrightarrow> threads d ! p = Waiting i \<longrightarrow>
     (\<exists>slot. slots d p = Some slot \<and>
       (if comp_done slot then comp_error slot = ErrNone else Some p \<in> completion ` set q)))"

text \<open>No two transactions share an id, whether processed, queued or still held.\<close>

abbreviation used_keys :: "IdempotencyKey list \<Rightarrow> PendingRequest list \<Rightarrow> IdempotencyKey list" where
  "used_keys hs q \<equiv> hs @ map (idempotency_key \<circ> req_tx) q"

definition ids_ok :: "TransactionId \<Rightarrow> thread list \<Rightarrow> IdempotencyKey list \<Rightarrow> bool" where
  "ids_ok newest ts keys \<longleftrightarrow> distinct keys \<and> (\<forall>i j. IdempotencyKey i j \<in> set keys \<longrightarrow> i \<le> newest) \<and>
     (\<forall>p i tid. p < length ts \<longrightarrow> ts ! p = Holding i tid \<longrightarrow> tid \<le> newest \<and> IdempotencyKey tid tid \<notin> set keys) \<and>
     (\<forall>p i p' j tid. p < length ts \<longrightarrow> p' < length ts \<longrightarrow> ts ! p = Holding i tid \<longrightarrow> ts ! p' = Holding j tid \<longrightarrow> p' = p)"

definition book_ok :: "LedgerEngine \<Rightarrow> nat \<Rightarrow> bool" where
  "book_ok e k \<longleftrightarrow> (\<exists>i. working (store e) = sold k i) \<and> processed_since_publish e = of_nat (k mod 16) \<and>
     (if k < 16 then published (store e) = empty_state else (\<exists>i. published (store e) = sold (16 * (k div 16)) i))"

definition log_ok :: "LedgerEngine \<Rightarrow> diskfile \<Rightarrow> nat \<Rightarrow> bool" where
  "log_ok e f k \<longleftrightarrow> w_offset (wal_writer e) = of_nat (length (contents f)) \<and> length (contents f) \<le> 321 * k"

definition writer_ok :: "driver \<Rightarrow> PendingRequest list \<Rightarrow> bool" where
  "writer_ok d q \<longleftrightarrow>
     (case writer d of
        Checking \<Rightarrow> True
      | Draining final k \<Rightarrow> final \<longrightarrow> (\<forall>t \<in> set (threads d). t = Finished)
      | Drained \<Rightarrow> (\<forall>t \<in> set (threads d). t = Finished) \<and> q = [])"

definition driver_rel ::
    "(u64 \<Rightarrow> u64) \<Rightarrow> string \<Rightarrow> os \<Rightarrow> driver \<Rightarrow> diskfile \<Rightarrow> IdempotencyKey list \<Rightarrow> PendingRequest list \<Rightarrow> bool"
where
  "driver_rel std_hash wal os0 d f hs q \<longleftrightarrow>
     engine_ok std_hash (2 ^ 17) 1024 (engine d) (kernel d) f hs q (length hs + length q) \<and>
     config (engine d) = driver_config wal \<and> calm os0 (kernel d) \<and>
     counts_ok d (length hs + length q) \<and> queue_ok d q \<and> waiting_ok d q \<and>
     ids_ok (next_tx_id (engine d)) (threads d) (used_keys hs q) \<and>
     book_ok (engine d) (length hs) \<and> log_ok (engine d) f (length hs) \<and> writer_ok d q"

lemma driver_relD:
  assumes "driver_rel std_hash wal os0 d f hs q"
  shows "engine_ok std_hash (2 ^ 17) 1024 (engine d) (kernel d) f hs q (length hs + length q)"
    "config (engine d) = driver_config wal" "calm os0 (kernel d)" "counts_ok d (length hs + length q)"
    "queue_ok d q" "waiting_ok d q" "ids_ok (next_tx_id (engine d)) (threads d) (used_keys hs q)"
    "book_ok (engine d) (length hs)" "log_ok (engine d) f (length hs)" "writer_ok d q"
  using assms by (simp_all only: driver_rel_def)

text \<open>At most \<open>kProducers * kTxPerProducer\<close> requests, and at most \<open>kProducers\<close> of them queued.\<close>

lemma counts_bound:
  assumes "counts_ok d n"
  shows "n \<le> 2000" "unat (next_tx_id (engine d)) \<le> 2000"
proof -
  have "\<forall>t \<in> set (threads d). sent t \<le> kTxPerProducer" "\<forall>t \<in> set (threads d). taken t \<le> kTxPerProducer"
  proof -
    have "thread_ok t \<Longrightarrow> sent t \<le> kTxPerProducer \<and> taken t \<le> kTxPerProducer" for t by (cases t) auto
    then show "\<forall>t \<in> set (threads d). sent t \<le> kTxPerProducer" "\<forall>t \<in> set (threads d). taken t \<le> kTxPerProducer"
      using assms by (simp_all add: counts_ok_def)
  qed
  from tally_le [OF this(1)] tally_le [OF this(2)] show "n \<le> 2000" "unat (next_tx_id (engine d)) \<le> 2000"
    using assms by (simp_all add: counts_ok_def kProducers_def kTxPerProducer_def)
qed

lemma queue_bound: "queue_ok d q \<Longrightarrow> length q \<le> kProducers"
proof -
  assume q: "queue_ok d q"
  then have "set (map completion q) \<subseteq> Some ` {..<kProducers}" by (auto simp: queue_ok_def queued_sale_def)
  then have "card (set (map completion q)) \<le> card (Some ` {..<kProducers})" by (intro card_mono) simp_all
  moreover have "card (set (map completion q)) = length q" using q distinct_card by (force simp: queue_ok_def)
  ultimately show ?thesis by (simp add: card_image)
qed

lemma engine_ok_next_id [simp]:
  "engine_ok std_hash cap rcap (e\<lparr>next_tx_id := x\<rparr>) os f hs q n = engine_ok std_hash cap rcap e os f hs q n"
  by (simp add: engine_ok_def)

section \<open>Steps of a producer\<close>

lemma thread_at:
  assumes "counts_ok d n" and "p < kProducers"
  shows "p < length (threads d)" "thread_ok (threads d ! p)" "threads d ! p \<in> set (threads d)"
  using assms by (auto simp: counts_ok_def)

lemma counts_step:
  assumes "counts_ok d n" and "p < kProducers" and "threads d' = (threads d)[p := t]" and "thread_ok t"
    and "accepted d' + iters (threads d ! p) = accepted d + iters t" and "rejected d' = rejected d"
    and "producers_finished d' + ended (threads d ! p) = producers_finished d + ended t"
    and "n' + sent (threads d ! p) = n + sent t"
    and "unat (next_tx_id (engine d')) + taken (threads d ! p) = unat (next_tx_id (engine d)) + taken t"
  shows "counts_ok d' n'"
proof -
  note up = tally_update [OF thread_at(1) [OF assms(1,2)], where t = t]
  have "\<forall>t' \<in> set ((threads d)[p := t]). thread_ok t'"
    using assms(1,4) set_update_subset_insert [of "threads d" p t] by (auto simp: counts_ok_def)
  then show ?thesis
    using assms(1,3,5-9) up [of iters] up [of ended] up [of sent] up [of taken] by (auto simp: counts_ok_def)
qed

lemma writer_ok_step:
  assumes "writer_ok d q" and "counts_ok d n" and "p < kProducers" and "threads d ! p \<noteq> Finished" and "writer d' = writer d"
  shows "writer_ok d' q'"
  using assms(1,4,5) thread_at(3) [OF assms(2,3)] by (auto simp: writer_ok_def split: writer.splits)

text \<open>A thread that was not waiting and still is not, or whose slot is done, leaves the queue alone.\<close>

lemma queue_ok_other:
  assumes "queue_ok d q" and "\<And>i slot. threads d ! p = Waiting i \<Longrightarrow> slots d p = Some slot \<Longrightarrow> comp_done slot"
    and "threads d' = (threads d)[p := t]" and "slots d' = slots d" and "p < length (threads d)"
  shows "queue_ok d' q"
proof -
  have "queued_sale d' request p'" if "queued_sale d request p'" for request p'
  proof -
    have "p' \<noteq> p" using that assms(2) by (auto simp: queued_sale_def)
    then show ?thesis using that assms(3-5) by (simp add: queued_sale_def)
  qed
  then show ?thesis using assms(1) unfolding queue_ok_def by blast
qed

lemma waiting_ok_other:
  assumes "waiting_ok d q" and "\<And>i. t \<noteq> Waiting i" and "threads d' = (threads d)[p := t]" and "slots d' = slots d"
    and "p < length (threads d)"
  shows "waiting_ok d' q"
  using assms unfolding waiting_ok_def by (metis nth_list_update_eq nth_list_update_neq)

lemma ids_alloc:
  assumes "ids_ok newest ts keys" and "newest < tid" and "p < length ts"
  shows "ids_ok tid (ts[p := Holding i tid]) keys"
proof -
  have keys: "distinct keys" "\<And>i j. IdempotencyKey i j \<in> set keys \<Longrightarrow> i \<le> newest"
    and held: "\<And>p i tid. p < length ts \<Longrightarrow> ts ! p = Holding i tid \<Longrightarrow> tid \<le> newest \<and> IdempotencyKey tid tid \<notin> set keys"
    and once: "\<And>p i p' j tid. p < length ts \<Longrightarrow> p' < length ts \<Longrightarrow> ts ! p = Holding i tid \<Longrightarrow> ts ! p' = Holding j tid \<Longrightarrow> p' = p"
    using assms(1) unfolding ids_ok_def by blast+
  have new: "IdempotencyKey tid tid \<notin> set keys" using keys(2) assms(2) by (meson not_le)
  have fresh: "ts ! p' \<noteq> Holding j tid" if "p' < length ts" for p' j using held [OF that] assms(2) by (meson not_le)
  show ?thesis
    unfolding ids_ok_def
  proof (intro conjI allI impI)
    show "i \<le> tid" if "IdempotencyKey i j \<in> set keys" for i j
      using keys(2) [OF that] assms(2) by simp
    fix p' j tid' assume at: "p' < length (ts[p := Holding i tid])" "ts[p := Holding i tid] ! p' = Holding j tid'"
    show "tid' \<le> tid" using at held [of p' j tid'] assms(2) by (cases "p' = p") auto
    show "IdempotencyKey tid' tid' \<notin> set keys" using at held [of p' j tid'] new by (cases "p' = p") auto
  next
    show "p2 = p1"
      if "p1 < length (ts[p := Holding i tid])" "p2 < length (ts[p := Holding i tid])"
        "ts[p := Holding i tid] ! p1 = Holding i1 tid'" "ts[p := Holding i tid] ! p2 = Holding i2 tid'"
      for p1 i1 p2 i2 tid'
      using that once [of p1 p2 i1 tid' i2] fresh [of p1 i1] fresh [of p2 i2] assms(3)
      by (cases "p1 = p"; cases "p2 = p") auto
  qed (rule keys(1))
qed

lemma alloc_step:
  assumes "driver_rel std_hash wal os0 d f hs q" and "p < kProducers" and "threads d ! p = Looping i" and "i < kTxPerProducer"
  shows "\<exists>d'. thread_step weak p d = Some d' \<and> driver_rel std_hash wal os0 d' f hs q \<and>
    threads d' = (threads d)[p := Holding i (next_tx_id (engine d) + 1)]"
proof -
  let ?e = "engine d" and ?tid = "next_tx_id (engine d) + 1"
  let ?d = "d\<lparr>engine := ?e\<lparr>next_tx_id := ?tid\<rparr>, threads := (threads d)[p := Holding i ?tid]\<rparr>"
  have step: "thread_step weak p d = Some ?d"
    using assms(3,4) by (simp add: thread_step_def allocate_transaction_id_def)
  note r = driver_relD [OF assms(1)]
  note c = r(4)
  note at = thread_at [OF c assms(2)]
  have tid: "unat ?tid = unat (next_tx_id ?e) + 1"
    using counts_bound(2) [OF c] by (simp add: unat_word_ariths)
  have "counts_ok ?d (length hs + length q)"
    by (rule counts_step [OF c assms(2), where t = "Holding i ?tid"]) (use assms(3,4) tid in simp_all)
  moreover have "ids_ok ?tid ((threads d)[p := Holding i ?tid]) (used_keys hs q)"
    by (rule ids_alloc [OF r(7)]) (use tid at(1) in \<open>simp_all add: word_less_nat_alt\<close>)
  moreover have "queue_ok ?d q" by (rule queue_ok_other [OF r(5)]) (use assms(3) at(1) in simp_all)
  moreover have "waiting_ok ?d q" by (rule waiting_ok_other [OF r(6)]) (use at(1) in simp_all)
  moreover have "writer_ok ?d q" by (rule writer_ok_step [OF r(10) c assms(2)]) (use assms(3) in simp_all)
  moreover have "book_ok (engine ?d) (length hs)" "log_ok (engine ?d) f (length hs)"
    using r(8,9) by (simp_all add: book_ok_def log_ok_def)
  ultimately have "driver_rel std_hash wal os0 ?d f hs q"
    using r(1-3) unfolding driver_rel_def by simp
  with step show ?thesis by simp
qed

lemma ids_other:
  assumes "ids_ok newest ts keys" and "\<And>i tid. t \<noteq> Holding i tid"
  shows "ids_ok newest (ts[p := t]) keys"
proof -
  have "p' < length ts \<and> ts ! p' = Holding i tid" if "p' < length (ts[p := t])" "ts[p := t] ! p' = Holding i tid" for p' i tid
    using that assms(2) by (cases "p' = p") auto
  then show ?thesis using assms(1) unfolding ids_ok_def by blast
qed

lemma ids_submit:
  assumes "ids_ok newest ts keys" and "p < length ts" and "ts ! p = Holding i tid" and "\<And>i tid. t \<noteq> Holding i tid"
  shows "ids_ok newest (ts[p := t]) (keys @ [IdempotencyKey tid tid])"
proof -
  have keys: "distinct keys" "\<And>i j. IdempotencyKey i j \<in> set keys \<Longrightarrow> i \<le> newest"
    and held: "\<And>p i tid. p < length ts \<Longrightarrow> ts ! p = Holding i tid \<Longrightarrow> tid \<le> newest \<and> IdempotencyKey tid tid \<notin> set keys"
    and once: "\<And>p i p' j tid. p < length ts \<Longrightarrow> p' < length ts \<Longrightarrow> ts ! p = Holding i tid \<Longrightarrow> ts ! p' = Holding j tid \<Longrightarrow> p' = p"
    using assms(1) unfolding ids_ok_def by blast+
  have rest: "ts[p := t] ! p' = Holding j tid' \<Longrightarrow> p' < length ts \<Longrightarrow> p' \<noteq> p \<and> ts ! p' = Holding j tid'" for p' j tid'
    using assms(4) by (cases "p' = p") auto
  show ?thesis
    unfolding ids_ok_def
  proof (intro conjI allI impI)
    show "distinct (keys @ [IdempotencyKey tid tid])" using keys(1) held [OF assms(2,3)] by simp
    show "i \<le> newest" if "IdempotencyKey i j \<in> set (keys @ [IdempotencyKey tid tid])" for i j
      using that keys(2) held [OF assms(2,3)] by auto
  next
    fix p' j tid' assume at: "p' < length (ts[p := t])" "ts[p := t] ! p' = Holding j tid'"
    then have at': "p' < length ts" "p' \<noteq> p" "ts ! p' = Holding j tid'" using rest by simp_all
    then show "tid' \<le> newest" using held by blast
    have "tid' \<noteq> tid" using once [OF assms(2) at'(1) assms(3)] at'(2,3) by auto
    then show "IdempotencyKey tid' tid' \<notin> set (keys @ [IdempotencyKey tid tid])" using held [OF at'(1,3)] by simp
  next
    fix p1 i1 p2 i2 tid' assume "p1 < length (ts[p := t])" "p2 < length (ts[p := t])"
      "ts[p := t] ! p1 = Holding i1 tid'" "ts[p := t] ! p2 = Holding i2 tid'"
    then show "p2 = p1" using rest once [of p1 p2 i1 tid' i2] by simp
  qed
qed

text \<open>A thread that goes on to the head of its loop, or ends, without a call of the engine.\<close>

lemma moves_on:
  assumes "driver_rel std_hash wal os0 d f hs q" and "p < kProducers" and "thread_ok t"
    and "threads d ! p \<noteq> Finished" and "\<And>i. t \<noteq> Waiting i" and "\<And>i tid. t \<noteq> Holding i tid"
    and done_slot: "\<And>i slot. threads d ! p = Waiting i \<Longrightarrow> slots d p = Some slot \<Longrightarrow> comp_done slot"
    and "sent t = sent (threads d ! p)" and "taken t = taken (threads d ! p)"
    and "a + iters (threads d ! p) = accepted d + iters t"
    and "m + ended (threads d ! p) = producers_finished d + ended t"
  shows "driver_rel std_hash wal os0 (d\<lparr>accepted := a, producers_finished := m, threads := (threads d)[p := t]\<rparr>) f hs q"
    (is "driver_rel _ _ _ ?d _ _ _")
proof -
  note r = driver_relD [OF assms(1)]
  note at = thread_at [OF r(4) assms(2)]
  have "counts_ok ?d (length hs + length q)"
    by (rule counts_step [OF r(4) assms(2), where t = t]) (use assms(3,8-11) in simp_all)
  moreover have "ids_ok (next_tx_id (engine d)) ((threads d)[p := t]) (used_keys hs q)"
    by (rule ids_other [OF r(7) assms(6)])
  moreover have "queue_ok ?d q" by (rule queue_ok_other [OF r(5) done_slot]) (use at(1) in simp_all)
  moreover have "waiting_ok ?d q" by (rule waiting_ok_other [OF r(6) assms(5)]) (use at(1) in simp_all)
  moreover have "writer_ok ?d q" by (rule writer_ok_step [OF r(10,4) assms(2,4)]) simp
  ultimately show ?thesis using r(1-3,8,9) unfolding driver_rel_def by simp
qed

lemma finish_step:
  assumes "driver_rel std_hash wal os0 d f hs q" and "p < kProducers" and "threads d ! p = Looping i" and "\<not> i < kTxPerProducer"
  shows "\<exists>d'. thread_step weak p d = Some d' \<and> driver_rel std_hash wal os0 d' f hs q \<and>
    threads d' = (threads d)[p := Finished]"
proof -
  let ?d = "d\<lparr>accepted := accepted d, producers_finished := producers_finished d + 1, threads := (threads d)[p := Finished]\<rparr>"
  have "i = kTxPerProducer"
    using thread_at(2) [OF driver_relD(4) [OF assms(1)] assms(2)] assms(3,4) by simp
  then have "driver_rel std_hash wal os0 ?d f hs q" by (intro moves_on [OF assms(1,2)]) (simp_all add: assms(3))
  moreover have "thread_step weak p d = Some ?d" using assms(3,4) by (simp add: thread_step_def)
  ultimately show ?thesis by simp
qed

lemma answer_step:
  assumes "driver_rel std_hash wal os0 d f hs q" and "p < kProducers" and "threads d ! p = Waiting i"
    and "slots d p = Some slot0" and "comp_done slot0"
  shows "\<exists>d'. thread_step weak p d = Some d' \<and> driver_rel std_hash wal os0 d' f hs q \<and>
    threads d' = (threads d)[p := Looping (i + 1)]"
proof -
  let ?d = "d\<lparr>accepted := accepted d + 1, producers_finished := producers_finished d, threads := (threads d)[p := Looping (i + 1)]\<rparr>"
  note r = driver_relD [OF assms(1)]
  have "comp_error slot0 = ErrNone" using r(6) assms(2-5) by (auto simp: waiting_ok_def)
  then have "thread_step weak p d = Some ?d" using assms(3-5) by (simp add: thread_step_def)
  moreover have "driver_rel std_hash wal os0 ?d f hs q"
    by (intro moves_on [OF assms(1,2)]) (use thread_at(2) [OF r(4) assms(2)] assms(5) in \<open>auto simp: assms(3,4)\<close>)
  ultimately show ?thesis by simp
qed

lemma submit_frame: "submit weak tx p e cs os = Some (r, e', cs', os') \<Longrightarrow> \<exists>ring. e' = e\<lparr>requests := ring\<rparr>"
  by (auto simp: submit_def bind_eq_Some_conv split: prod.splits)

lemma queue_ok_push:
  assumes "queue_ok d q" and "p < length (threads d)" and "p < kProducers" and "\<And>i. threads d ! p \<noteq> Waiting i"
    and "threads d' = (threads d)[p := Waiting i]" and "slots d' = (slots d)(p \<mapsto> opened)" and "\<not> comp_done opened"
    and "req_tx request = (example_sale tid 10)\<lparr>created_at_ns := now\<rparr>" and "completion request = Some p"
  shows "queue_ok d' (q @ [request])"
proof -
  have keep: "queued_sale d' request' p'" "p' \<noteq> p" if "queued_sale d request' p'" for request' p'
  proof -
    show "p' \<noteq> p" using that assms(4) by (auto simp: queued_sale_def)
    then show "queued_sale d' request' p'" using that assms(5,6) by (simp add: queued_sale_def)
  qed
  have "queued_sale d' request p" using assms by (auto simp: queued_sale_def)
  moreover have "completion request \<notin> completion ` set q"
  proof
    assume "completion request \<in> completion ` set q"
    then obtain request' where req: "request' \<in> set q" "completion request' = Some p" using assms(9) by auto
    then obtain p' where p': "queued_sale d request' p'" using assms(1) unfolding queue_ok_def by blast
    then have "p' = p" using req(2) by (simp add: queued_sale_def)
    with keep(2) [OF p'] show False ..
  qed
  moreover have "\<forall>request' \<in> set q. \<exists>p'. queued_sale d' request' p'" using assms(1) keep(1) unfolding queue_ok_def by blast
  ultimately show ?thesis using assms(1) unfolding queue_ok_def by auto
qed

lemma waiting_ok_push:
  assumes "waiting_ok d q" and "p < length (threads d)" and "threads d' = (threads d)[p := Waiting i]"
    and "slots d' = (slots d)(p \<mapsto> opened)" and "\<not> comp_done opened" and "completion request = Some p"
  shows "waiting_ok d' (q @ [request])"
  unfolding waiting_ok_def
proof (intro allI impI)
  fix p' j assume at: "p' < kProducers" "threads d' ! p' = Waiting j"
  show "\<exists>slot. slots d' p' = Some slot \<and>
      (if comp_done slot then comp_error slot = ErrNone else Some p' \<in> completion ` set (q @ [request]))"
  proof (cases "p' = p")
    case True
    then show ?thesis using assms(4-6) by simp
  next
    case False
    then obtain slot1 where "slots d p' = Some slot1"
      "if comp_done slot1 then comp_error slot1 = ErrNone else Some p' \<in> completion ` set q"
      using at assms(1,3) unfolding waiting_ok_def by auto
    then show ?thesis using False assms(4) by (intro exI [of _ slot1]) (simp split: if_splits)
  qed
qed

lemma submit_step:
  assumes "driver_rel std_hash wal os0 d f hs q" and "p < kProducers" and "threads d ! p = Holding i tid"
  shows "\<exists>d' request. thread_step weak p d = Some d' \<and> driver_rel std_hash wal os0 d' f hs (q @ [request]) \<and>
    threads d' = (threads d)[p := Waiting i]"
proof -
  note r = driver_relD [OF assms(1)]
  note at = thread_at [OF r(4) assms(2)]
  let ?cs = "(slots d)(p \<mapsto> new_completion)" and ?slot = "new_completion\<lparr>comp_done := False\<rparr>"
  define tx where "tx = (example_sale tid 10)\<lparr>created_at_ns := fst (monotonic_now_ns (kernel d))\<rparr>"
  let ?request = "\<lparr>req_tx = tx, completion = Some p\<rparr>"
  have cs: "?cs p = Some new_completion" and room: "length hs + length q + 1024 + 1 < 2 ^ 63"
    using counts_bound(1) [OF r(4)] by simp_all
  have len: "length q < 1024" using queue_bound [OF r(5)] by (simp add: kProducers_def)
  obtain e' os' where sub: "submit weak (example_sale tid 10) p (engine d) ?cs (kernel d) =
      Some (ErrNone, e', ?cs(p \<mapsto> ?slot), os')" "os' = snd (monotonic_now_ns (kernel d))"
    "engine_ok std_hash (2 ^ 17) 1024 e' os' f hs (q @ [?request]) (length hs + length q + 1)"
    by (rule submit_cases [where weak = weak and cs = ?cs, OF r(1) cs room tx_def]) (use len in auto)
  obtain ring where e': "e' = (engine d)\<lparr>requests := ring\<rparr>" using submit_frame [OF sub(1)] by blast
  let ?d = "d\<lparr>engine := e', slots := ?cs(p \<mapsto> ?slot), kernel := os', threads := (threads d)[p := Waiting i]\<rparr>"
  have step: "thread_step weak p d = Some ?d" using assms(3) sub(1) by (simp add: thread_step_def driver_tx_eq has_value_def)
  have "counts_ok ?d (length hs + length (q @ [?request]))"
    by (rule counts_step [OF r(4) assms(2), where t = "Waiting i"]) (use assms(3) at(2) in \<open>simp_all add: e'\<close>)
  moreover have "ids_ok (next_tx_id (engine d)) ((threads d)[p := Waiting i]) (used_keys hs q @ [IdempotencyKey tid tid])"
    by (rule ids_submit [OF r(7) at(1) assms(3)]) simp
  moreover have "idempotency_key tx = IdempotencyKey tid tid" by (simp add: tx_def)
  moreover have "queue_ok ?d (q @ [?request])"
    by (rule queue_ok_push [OF r(5) at(1) assms(2), where tid = tid and opened = ?slot]) (use assms(3) in \<open>simp_all add: tx_def\<close>)
  moreover have "waiting_ok ?d (q @ [?request])"
    by (rule waiting_ok_push [OF r(6) at(1), where opened = ?slot]) simp_all
  moreover have "writer_ok ?d (q @ [?request])" by (rule writer_ok_step [OF r(10,4) assms(2)]) (use assms(3) in simp_all)
  moreover have "calm os0 os'" using calm_trans [OF r(3) calm_clock] by (simp add: sub(2))
  moreover have "book_ok e' (length hs)" "log_ok e' f (length hs)" "config e' = driver_config wal"
    using r(2,8,9) by (simp_all add: book_ok_def log_ok_def e')
  ultimately have "driver_rel std_hash wal os0 ?d f hs (q @ [?request])"
    using sub(3) unfolding driver_rel_def by (simp add: e')
  with step show ?thesis by (intro exI [of _ ?d] exI [of _ ?request]) simp
qed

section \<open>Steps of the writer\<close>

lemma all_ended: "tally ended ts \<ge> length ts \<Longrightarrow> t \<in> set ts \<Longrightarrow> t = Finished"
proof (induction ts)
  case (Cons u ts)
  have "ended u \<le> 1" by (cases u) simp_all
  moreover have "tally ended ts \<le> length ts"
    using tally_le [of ts ended 1] by (metis ended.elims le_numeral_extra(4) mult.right_neutral zero_le)
  ultimately have "ended u = 1" "length ts \<le> tally ended ts" using Cons.prems(1) by (simp_all add: tally_def)
  then show ?case using Cons by (cases u) auto
qed simp

lemma finished_queue:
  assumes "queue_ok d q" and "counts_ok d n" and "\<forall>t \<in> set (threads d). t = Finished"
  shows "q = []"
proof (rule ccontr)
  assume "q \<noteq> []"
  then obtain request p where "queued_sale d request p" using assms(1) unfolding queue_ok_def by (meson last_in_set)
  then have "p < kProducers" "\<exists>i. threads d ! p = Waiting i" by (auto simp: queued_sale_def)
  then show False using thread_at(3) [OF assms(2)] assms(3) by force
qed

lemma check_step:
  assumes "driver_rel std_hash wal os0 d f hs q" and "writer d = Checking"
  shows "\<exists>d'. writer_step std_hash d = Some d' \<and> driver_rel std_hash wal os0 d' f hs q \<and>
    threads d' = threads d \<and> slots d' = slots d \<and> writer d' = Draining (\<not> producers_finished d < kProducers) 0"
proof -
  note r = driver_relD [OF assms(1)]
  let ?d = "d\<lparr>writer := Draining (\<not> producers_finished d < kProducers) 0\<rparr>"
  have "\<forall>t \<in> set (threads d). t = Finished" if "\<not> producers_finished d < kProducers"
    using that r(4) all_ended [of "threads d"] by (simp add: counts_ok_def)
  then have "writer_ok ?d q" by (simp add: writer_ok_def)
  moreover have "counts_ok ?d (length hs + length q)" "queue_ok ?d q" "waiting_ok ?d q"
    using r(4-6) by (simp_all add: counts_ok_def queue_ok_def waiting_ok_def queued_sale_def)
  ultimately have "driver_rel std_hash wal os0 ?d f hs q" using r unfolding driver_rel_def by simp
  then show ?thesis using assms(2) by (simp add: writer_step_def)
qed

lemma leave_step:
  assumes "driver_rel std_hash wal os0 d f hs q" and "writer d = Draining final k"
    and "q = [] \<or> \<not> k < (if final then 2 ^ 20 else 1024)"
  shows "\<exists>d'. writer_step std_hash d = Some d' \<and> driver_rel std_hash wal os0 d' f hs q \<and>
    threads d' = threads d \<and> slots d' = slots d \<and> writer d' = (if final then Drained else Checking)"
proof -
  note r = driver_relD [OF assms(1)]
  let ?d = "d\<lparr>writer := (if final then Drained else Checking)\<rparr>"
  have fin: "final \<Longrightarrow> \<forall>t \<in> set (threads d). t = Finished" using r(10) assms(2) by (simp add: writer_ok_def)
  then have "writer_ok ?d q" using finished_queue [OF r(5,4)] by (simp add: writer_ok_def)
  moreover have "counts_ok ?d (length hs + length q)" "queue_ok ?d q" "waiting_ok ?d q"
    using r(4-6) by (simp_all add: counts_ok_def queue_ok_def waiting_ok_def queued_sale_def)
  ultimately have rel: "driver_rel std_hash wal os0 ?d f hs q" using r unfolding driver_rel_def by simp
  have "try_pop (requests (engine d)) = Some (None, requests (engine d))" if "q = []"
    using that r(1) ring.pop_empty by (auto simp: engine_ok_def)
  then have "writer_step std_hash d = Some ?d" using assms(2,3) by (auto simp: writer_step_def)
  with rel show ?thesis by simp
qed

lemma book_ok_commit:
  assumes "processed_since_publish e = of_nat (k mod 16)" and "publish_snapshot_every_n (config e) = 16"
    and "working (store e) = sold (Suc k) i"
    and "if k < 16 then published (store e) = empty_state else \<exists>i. published (store e) = sold (16 * (k div 16)) i"
  shows "book_ok (count_and_publish e) (Suc k)"
proof (cases "k mod 16 = 15")
  case True
  then have m: "Suc k mod 16 = 0" by (simp add: mod_Suc)
  moreover have "16 * (Suc k div 16) = Suc k" using m mult_div_mod_eq [of 16 "Suc k"] by simp
  moreover have "\<not> Suc k < 16" using True mod_less_eq_dividend [of k 16] by simp
  ultimately show ?thesis
    using assms(1-3) True by (auto simp: count_and_publish_def book_ok_def Let_def publish_snapshot_def)
next
  case False
  then have "Suc k mod 16 = Suc (k mod 16)" by (simp add: mod_Suc)
  moreover have "k \<noteq> 15" using False by auto
  ultimately have k: "Suc k mod 16 = Suc (k mod 16)" "Suc k div 16 = k div 16" "Suc k < 16 \<longleftrightarrow> k < 16"
    by (auto simp: div_Suc)
  have "(of_nat (Suc (k mod 16)) :: u64) < 16"
    using False mod_less_divisor [of 16 k] by (simp add: word_less_nat_alt unat_of_nat del: of_nat_Suc)
  then have "\<not> 16 \<le> (of_nat (k mod 16) + 1 :: u64)" by (simp add: not_le add.commute)
  then show ?thesis
    using assms k by (auto simp: count_and_publish_def book_ok_def Let_def)
qed

lemma acked_slots:
  assumes "queue_ok d (request # q)" and "waiting_ok d (request # q)" and "queued_sale d request p"
    and "threads d' = threads d" and "slots d' = acked request ErrNone (slots d)"
  shows "queue_ok d' q" "waiting_ok d' q"
proof -
  have p: "completion request = Some p" using assms(3) by (simp add: queued_sale_def)
  have slots: "slots d' = (slots d)(p \<mapsto> \<lparr>comp_done = True, comp_error = ErrNone\<rparr>)"
    by (simp add: assms(5) acked_def p)
  have other: "Some p \<notin> completion ` set q" using assms(1) p by (auto simp: queue_ok_def image_iff)
  show "queue_ok d' q"
    unfolding queue_ok_def
  proof (intro conjI ballI)
    fix request' assume req: "request' \<in> set q"
    then obtain p' where p': "queued_sale d request' p'" using assms(1) by (auto simp: queue_ok_def)
    then have "p' \<noteq> p" using other req by (force simp: queued_sale_def)
    with p' have "queued_sale d' request' p'" by (simp add: queued_sale_def assms(4) slots)
    then show "\<exists>p'. queued_sale d' request' p'" ..
  qed (use assms(1) in \<open>simp add: queue_ok_def\<close>)
  show "waiting_ok d' q"
    unfolding waiting_ok_def
  proof (intro allI impI)
    fix p' j assume at: "p' < kProducers" "threads d' ! p' = Waiting j"
    show "\<exists>slot. slots d' p' = Some slot \<and>
        (if comp_done slot then comp_error slot = ErrNone else Some p' \<in> completion ` set q)"
    proof (cases "p' = p")
      case False
      obtain slot1 where "slots d p' = Some slot1"
        "if comp_done slot1 then comp_error slot1 = ErrNone else Some p' \<in> completion ` set (request # q)"
        using at assms(2,4) unfolding waiting_ok_def by auto
      then show ?thesis using False p by (intro exI [of _ slot1]) (auto simp: slots)
    qed (simp add: slots)
  qed
qed

lemma count_and_publish_fields [simp]:
  "idempotency (count_and_publish e) = idempotency e" "requests (count_and_publish e) = requests e"
  "wal_writer (count_and_publish e) = wal_writer e" "config (count_and_publish e) = config e"
  "next_tx_id (count_and_publish e) = next_tx_id e"
  by (simp_all add: count_and_publish_def Let_def)

lemma driver_config_fields [simp]:
  "wal_path (driver_config wal) = wal" "sync_mode (driver_config wal) = SyncEveryWrite"
  "ring_buffer_capacity (driver_config wal) = 1024" "publish_snapshot_every_n (driver_config wal) = 16"
  "idempotency_capacity (driver_config wal) = 2 ^ 17"
  by (simp_all add: driver_config_def default_config_def)

text \<open>The request at the head of the queue is a sale the engine admits.\<close>

lemma head_admitted:
  assumes "driver_rel std_hash wal os0 d f hs (request # q)"
  defines "tx \<equiv> req_tx request"
  obtains p tid i where "queued_sale d request p" "tx_legs tx = tx_legs (example_sale tid 10)" "wf_tx tx"
    "valid_request (slots d) request" "working (store (engine d)) = sold (length hs) i"
    "verdict (idempotency_key tx \<in> set (recent (2 ^ 17) hs)) tx (working (store (engine d))) = ErrNone"
proof -
  note r = driver_relD [OF assms(1)]
  obtain p where p: "queued_sale d request p" using r(5) by (auto simp: queue_ok_def)
  then obtain tid now where "tx = (example_sale tid 10)\<lparr>created_at_ns := now\<rparr>"
    unfolding queued_sale_def tx_def by blast
  moreover have "wf_tx (example_sale tid 10)" by simp
  ultimately have tx: "tx_legs tx = tx_legs (example_sale tid 10)" "wf_tx tx"
    by (simp_all add: wf_tx_def tx_legs_def)
  have val: "valid_request (slots d) request" using p tx(2) by (auto simp: queued_sale_def valid_request_def tx_def)
  obtain i where book: "working (store (engine d)) = sold (length hs) i" using r(8) by (auto simp: book_ok_def)
  have "idempotency_key tx \<notin> set hs" using r(7) by (simp add: ids_ok_def tx_def)
  then have "idempotency_key tx \<notin> set (recent (2 ^ 17) hs)"
    using in_set_takeD [of "idempotency_key tx" "2 ^ 17" "rev (remdups hs)"] by (auto simp: recent_def)
  moreover have "length hs < 5000" using counts_bound(1) [OF r(4)] by simp
  ultimately have "verdict (idempotency_key tx \<in> set (recent (2 ^ 17) hs)) tx (working (store (engine d))) = ErrNone"
    using sale_admitted [OF tx(1)] by (simp add: verdict_ok book)
  then show thesis using that [OF p tx val book] by blast
qed

lemma pop_step:
  assumes "driver_rel std_hash wal os0 d f hs (request # q)" and "reliable 321 os0"
    and "writer d = Draining final k" and "k < (if final then 2 ^ 20 else 1024)"
  shows "\<exists>d' f'. writer_step std_hash d = Some d' \<and>
    driver_rel std_hash wal os0 d' f' (hs @ [idempotency_key (req_tx request)]) q \<and> threads d' = threads d"
proof -
  note r = driver_relD [OF assms(1)]
  let ?e = "engine d" and ?tx = "req_tx request" and ?key = "idempotency_key (req_tx request)"
  obtain p tid i where p: "queued_sale d request p" and tx: "tx_legs ?tx = tx_legs (example_sale tid 10)" "wf_tx ?tx"
    and val: "valid_request (slots d) request" and book: "working (store ?e) = sold (length hs) i"
    and adm: "verdict (?key \<in> set (recent (2 ^ 17) hs)) ?tx (working (store ?e)) = ErrNone"
    by (rule head_admitted [OF assms(1)])
  obtain ring' where pop: "try_pop (requests ?e) = Some (Some request, ring')" "ring_rel 1024 ring' q (length hs + length (request # q))"
  proof -
    have "ring_rel 1024 (requests ?e) (request # q) (length hs + length (request # q))" using r(1) by (simp add: engine_ok_def)
    from ring.pop_item [OF this] show thesis using that by blast
  qed
  let ?e1 = "?e\<lparr>requests := ring'\<rparr>"
  have ok1: "engine_ok std_hash (2 ^ 17) 1024 ?e1 (kernel d) f hs q (length hs + length (request # q))"
    using r(1) pop(2) by (simp add: engine_ok_def)
  have v: "verdict (?key \<in> set (recent (2 ^ 17) hs)) ?tx (working (store ?e1)) = ErrNone" using adm by simp
  have rel: "reliable 321 (kernel d)" using calm_facts(1) [OF r(3) assms(2)] .
  obtain cache w' os' f' where c: "process_request std_hash request ?e1 (slots d) (kernel d) =
       Some (count_and_publish (?e1\<lparr>idempotency := cache, wal_writer := w',
         store := (store ?e1)\<lparr>working := snd (apply_tx ?tx (working (store ?e1)))\<rparr>\<rparr>), acked request ErrNone (slots d), os')"
    "cache_rel std_hash (2 ^ 17) cache (recent (2 ^ 17) (hs @ [?key]))"
    "writer_on w' os' (wal_path (config ?e1)) f'" "calm (kernel d) os'"
    "append_effect ?tx (fst (monotonic_now_ns (kernel d))) (wal_writer ?e1) f ErrNone w' f'"
    by (rule process_request_commits [OF ok1 val rel v])
  define e2 where "e2 = ?e1\<lparr>idempotency := cache, wal_writer := w',
         store := (store ?e1)\<lparr>working := snd (apply_tx ?tx (working (store ?e1)))\<rparr>\<rparr>"
  have e2: "idempotency e2 = cache" "wal_writer e2 = w'" "requests e2 = ring'" "config e2 = driver_config wal"
    "next_tx_id e2 = next_tx_id ?e" "processed_since_publish e2 = processed_since_publish ?e"
    "published (store e2) = published (store ?e)" "working (store e2) = sold (Suc (length hs)) (max i (tx_id ?tx))"
    using r(2) apply_sale [OF tx(1)] by (simp_all add: e2_def book)
  let ?d = "d\<lparr>engine := count_and_publish e2, slots := acked request ErrNone (slots d), kernel := os', writer := Draining final (k + 1)\<rparr>"
  have "writer_step std_hash d = Some ?d"
    using assms(3,4) pop(1) c(1) [folded e2_def] by (simp add: writer_step_def)
  moreover have "book_ok (count_and_publish e2) (length (hs @ [?key]))"
    using book_ok_commit [of e2 "length hs"] r(8) e2(4,6-8) by (simp add: book_ok_def)
  moreover have "log_ok (count_and_publish e2) f' (length (hs @ [?key]))"
    using r(9) c(5) record_length_bound [OF tx(2), of "fst (monotonic_now_ns (kernel d))"]
    by (auto simp: log_ok_def e2(2) append_effect_def)
  moreover have "engine_ok std_hash (2 ^ 17) 1024 (count_and_publish e2) os' f' (hs @ [?key]) q
      (length (hs @ [?key]) + length q)"
    using c(2,3,5) pop(2) ok1 r(2) count_and_publish_bound [of e2] by (simp add: engine_ok_def e2 append_effect_def)
  moreover have "queue_ok ?d q" "waiting_ok ?d q"
    by (rule acked_slots [OF r(5,6) p]; simp)+
  moreover have "counts_ok ?d (length (hs @ [?key]) + length q)" using r(4) by (simp add: counts_ok_def e2(5))
  moreover have "writer_ok ?d q" using r(10) assms(3) by (simp add: writer_ok_def)
  moreover have "ids_ok (next_tx_id e2) (threads d) (used_keys (hs @ [?key]) q)" using r(7) by (simp add: e2(5))
  ultimately have "driver_rel std_hash wal os0 ?d f' (hs @ [?key]) q" "writer_step std_hash d = Some ?d"
    using calm_trans [OF r(3) c(4)] e2(4) unfolding driver_rel_def by simp_all
  then show ?thesis by (intro exI [of _ ?d] exI [of _ f']) simp
qed

section \<open>Runs\<close>

text \<open>The work left: every step that is not a spin of a waiting thread makes it smaller.\<close>

fun work :: "thread \<Rightarrow> nat" where
  "work (Looping i) = 4 * (kTxPerProducer - i) + 1"
| "work (Holding i tid) = 4 * (kTxPerProducer - i)"
| "work (Waiting i) = 4 * (kTxPerProducer - i) - 2"
| "work Finished = 0"

definition todo :: "driver \<Rightarrow> PendingRequest list \<Rightarrow> nat" where
  "todo d q = tally work (threads d) + length q"

definition spins :: "driver \<Rightarrow> nat \<Rightarrow> bool" where
  "spins d p \<longleftrightarrow> threads d ! p = Finished \<or>
     (\<exists>i slot. threads d ! p = Waiting i \<and> slots d p = Some slot \<and> \<not> comp_done slot)"

lemma work_update: "p < length (threads d) \<Longrightarrow> threads d' = (threads d)[p := t] \<Longrightarrow>
    work t + k < work (threads d ! p) \<Longrightarrow> length q' \<le> length q + k \<Longrightarrow> todo d' q' < todo d q"
  using tally_update [of p "threads d" work t] by (simp add: todo_def)

lemma thread_step_cases:
  assumes "driver_rel std_hash wal os0 d f hs q" and "p < kProducers"
  shows "\<exists>d' q'. thread_step weak p d = Some d' \<and> driver_rel std_hash wal os0 d' f hs q' \<and>
    (if spins d p then d' = d else todo d' q' < todo d q)"
proof -
  note r = driver_relD [OF assms(1)]
  note at = thread_at [OF r(4) assms(2)]
  show ?thesis
  proof (cases "threads d ! p")
    case (Looping i)
    have "\<not> spins d p" by (simp add: spins_def Looping)
    show ?thesis
    proof (cases "i < kTxPerProducer")
      case True
      from alloc_step [OF assms Looping True, of weak] obtain d' where
        st: "thread_step weak p d = Some d'" "driver_rel std_hash wal os0 d' f hs q"
        "threads d' = (threads d)[p := Holding i (next_tx_id (engine d) + 1)]" by blast
      then have "todo d' q < todo d q"
        using work_update [OF at(1) st(3), of 0 q q] Looping by simp
      then show ?thesis using st(1,2) \<open>\<not> spins d p\<close> by auto
    next
      case False
      from finish_step [OF assms Looping False, of weak] obtain d' where
        st: "thread_step weak p d = Some d'" "driver_rel std_hash wal os0 d' f hs q" "threads d' = (threads d)[p := Finished]"
        by blast
      then have "todo d' q < todo d q"
        using work_update [OF at(1) st(3), of 0 q q] Looping by simp
      then show ?thesis using st(1,2) \<open>\<not> spins d p\<close> by auto
    qed
  next
    case (Holding i tid)
    have "\<not> spins d p" by (simp add: spins_def Holding)
    from submit_step [OF assms Holding, of weak] obtain d' request where
      st: "thread_step weak p d = Some d'" "driver_rel std_hash wal os0 d' f hs (q @ [request])"
      "threads d' = (threads d)[p := Waiting i]" by blast
    then have "todo d' (q @ [request]) < todo d q"
      using work_update [OF at(1) st(3), of 1 "q @ [request]" q] Holding at(2) by simp
    then show ?thesis using st(1,2) \<open>\<not> spins d p\<close> by auto
  next
    case (Waiting i)
    obtain slot0 where slot0: "slots d p = Some slot0" using r(6) assms(2) Waiting by (auto simp: waiting_ok_def)
    show ?thesis
    proof (cases "comp_done slot0")
      case True
      then have "\<not> spins d p" by (simp add: spins_def Waiting slot0)
      from answer_step [OF assms Waiting slot0 True, of weak] obtain d' where
        st: "thread_step weak p d = Some d'" "driver_rel std_hash wal os0 d' f hs q"
        "threads d' = (threads d)[p := Looping (i + 1)]" by blast
      then have "todo d' q < todo d q"
        using work_update [OF at(1) st(3), of 0 q q] Waiting at(2) by simp
      then show ?thesis using st(1,2) \<open>\<not> spins d p\<close> by auto
    next
      case False
      then show ?thesis using assms(1) Waiting slot0 by (intro exI [of _ d] exI [of _ q]) (simp add: thread_step_def spins_def)
    qed
  next
    case Finished
    then show ?thesis using assms(1) by (intro exI [of _ d] exI [of _ q]) (simp add: thread_step_def spins_def)
  qed
qed

lemma writer_step_total:
  assumes "driver_rel std_hash wal os0 d f hs q" and "reliable 321 os0"
  shows "\<exists>d' f' hs' q'. writer_step std_hash d = Some d' \<and> driver_rel std_hash wal os0 d' f' hs' q'"
proof (cases "writer d")
  case Checking
  then show ?thesis using check_step [OF assms(1)] by blast
next
  case (Draining final k)
  then show ?thesis
    using leave_step [OF assms(1) Draining] pop_step [OF _ assms(2) Draining] assms(1) by (cases q) blast+
next
  case Drained
  then show ?thesis using assms(1) by (auto simp: writer_step_def)
qed

lemma driver_reachable:
  assumes "(driver_step std_hash)\<^sup>*\<^sup>* d0 d" and "driver_rel std_hash wal os0 d0 f0 hs0 q0" and "reliable 321 os0"
  shows "\<exists>f hs q. driver_rel std_hash wal os0 d f hs q"
  using assms(1)
proof (induction rule: rtranclp_induct)
  case base
  then show ?case using assms(2) by blast
next
  case (step d d')
  then obtain f hs q where rel: "driver_rel std_hash wal os0 d f hs q" by blast
  from step.hyps(2) show ?case
  proof cases
    case (producer_moves p weak)
    then show ?thesis using thread_step_cases [OF rel, of p weak] by auto
  next
    case writer_moves
    then show ?thesis using writer_step_total [OF rel assms(3)] by auto
  qed
qed

text \<open>From every such state the driver can finish: a thread that does not spin moves; if all spin, the
  writer takes a request, and with an empty queue all threads have ended and the writer leaves.\<close>

lemma writer_takes_one:
  assumes "driver_rel std_hash wal os0 d f hs q" and "reliable 321 os0" and "q \<noteq> []"
  shows "\<exists>d' f' hs' q'. (driver_step std_hash)\<^sup>*\<^sup>* d d' \<and> driver_rel std_hash wal os0 d' f' hs' q' \<and> todo d' q' < todo d q"
proof -
  obtain request q' where q: "q = request # q'" using assms(3) by (cases q) auto
  have take: "\<exists>d' f' hs' q'. driver_step std_hash d1 d' \<and> driver_rel std_hash wal os0 d' f' hs' q' \<and> todo d' q' < todo d1 q"
    if "driver_rel std_hash wal os0 d1 f hs q" "writer d1 = Draining final k" "k < (if final then 2 ^ 20 else 1024)" for d1 final k
    using pop_step [OF that(1) [unfolded q] assms(2) that(2,3)] by (fastforce simp: todo_def q intro: writer_moves)
  have check: "\<exists>d' f' hs' q'. (driver_step std_hash)\<^sup>*\<^sup>* d1 d' \<and> driver_rel std_hash wal os0 d' f' hs' q' \<and> todo d' q' < todo d1 q"
    if rel: "driver_rel std_hash wal os0 d1 f hs q" "writer d1 = Checking" for d1
  proof -
    obtain d2 where d2: "driver_step std_hash d1 d2" "driver_rel std_hash wal os0 d2 f hs q" "threads d2 = threads d1"
      "writer d2 = Draining (\<not> producers_finished d1 < kProducers) 0"
      using check_step [OF rel] writer_moves by blast
    have "todo d2 q = todo d1 q" using d2(3) by (simp add: todo_def)
    moreover have "(0 :: u64) < (if \<not> producers_finished d1 < kProducers then 2 ^ 20 else 1024)" by simp
    from take [OF d2(2,4) this] obtain d' f' hs' q' where "driver_step std_hash d2 d'" "driver_rel std_hash wal os0 d' f' hs' q'"
      "todo d' q' < todo d2 q" by blast
    ultimately show ?thesis using d2(1) by (metis converse_rtranclp_into_rtranclp r_into_rtranclp)
  qed
  show ?thesis
  proof (cases "writer d")
    case Checking
    then show ?thesis using check assms(1) by blast
  next
    case (Draining final k)
    show ?thesis
    proof (cases "k < (if final then 2 ^ 20 else 1024)")
      case True
      then show ?thesis using take [OF assms(1) Draining] by blast
    next
      case False
      note r = driver_relD [OF assms(1)]
      have "\<not> final" using finished_queue [OF r(5,4)] r(10) Draining assms(3) by (auto simp: writer_ok_def)
      then obtain d2 where d2: "driver_step std_hash d d2" "driver_rel std_hash wal os0 d2 f hs q" "threads d2 = threads d"
        "writer d2 = Checking"
        using leave_step [OF assms(1) Draining] False writer_moves by auto
      have "todo d2 q = todo d q" using d2(3) by (simp add: todo_def)
      then show ?thesis using check [OF d2(2,4)] d2(1) converse_rtranclp_into_rtranclp [of "driver_step std_hash"] by metis
    qed
  next
    case Drained
    then show ?thesis using driver_relD(10) [OF assms(1)] assms(3) by (simp add: writer_ok_def)
  qed
qed

lemma writer_leaves:
  assumes "driver_rel std_hash wal os0 d f hs []" and "\<forall>t \<in> set (threads d). t = Finished"
  shows "\<exists>d'. (driver_step std_hash)\<^sup>*\<^sup>* d d' \<and> writer d' = Drained"
proof -
  have leave: "\<exists>d'. driver_step std_hash d1 d' \<and> writer d' = Drained"
    if "driver_rel std_hash wal os0 d1 f hs []" "writer d1 = Draining True k" for d1 k
    using leave_step [OF that] writer_moves by auto
  have check: "\<exists>d'. (driver_step std_hash)\<^sup>*\<^sup>* d1 d' \<and> writer d' = Drained"
    if rel: "driver_rel std_hash wal os0 d1 f hs []" "writer d1 = Checking" and fin: "\<forall>t \<in> set (threads d1). t = Finished" for d1
  proof -
    have c: "counts_ok d1 (length hs)" using driver_relD(4) [OF rel(1)] by simp
    have "threads d1 = replicate kProducers Finished"
      using c fin replicate_eqI [of "threads d1" kProducers Finished] by (simp add: counts_ok_def)
    then have "tally ended (threads d1) = kProducers" by (simp add: tally_def sum_list_replicate)
    then have "\<not> producers_finished d1 < kProducers" using c by (simp add: counts_ok_def)
    then obtain d2 where "driver_step std_hash d1 d2" "driver_rel std_hash wal os0 d2 f hs []" "writer d2 = Draining True 0"
      using check_step [OF rel] writer_moves by auto
    then show ?thesis using leave converse_rtranclp_into_rtranclp [of "driver_step std_hash" d1] by blast
  qed
  show ?thesis
  proof (cases "writer d")
    case Checking
    then show ?thesis using check [OF assms(1)] assms(2) by blast
  next
    case (Draining final k)
    show ?thesis
    proof (cases final)
      case True
      then show ?thesis using leave [OF assms(1), of k] Draining by auto
    next
      case False
      then obtain d2 where "driver_step std_hash d d2" "driver_rel std_hash wal os0 d2 f hs []" "threads d2 = threads d" "writer d2 = Checking"
        using leave_step [OF assms(1) Draining] writer_moves by auto
      then show ?thesis using check assms(2) converse_rtranclp_into_rtranclp [of "driver_step std_hash" d] by metis
    qed
  qed blast
qed

lemma driver_can_finish:
  assumes "driver_rel std_hash wal os0 d f hs q" and "reliable 321 os0"
  shows "\<exists>d'. (driver_step std_hash)\<^sup>*\<^sup>* d d' \<and> writer d' = Drained"
  using assms(1)
proof (induction "todo d q" arbitrary: d f hs q rule: less_induct)
  case less
  note r = driver_relD [OF less.prems]
  show ?case
  proof (cases "\<exists>p < kProducers. \<not> spins d p")
    case True
    then obtain p where p: "p < kProducers" "\<not> spins d p" by blast
    then obtain d' q' where d': "driver_step std_hash d d'" "driver_rel std_hash wal os0 d' f hs q'" "todo d' q' < todo d q"
      using thread_step_cases [OF less.prems p(1), of 0] producer_moves by auto blast
    then show ?thesis using less.hyps converse_rtranclp_into_rtranclp [of "driver_step std_hash" d] by blast
  next
    case False
    show ?thesis
    proof (cases "q = []")
      case True
      have "threads d ! p = Finished" if "p < kProducers" for p
        using False r(6) that True unfolding spins_def waiting_ok_def by fastforce
      then have "\<forall>t \<in> set (threads d). t = Finished" using r(4) by (auto simp: counts_ok_def in_set_conv_nth)
      then show ?thesis using writer_leaves less.prems True by blast
    next
      case False
      then obtain d' f' hs' q' where "(driver_step std_hash)\<^sup>*\<^sup>* d d'" "driver_rel std_hash wal os0 d' f' hs' q'" "todo d' q' < todo d q"
        using writer_takes_one [OF less.prems assms(2)] by blast
      then show ?thesis using less.hyps rtranclp_trans [of "driver_step std_hash" d d'] by blast
    qed
  qed
qed

section \<open>Start and end of the program\<close>

lemma driver_config_ok: "config_ok (driver_config wal)"
  unfolding config_ok_def by (intro conjI exI [of _ 10]) simp_all

lemma driver_setup_boot:
  assumes "engine_boot (driver_config wal) demo_accounts os = Some (e, os1)"
    and "write_snapshot pad snap (working (store e)) 0 os1 = Some (r, os2)"
  shows "driver_setup pad wal snap os = Some (Inr e, os2)"
proof -
  obtain e0 where "new_engine (driver_config wal) = Some e0"
    using assms(1) by (auto simp: engine_boot_def bind_eq_Some_conv)
  then show ?thesis
    using assms unfolding driver_setup_def engine_boot_def state_working_copy_def demo_accounts_def kCash_def kRevenue_def
    by (auto simp: split: prod.splits if_splits)
qed

text \<open>The state in which the threads start.\<close>

lemma driver_start_rel:
  assumes "wf_fs os" and "fresh_fds os" and "reliable 566 os" and "names os wal = None"
    and "wal \<noteq> snap" and "wal \<noteq> snap @ ''.tmp''"
  obtains e os0 f where "driver_setup pad wal snap os = Some (Inr e, os0)"
    "driver_rel std_hash wal os0 (driver_start e os0) f [] []" "wf_fs os0" "fresh_fds os0" "reliable 566 os0"
proof -
  have "names os (wal_path (driver_config wal)) = None" using assms(4) by simp
  from engine_boot_new_log [OF driver_config_ok assms(2,3) this, of demo_accounts]
  obtain e os1 where boot: "engine_boot (driver_config wal) demo_accounts os = Some (e, os1)" "later os os1" "fresh_fds os1"
    "working (store e) = fold (\<lambda>a s. snd (add_account a s)) demo_accounts empty_state"
    "names os1 = (names os)(wal \<mapsto> next_inode os)" "next_inode os1 = next_inode os + 1"
    "inodes os1 = (inodes os)(next_inode os \<mapsto> \<lparr>contents = [], stable = []\<rparr>)"
    by auto
  have wf1: "wf_fs os1" by (rule wf_fs_create [OF assms(1) boot(5,7,6)])
  obtain r os2 where snap: "write_snapshot pad snap (working (store e)) 0 os1 = Some (r, os2)" "fds os2 = fds os1" "later os1 os2"
    "map_option contents (path_file os2 wal) = map_option contents (path_file os1 wal)"
    using wf1
  proof (cases rule: write_snapshot_cases [where pad = pad and path = snap and s = "working (store e)" and off = 0])
    case (failed r os')
    then show thesis using that [of r os'] assms(6) by simp
  next
    case (written os')
    then show thesis using that [of ErrNone os'] assms(5,6) by simp
  qed
  note dirs = write_snapshot_dirs [OF snap(1) wf1]
  obtain f where ok: "engine_ok std_hash (2 ^ 17) 1024 e os1 f [] [] 0" "config e = driver_config wal"
    "published (store e) = empty_state" "contents f = []"
    by (rule engine_boot_ok [OF boot(1) driver_config_ok, of std_hash]) (use assms(4) that in \<open>auto simp: path_file_def\<close>)
  have "path_file os1 wal = Some f" using ok(1,2) writer_on_path_file by (fastforce simp: engine_ok_def)
  then obtain f2 where f2: "path_file os2 wal = Some f2" "contents f2 = []" using snap(4) ok(4) by auto
  have "writer_on (wal_writer e) os2 wal f2"
    using ok(1,2) f2(1) snap(2) dirs(2) [OF assms(5,6)]
    by (auto simp: engine_ok_def writer_on_def open_on_def path_file_def)
  then have ok2: "engine_ok std_hash (2 ^ 17) 1024 e os2 f2 [] [] 0" using ok(1,2) by (simp add: engine_ok_def)
  note fields = engine_boot_fields [OF boot(1)]
  have "w_fd new_writer < 0" by (simp add: new_writer_def ufd_new_def)
  from fields(3) this obtain f0 where "w_offset (wal_writer e) = of_nat (length (contents f0))"
    "path_file os (wal_path (driver_config wal)) = Some f0 \<or>
     names os (wal_path (driver_config wal)) = None \<and> f0 = \<lparr>contents = [], stable = []\<rparr>"
    by (rule writer_open_success)
  then have off: "w_offset (wal_writer e) = 0" using assms(4) by (auto simp: path_file_def)
  have "working (store e) = sold 0 0"
    by (simp add: boot(4) demo_accounts_def sold_def add_account_def empty_state_def)
  then have "book_ok e 0" using ok(3) fields(2) by (auto simp: book_ok_def)
  then have "driver_rel std_hash wal os2 (driver_start e os2) f2 [] []"
    using ok2 ok(2) fields(1) off f2(2)
    by (simp add: driver_rel_def driver_start_def counts_ok_def tally_def sum_list_replicate queue_ok_def waiting_ok_def
        ids_ok_def log_ok_def writer_ok_def)
  moreover have "fresh_fds os2" using fresh_fds_later [OF boot(3) snap(3,2)] .
  moreover have "reliable 566 os2" using later_reliable [OF later_trans [OF boot(2) snap(3)] assms(3)] .
  ultimately show thesis using that [OF driver_setup_boot [OF boot(1) snap(1)]] dirs(1) by blast
qed

lemma sold_facts:
  "wf_named (sold k i)" "length (accounts (sold k i)) = 2" "validate_trial_balance (sold k i) = ErrNone"
  "find_account (sold k i) 1 = Some \<lparr>acc_id = 1, acc_type = Asset, balance = - of_nat (10 * k), overdraft_limit = 50000\<rparr>"
  "find_account (sold k i) 2 = Some \<lparr>acc_id = 2, acc_type = Revenue, balance = - of_nat (10 * k), overdraft_limit = 0\<rparr>"
  by (simp_all add: sold_def wf_named_def wf_state_def find_account_def validate_trial_balance_eq ledger_sign_def
      is_debit_normal_def)

lemma driver_report_outcome:
  assumes "driver_rel std_hash wal os0 d f hs q" and "writer d = Drained"
    and "wf_fs os0" and "fresh_fds os0" and "reliable 566 os0" and "wal \<noteq> snap" and "wal \<noteq> snap @ ''.tmp''"
  shows "driver_report pad wal snap d = Some \<lparr>shown_counters = (2000, 0), shown_balances = (-20000, -20000),
    shown_recovery = Inr (-20000, -20000)\<rparr>"
proof -
  note r = driver_relD [OF assms(1)]
  have fin: "\<forall>t \<in> set (threads d). t = Finished" and q: "q = []" using r(10) assms(2) by (simp_all add: writer_ok_def)
  have "threads d = replicate kProducers Finished"
    using r(4) fin replicate_eqI [of "threads d" kProducers Finished] by (simp add: counts_ok_def)
  then have counts: "accepted d = 2000" "rejected d = 0" "length hs = 2000"
    using r(4) q by (simp_all add: counts_ok_def tally_def sum_list_replicate kProducers_def kTxPerProducer_def)
  obtain i where pub: "published (store (engine d)) = sold 2000 i" using r(8) counts(3) by (auto simp: book_ok_def)
  let ?off = "w_offset (wal_writer (engine d))"
  have off: "?off = of_nat (length (contents f))" and len: "length (contents f) \<le> 642000"
    using r(9) counts(3) by (simp_all add: log_ok_def)
  have un: "unat ?off = length (contents f)" using off len by (simp add: unat_of_nat)
  have wal: "path_file (kernel d) wal = Some f" using r(1,2) writer_on_path_file by (fastforce simp: engine_ok_def)
  note calm = calm_facts [OF r(3)]
  have wf: "wf_fs (kernel d)" "fresh_fds (kernel d)" "reliable 566 (kernel d)" using calm assms(3-5) by blast+
  obtain os1 where snap: "write_snapshot pad snap (sold 2000 i) ?off (kernel d) = Some (ErrNone, os1)" "fds os1 = fds (kernel d)"
    "later (kernel d) os1" "path_file os1 snap = Some \<lparr>contents = snapshot_bytes pad (sold 2000 i) ?off, stable = snapshot_bytes pad (sold 2000 i) ?off\<rparr>"
    "map_option contents (path_file os1 wal) = map_option contents (path_file (kernel d) wal)"
    using wf(1)
  proof (cases rule: write_snapshot_cases [where pad = pad and path = snap and s = "sold 2000 i" and off = ?off])
    case (failed r os')
    moreover have "reliable (length (snapshot_bytes pad (sold 2000 i) ?off)) (kernel d)"
      using reliable_mono [OF wf(3)] by (simp add: length_snapshot_bytes sold_facts)
    ultimately show thesis using wf(2) by simp
  next
    case (written os')
    then show thesis using that [of os'] assms(6,7) by simp
  qed
  obtain f1 where f1: "path_file os1 wal = Some f1" "contents f1 = contents f @ log_bytes [] @ []"
    using snap(5) wal by (auto simp: log_bytes_def)
  have rel: "reliable (516 + 25 * length (accounts (sold 2000 i))) os1" "fresh_fds os1"
    using later_reliable [OF snap(3) wf(3)] fresh_fds_later [OF wf(2) snap(3,2)] by (simp_all add: sold_facts)
  obtain os2 where "recover wal snap os1 = Some (checked_state (fold replay_tx (map fst []) (sold 2000 i)) (?off + of_nat (length (log_bytes []))), os2)"
    by (rule recover_crashed_log [OF snap(4) _ sold_facts(1) _ f1 un [symmetric] _ _ _ rel])
      (use len f1(2) in \<open>simp_all add: sold_facts(2) torn_tail_def log_bytes_def\<close>)
  then show ?thesis
    using snap(1) counts pub
    by (simp add: driver_report_def engine_snapshot_def size_bytes_def kCash_def kRevenue_def sold_facts checked_state_def has_value_def)
qed

section \<open>Properties\<close>



lemma demo_disk:
  "wf_fs (blank_os 566)" "fresh_fds (blank_os 566)" "reliable 566 (blank_os 566)" "names (blank_os 566) p = None"
  using blank_os_facts(3) [of 566] by (simp_all add: blank_os_def wf_fs_def fresh_fds_def)



end
