(* ===== verification/Abstract_Ledger.thy ===== *)
theory Abstract_Ledger
  imports Engine
begin

text \<open>
  What the engine promises its clients, without its machinery: a chart of accounts, the history of
  idempotency keys, a bounded list of waiting transactions and the clients' answer slots. There is no
  hash map, ring buffer, log or operating system here; the outcome of the append of the \<open>i\<close>-th
  served transaction, which the operating system decides, is \<open>disk i\<close>. \<open>engine_refines_ledger\<close> shows that the
  engine of \<open>engine.cpp\<close>, with everything it is built from, implements this machine.
\<close>

section \<open>The abstract machine\<close>

record ledger =
  chart :: AccountLookup
  seen :: "IdempotencyKey list"
  waiting :: "(Transaction \<times> nat) list"
  replies :: completions

text \<open>The time stamp of a transaction has no influence on what happens to it.\<close>

definition unstamped :: "Transaction \<Rightarrow> Transaction" where
  "unstamped tx = tx\<lparr>created_at_ns := 0\<rparr>"

definition judge :: "nat \<Rightarrow> ledger \<Rightarrow> Transaction \<Rightarrow> LedgerError" where
  "judge cap l tx =
     (if idempotency_key tx \<in> set (recent cap (seen l)) then DuplicateTransaction
      else if validate_transaction_shape tx \<noteq> ErrNone then validate_transaction_shape tx
      else if unknown_account (chart l) (tx_legs tx) then AccountNotFound
      else if overdraws (chart l) (tx_legs tx) then InsufficientFunds
      else ErrNone)"

definition serve_one :: "nat \<Rightarrow> (nat \<Rightarrow> LedgerError) \<Rightarrow> Transaction \<Rightarrow> nat \<Rightarrow> ledger \<Rightarrow> ledger" where
  "serve_one cap disk tx p l =
     (let v = judge cap l tx; r = (if v = ErrNone then disk (length (seen l)) else v) in
      l\<lparr>chart := if r = ErrNone then moved (chart l) (tx_legs tx) else chart l,
        seen := seen l @ [idempotency_key tx],
        replies := (replies l)(p \<mapsto> \<lparr>comp_done = True, comp_error = r\<rparr>)\<rparr>)"

fun serve :: "nat \<Rightarrow> (nat \<Rightarrow> LedgerError) \<Rightarrow> nat \<Rightarrow> ledger \<Rightarrow> ledger" where
  "serve cap disk 0 l = l"
| "serve cap disk (Suc k) l =
     (case waiting l of
        [] \<Rightarrow> l
      | (tx, p) # q \<Rightarrow> serve cap disk k (serve_one cap disk tx p (l\<lparr>waiting := q\<rparr>)))"

definition ask :: "nat \<Rightarrow> Transaction \<Rightarrow> nat \<Rightarrow> ledger \<Rightarrow> ledger" where
  "ask room tx p l =
     l\<lparr>waiting := if length (waiting l) < room then waiting l @ [(unstamped tx, p)] else waiting l,
       replies := (replies l)(p := map_option (comp_done_update (\<lambda>_. False)) (replies l p))\<rparr>"

primrec ledger_run :: "nat \<Rightarrow> nat \<Rightarrow> (nat \<Rightarrow> LedgerError) \<Rightarrow> engine_op list \<Rightarrow> ledger \<Rightarrow> ledger" where
  "ledger_run cap room disk [] l = l"
| "ledger_run cap room disk (op # ops) l =
     ledger_run cap room disk ops
       (case op of
          Submit weak tx p \<Rightarrow> ask room tx p l
        | Process max_items \<Rightarrow> serve cap disk (unat max_items) l
        | Allocate \<Rightarrow> l)"

section \<open>The simulation\<close>

definition abs_request :: "PendingRequest \<Rightarrow> Transaction \<times> nat" where
  "abs_request request = (unstamped (req_tx request), the (completion request))"

definition abs_ledger :: "LedgerState \<Rightarrow> IdempotencyKey list \<Rightarrow> PendingRequest list \<Rightarrow> completions \<Rightarrow> ledger" where
  "abs_ledger s hs q cs =
     \<lparr>chart = find_account s, seen = hs, waiting = map abs_request q, replies = cs\<rparr>"

lemma abs_ledger_simps [simp]:
  "chart (abs_ledger s hs q cs) = find_account s" "seen (abs_ledger s hs q cs) = hs"
  "waiting (abs_ledger s hs q cs) = map abs_request q" "replies (abs_ledger s hs q cs) = cs"
  by (simp_all add: abs_ledger_def)

lemma unstamped_simps [simp]:
  "idempotency_key (unstamped tx) = idempotency_key tx" "tx_legs (unstamped tx) = tx_legs tx"
  "validate_transaction_shape (unstamped tx) = validate_transaction_shape tx"
  "unstamped (tx\<lparr>created_at_ns := now\<rparr>) = unstamped tx"
  by (simp_all add: unstamped_def tx_legs_def validate_transaction_shape_def)

lemma judge_abs:
  "judge cap (abs_ledger s hs q cs) (unstamped tx) = verdict (idempotency_key tx \<in> set (recent cap hs)) tx s"
  by (simp add: judge_def abs_ledger_def verdict_def has_value_def)

text \<open>The outcomes of the appends behind a list of answers; for a rejected request it does not matter.\<close>

definition append_outcomes_of :: "answers \<Rightarrow> LedgerError list" where
  "append_outcomes_of rs = map (\<lambda>(request, err). if err \<in> {WalWriteFailed, WalSyncFailed} then err else ErrNone) rs"

definition follows :: "(nat \<Rightarrow> LedgerError) \<Rightarrow> nat \<Rightarrow> LedgerError list \<Rightarrow> bool" where
  "follows disk n outs \<longleftrightarrow> (\<forall>i < length outs. disk (n + i) = outs ! i)"

lemma follows_simps [simp]:
  "follows disk n []"
  "follows disk n (r # outs) \<longleftrightarrow> disk n = r \<and> follows disk (Suc n) outs"
  by (auto simp: follows_def nth_Cons split: nat.splits)

lemma follows_append [simp]:
  "follows disk n (outs @ outs') \<longleftrightarrow> follows disk n outs \<and> follows disk (n + length outs) outs'"
  by (induction outs arbitrary: n) auto

lemma serve_one_abs:
  assumes "judged cap hs s ((request, err) # rs)" and "completion request = Some p"
    and "follows disk (length hs) (append_outcomes_of ((request, err) # rs))"
  shows "serve_one cap disk (unstamped (req_tx request)) p (abs_ledger s hs q cs) =
    abs_ledger (if err = ErrNone then snd (apply_tx (req_tx request) s) else s)
      (hs @ [idempotency_key (req_tx request)]) q (acked request err cs)"
proof -
  let ?tx = "req_tx request"
  let ?v = "verdict (idempotency_key ?tx \<in> set (recent cap hs)) ?tx s"
  have err: "(if ?v = ErrNone then disk (length hs) else ?v) = err"
    using assms(1,3) by (auto simp: append_outcomes_of_def Let_def split: if_splits)
  have "find_account (snd (apply_tx ?tx s)) = moved (find_account s) (tx_legs ?tx)" if "err = ErrNone"
    using that err by (intro book.admitted_step(2)) (auto simp: verdict_ok split: if_splits)
  then show ?thesis
    unfolding serve_one_def Let_def judge_abs abs_ledger_simps err by (simp add: abs_ledger_def acked_def assms(2))
qed

lemma serve_abs:
  assumes "judged cap hs s rs" and "\<forall>(request, err) \<in> set rs. completion request \<noteq> None"
    and "follows disk (length hs) (append_outcomes_of rs)"
  shows "serve cap disk (length rs) (abs_ledger s hs (map fst rs @ q) cs) =
    abs_ledger (apply_run apply_tx (commits rs) s) (hs @ map (idempotency_key \<circ> req_tx \<circ> fst) rs) q (acks rs cs)"
  using assms
proof (induction rs arbitrary: hs s cs)
  case Nil
  then show ?case by (simp add: commits_def acks_def)
next
  case (Cons ra rs)
  obtain request err where ra: "ra = (request, err)" by (cases ra)
  obtain p where p: "completion request = Some p" using Cons.prems(2) ra by auto
  let ?s = "if err = ErrNone then snd (apply_tx (req_tx request) s) else s"
  have "judged cap (hs @ [idempotency_key (req_tx request)]) ?s rs"
    "follows disk (length (hs @ [idempotency_key (req_tx request)])) (append_outcomes_of rs)"
    "\<forall>(request, err) \<in> set rs. completion request \<noteq> None"
    using Cons.prems by (simp_all add: ra Let_def append_outcomes_of_def)
  note rest = Cons.IH [OF this(1,3,2), of "acked request err cs"]
  have pop: "(abs_ledger s hs (request # map fst rs @ q) cs)\<lparr>waiting := map abs_request (map fst rs @ q)\<rparr> =
      abs_ledger s hs (map fst rs @ q) cs"
    "waiting (abs_ledger s hs (request # map fst rs @ q) cs) =
      (unstamped (req_tx request), p) # map abs_request (map fst rs @ q)"
    by (simp_all add: abs_ledger_def abs_request_def p)
  show ?case
    unfolding ra list.map append_Cons fst_conv list.size add_Suc_right add_0_right serve.simps pop list.case prod.case
      serve_one_abs [OF Cons.prems(1) [unfolded ra] p Cons.prems(3) [unfolded ra]] rest
    by (simp add: commits_Cons acks_def)
qed

text \<open>Serving stops when the queue is empty.\<close>

lemma waiting_serve_one [simp]: "waiting (serve_one cap disk tx p l) = waiting l"
  by (simp add: serve_one_def Let_def)

lemma serve_min: "serve cap disk k l = serve cap disk (min k (length (waiting l))) l"
proof (induction k arbitrary: l)
  case (Suc k)
  show ?case
  proof (cases "waiting l")
    case (Cons req q)
    then show ?thesis using Suc [of "serve_one cap disk (fst req) (snd req) (l\<lparr>waiting := q\<rparr>)"] by (cases req) simp
  qed simp
qed simp

lemma append_outcomes_range:
  "set (append_outcomes_of rs) \<subseteq> {ErrNone, WalWriteFailed, WalSyncFailed}"
  "appends_ok rs \<Longrightarrow> set (append_outcomes_of rs) \<subseteq> {ErrNone}"
  by (auto simp: append_outcomes_of_def appends_ok_def split: if_splits)

lemma process_refines:
  assumes "engine_ok std_hash cap rcap e os f hs q n" and "\<forall>request \<in> set q. valid_request cs request"
  obtains m e' cs' os' f' hs' q' outs where "process_pending std_hash max_items e cs os = Some (m, e', cs', os')"
    "engine_ok std_hash cap rcap e' os' f' hs' q' n" "\<forall>request \<in> set q'. valid_request cs' request" "dom cs \<subseteq> dom cs'"
    "set outs \<subseteq> {ErrNone, WalWriteFailed, WalSyncFailed}"
    "reliable 321 os \<longrightarrow> reliable 321 os' \<and> set outs \<subseteq> {ErrNone}" "length hs' = length hs + length outs"
    "\<And>disk. follows disk (length hs) outs \<Longrightarrow>
       serve cap disk (unat max_items) (abs_ledger (working (store e)) hs q cs) = abs_ledger (working (store e')) hs' q' cs'"
proof -
  let ?k = "min (unat max_items) (length q)"
  have "(0 :: u64) \<le> max_items" by simp
  from process_loop_serves [OF assms this refl] obtain rs e' os' f' where
    r: "process_pending std_hash max_items e cs os = Some (of_nat ?k, e', acks rs cs, os')" "map fst rs = take ?k q"
    "engine_ok std_hash cap rcap e' os' f' (hs @ map (idempotency_key \<circ> req_tx) (take ?k q)) (drop ?k q) n"
    "serves cap e f hs rs e' f'" "reliable 321 os \<longrightarrow> reliable 321 os' \<and> appends_ok rs"
    by (auto simp: process_pending_def)
  have keys: "map (idempotency_key \<circ> req_tx \<circ> fst) rs = map (idempotency_key \<circ> req_tx) (take ?k q)"
    by (simp flip: r(2))
  have q: "q = map fst rs @ drop ?k q" by (simp add: r(2))
  have len: "length rs = ?k" using arg_cong [OF r(2), of length] by simp
  have "completion request \<noteq> None" if "(request, err) \<in> set rs" for request err
  proof -
    have "request \<in> set (map fst rs)" using that by force
    then have "request \<in> set q" unfolding r(2) by (rule in_set_takeD)
    then show ?thesis using assms(2) by (auto simp: valid_request_def)
  qed
  then have "\<forall>(request, err) \<in> set rs. completion request \<noteq> None" by blast
  moreover have "judged cap hs (working (store e)) rs"
    "working (store e') = apply_run apply_tx (commits rs) (working (store e))"
    using r(4) by (simp_all add: serves_def)
  ultimately have "serve cap disk (unat max_items) (abs_ledger (working (store e)) hs q cs) =
      abs_ledger (working (store e')) (hs @ map (idempotency_key \<circ> req_tx) (take ?k q)) (drop ?k q) (acks rs cs)"
    if "follows disk (length hs) (append_outcomes_of rs)" for disk
    using serve_abs [of cap hs "working (store e)" rs disk "drop ?k q" cs] that
    by (subst serve_min) (simp add: len keys flip: q)
  moreover have "\<forall>request \<in> set (drop ?k q). valid_request (acks rs cs) request"
    using assms(2) valid_request_mono [OF _ dom_acks] by (auto dest: in_set_dropD)
  ultimately show thesis
    using r(1,3,5) dom_acks append_outcomes_range
    by (intro that [of "of_nat ?k" e' "acks rs cs" os' f' _ "drop ?k q" "append_outcomes_of rs"])
      (auto simp: append_outcomes_of_def len)
qed

text \<open>
  A run of the engine that starts with the history \<open>hs\<close> and the queue \<open>q\<close>, and the run of the abstract
  machine it corresponds to: \<open>outs\<close> are the outcomes of the appends on the way.
\<close>

definition refines ::
    "(u64 \<Rightarrow> u64) \<Rightarrow> nat \<Rightarrow> nat \<Rightarrow> engine_op list \<Rightarrow> LedgerEngine \<Rightarrow> completions \<Rightarrow> os \<Rightarrow> IdempotencyKey list \<Rightarrow>
     PendingRequest list \<Rightarrow> LedgerEngine \<Rightarrow> completions \<Rightarrow> os \<Rightarrow> IdempotencyKey list \<Rightarrow> PendingRequest list \<Rightarrow>
     LedgerError list \<Rightarrow> bool"
where
  "refines std_hash cap rcap ops e cs os hs q e' cs' os' hs' q' outs \<longleftrightarrow>
     engine_run std_hash ops e cs os = Some (e', cs', os') \<and>
     (\<forall>request \<in> set q'. valid_request cs' request) \<and> dom cs \<subseteq> dom cs' \<and>
     set outs \<subseteq> {ErrNone, WalWriteFailed, WalSyncFailed} \<and>
     (reliable 321 os \<longrightarrow> reliable 321 os' \<and> set outs \<subseteq> {ErrNone}) \<and> length hs' = length hs + length outs \<and>
     (\<forall>disk. follows disk (length hs) outs \<longrightarrow>
        ledger_run cap rcap disk ops (abs_ledger (working (store e)) hs q cs) =
        abs_ledger (working (store e')) hs' q' cs')"

lemma refines_trans:
  assumes "refines std_hash cap rcap [op] e cs os hs q e1 cs1 os1 hs1 q1 outs1"
    and "refines std_hash cap rcap ops e1 cs1 os1 hs1 q1 e2 cs2 os2 hs2 q2 outs2"
  shows "refines std_hash cap rcap (op # ops) e cs os hs q e2 cs2 os2 hs2 q2 (outs1 @ outs2)"
proof -
  have one: "engine_run std_hash [op] e cs os = Some (e1, cs1, os1)" "length hs1 = length hs + length outs1"
    using assms(1) unfolding refines_def by blast+
  have "ledger_run cap rcap disk (op # ops) l = ledger_run cap rcap disk ops (ledger_run cap rcap disk [op] l)" for disk l
    by simp
  then show ?thesis
    using assms one(2) unfolding refines_def engine_run_Cons [OF one(1)] by (simp del: ledger_run.simps(2)) blast
qed

lemma submit_refines:
  assumes "engine_ok std_hash cap rcap e os f hs q n" and "\<forall>request \<in> set q. valid_request cs request"
    and "wf_tx tx" and "cs p = Some slot0" and "n + rcap + 1 < 2 ^ 63"
  obtains e' cs' os' q' n' where "refines std_hash cap rcap [Submit weak tx p] e cs os hs q e' cs' os' hs q' []"
    "engine_ok std_hash cap rcap e' os' f hs q' n'" "n' \<le> n + 1"
proof -
  define tx' where "tx' = tx\<lparr>created_at_ns := fst (monotonic_now_ns os)\<rparr>"
  let ?cs = "cs(p \<mapsto> slot0\<lparr>comp_done := False\<rparr>)" and ?new = "\<lparr>req_tx = tx', completion = Some p\<rparr>"
  have "dom cs \<subseteq> dom ?cs" by auto
  then have val: "\<forall>request \<in> set q. valid_request ?cs request" "valid_request ?cs ?new"
    using assms(2) valid_request_mono assms(3) by (blast, simp add: valid_request_def tx'_def wf_tx_def)
  have ask: "ask rcap tx p (abs_ledger s hs q cs) = abs_ledger s hs (if length q < rcap then q @ [?new] else q) ?cs" for s
    by (simp add: ask_def abs_ledger_def abs_request_def tx'_def assms(4))
  from assms(1,4,5) tx'_def show thesis
  proof (cases rule: submit_cases [where weak = weak and cs = cs and p = p])
    case (queued e' os')
    then have "refines std_hash cap rcap [Submit weak tx p] e cs os hs q e' ?cs os' hs (q @ [?new]) []"
      using val ask by (auto simp: refines_def reliable_clock untouched_def)
    then show thesis using that queued by blast
  next
    case (full os')
    then have "refines std_hash cap rcap [Submit weak tx p] e cs os hs q e ?cs os' hs q []"
      using val ask by (auto simp: refines_def reliable_clock)
    then show thesis using that full by fastforce
  qed
qed

lemma step_refines:
  assumes "engine_ok std_hash cap rcap e os f hs q n" and "\<forall>request \<in> set q. valid_request cs request"
    and "op_ok cs op" and "n + submissions [op] + rcap < 2 ^ 63"
  obtains e' cs' os' hs' q' outs f' n' where "refines std_hash cap rcap [op] e cs os hs q e' cs' os' hs' q' outs"
    "engine_ok std_hash cap rcap e' os' f' hs' q' n'" "n' \<le> n + submissions [op]"
proof (cases op)
  case (Submit weak tx p)
  then obtain slot0 where p: "cs p = Some slot0" "wf_tx tx" using assms(3) by (auto simp: op_ok_def)
  have one: "submissions [op] = 1" using Submit by (simp add: submissions_def)
  then have "n + rcap + 1 < 2 ^ 63" using assms(4) by simp
  then show thesis
    by (rule submit_refines [OF assms(1,2) p(2,1), where weak = weak]) (use that one Submit in auto)
next
  case (Process max_items)
  show thesis
    by (rule process_refines [OF assms(1,2), of max_items], rule that)
      (auto simp: refines_def Process)
next
  case Allocate
  have "refines std_hash cap rcap [op] e cs os hs q (snd (allocate_transaction_id e)) cs os hs q []"
    using assms(2) Allocate by (simp add: refines_def allocate_transaction_id_def)
  moreover have "engine_ok std_hash cap rcap (snd (allocate_transaction_id e)) os f hs q n"
    using assms(1) by (simp add: engine_ok_def allocate_transaction_id_def)
  ultimately show thesis using that by fastforce
qed

lemma run_refines:
  assumes "engine_ok std_hash cap rcap e os f hs q n" and "\<forall>request \<in> set q. valid_request cs request"
    and "\<forall>op \<in> set ops. op_ok cs op" and "n + submissions ops + rcap < 2 ^ 63"
  shows "\<exists>e' cs' os' hs' q' outs. refines std_hash cap rcap ops e cs os hs q e' cs' os' hs' q' outs"
  using assms
proof (induction ops arbitrary: e cs os f hs q n)
  case Nil
  then have "refines std_hash cap rcap [] e cs os hs q e cs os hs q []" by (simp add: refines_def)
  then show ?case by blast
next
  case (Cons op ops)
  have "op_ok cs op" "n + submissions [op] + rcap < 2 ^ 63"
    using Cons.prems(3,4) submissions_Cons [of op ops] by simp_all
  with Cons.prems(1,2) obtain e1 cs1 os1 hs1 q1 outs1 f1 n1 where
    one: "refines std_hash cap rcap [op] e cs os hs q e1 cs1 os1 hs1 q1 outs1"
    "engine_ok std_hash cap rcap e1 os1 f1 hs1 q1 n1" "n1 \<le> n + submissions [op]"
    by (rule step_refines)
  then have mid: "\<forall>request \<in> set q1. valid_request cs1 request" "dom cs \<subseteq> dom cs1" by (simp_all add: refines_def)
  have "\<forall>op' \<in> set ops. op_ok cs1 op'" using Cons.prems(3) op_ok_mono [OF _ mid(2)] by simp
  moreover have "n1 + submissions ops + rcap < 2 ^ 63" using Cons.prems(4) one(3) submissions_Cons [of op ops] by simp
  ultimately obtain e2 cs2 os2 hs2 q2 outs2 where "refines std_hash cap rcap ops e1 cs1 os1 hs1 q1 e2 cs2 os2 hs2 q2 outs2"
    using Cons.IH [OF one(2) mid(1)] by blast
  with refines_trans [OF one(1)] show ?case by blast
qed

section \<open>Properties\<close>

text \<open>C2. The engine implements the abstract ledger. For every sequence of calls by clients and writer
  thread, any hash function and any behaviour of the operating system, the engine returns, and both
  the accounts of its working state and every answer slot are those of the abstract machine, for
  some outcomes of the appends; with an operating system that serves every call all appends succeed, so that
  the accounts and the answers are a function of the calls alone.\<close>

theorem engine_refines_ledger:
  assumes "engine_boot cfg accs os = Some (e, os1)" and "config_ok cfg"
    and "\<forall>op \<in> set ops. op_ok cs op" and "submissions ops + unat (ring_buffer_capacity cfg) < 2 ^ 63"
  shows "\<exists>e' cs' os' disk. engine_run std_hash ops e cs os1 = Some (e', cs', os') \<and>
    range disk \<subseteq> {ErrNone, WalWriteFailed, WalSyncFailed} \<and> (reliable 321 os1 \<longrightarrow> disk = (\<lambda>i. ErrNone)) \<and>
    (let l = ledger_run (max 1 (unat (idempotency_capacity cfg))) (unat (ring_buffer_capacity cfg)) disk ops
         \<lparr>chart = find_account (working (store e)), seen = [], waiting = [], replies = cs\<rparr>
     in find_account (working (store e')) = chart l \<and> cs' = replies l)"
proof -
  obtain cap rcap f where b: "engine_ok std_hash cap rcap e os1 f [] [] 0" "rcap = unat (ring_buffer_capacity cfg)"
    "cap = max 1 (unat (idempotency_capacity cfg))"
    by (rule engine_boot_ok [OF assms(1,2)])
  have "0 + submissions ops + rcap < 2 ^ 63" using assms(4) b(2) by simp
  from run_refines [OF b(1) _ assms(3) this] obtain e' cs' os' hs' q' outs where
    r: "refines std_hash cap rcap ops e cs os1 [] [] e' cs' os' hs' q' outs" by auto
  define disk where "disk i = (if i < length outs then outs ! i else ErrNone)" for i
  have "follows disk 0 outs" by (simp add: follows_def disk_def)
  then have "ledger_run cap rcap disk ops (abs_ledger (working (store e)) [] [] cs) = abs_ledger (working (store e')) hs' q' cs'"
    using r by (simp add: refines_def)
  moreover have "range disk \<subseteq> insert ErrNone (set outs)" by (auto simp: disk_def)
  then have "range disk \<subseteq> {ErrNone, WalWriteFailed, WalSyncFailed}" "reliable 321 os1 \<longrightarrow> disk = (\<lambda>i. ErrNone)"
    using r by (fastforce simp: refines_def)+
  ultimately show ?thesis
    using r unfolding b(2,3) [symmetric]
    by (intro exI [of _ e'] exI [of _ cs'] exI [of _ os'] exI [of _ disk]) (simp add: refines_def Let_def abs_ledger_def)
qed

text \<open>A sale and its retry on the abstract machine.\<close>

lemma demo_ledger:
  assumes "0 < cap"
  defines "l \<equiv> ledger_run cap 4096 (\<lambda>i. ErrNone) demo_ops
    \<lparr>chart = find_account example_book, seen = [], waiting = [], replies = demo_slots\<rparr>"
  shows "replies l 0 = Some \<lparr>comp_done = True, comp_error = ErrNone\<rparr>"
    "replies l 1 = Some \<lparr>comp_done = True, comp_error = DuplicateTransaction\<rparr>"
proof -
  let ?sale = "unstamped (example_sale 1 10)"
  have new: "judge cap \<lparr>chart = find_account example_book, seen = [], waiting = q, replies = cs\<rparr> ?sale = ErrNone" for q cs
    using example_sale_admitted [of 1] by (simp add: admitted_iff judge_def recent_def validate_transaction_shape_ok del: example_sale_simps(3))
  have again: "judge cap \<lparr>chart = c, seen = [IdempotencyKey 1 1], waiting = q, replies = cs\<rparr> ?sale = DuplicateTransaction" for c q cs
    using assms(1) by (simp add: judge_def recent_def take_Cons')
  have five: "serve cap disk 5 l = serve cap disk (Suc (Suc 0)) l" if "length (waiting l) = 2" for disk l
    using that by (subst serve_min) (simp add: numeral_2_eq_2)
  show "replies l 0 = Some \<lparr>comp_done = True, comp_error = ErrNone\<rparr>"
    "replies l 1 = Some \<lparr>comp_done = True, comp_error = DuplicateTransaction\<rparr>"
    unfolding l_def demo_ops_def by (simp_all add: ask_def five serve_one_def new again Let_def)
qed

theorem engine_refines_ledger_witness:
  "\<exists>e os1 e' cs' os'. engine_boot demo_config demo_accounts (blank_os 321) = Some (e, os1) \<and>
     engine_run id demo_ops e demo_slots os1 = Some (e', cs', os') \<and>
     cs' 0 = Some \<lparr>comp_done = True, comp_error = ErrNone\<rparr> \<and>
     cs' 1 = Some \<lparr>comp_done = True, comp_error = DuplicateTransaction\<rparr>"
proof -
  obtain e os1 where b: "engine_boot demo_config demo_accounts (blank_os 321) = Some (e, os1)"
    "working (store e) = example_book" "reliable 321 os1"
    by (rule demo_boot)
  let ?l = "\<lparr>chart = find_account example_book, seen = [], waiting = [], replies = demo_slots\<rparr>"
  obtain e' cs' os' where r: "engine_run id demo_ops e demo_slots os1 = Some (e', cs', os')"
    "cs' = replies (ledger_run (2 ^ 17) 4096 (\<lambda>i. ErrNone) demo_ops ?l)"
    using engine_refines_ledger [OF b(1) demo_config_ok demo_facts(1,2), where std_hash = id] b(3)
    by (auto simp: Let_def b(2) demo_config_def default_config_def)
  then have "cs' 0 = Some \<lparr>comp_done = True, comp_error = ErrNone\<rparr>"
    "cs' 1 = Some \<lparr>comp_done = True, comp_error = DuplicateTransaction\<rparr>"
    using demo_ledger [of "2 ^ 17"] by simp_all
  then show ?thesis using b(1) r(1) by blast
qed

end
