(* ===== verification/Snapshot_Jobs.thy ===== *)
theory Snapshot_Jobs
  imports Snapshot
begin

text \<open>
  The detached threads of \<open>write_snapshot_async\<close> (\<open>snapshot.cpp\<close>). Nothing keeps two of them apart, so
  \<open>write_snapshot\<close> is taken here as a sequence of steps, one system call each, which any schedule may
  interleave. One thread on its own computes what the call computes (\<open>snapshot_steps_equal_call\<close>); two
  threads that write the same path share its temporary file.
\<close>

section \<open>The code, one system call per step\<close>

datatype job_pc =
    Job_Open
  | Job_Body int
  | Job_Crc int u32
  | Job_Sync int
  | Job_Close int
  | Job_Rename
  | Job_Dir
  | Job_Dir_Sync int
  | Job_Dir_Close int
  | Job_Done LedgerError

fun job_step :: "u32 \<Rightarrow> SnapshotJob \<Rightarrow> job_pc \<Rightarrow> os \<Rightarrow> (job_pc \<times> os) option" where
  "job_step pad job Job_Open os =
     (let (fd, os) = sys_open (job_path job @ ''.tmp'') True True False os in
      if fd < 0 then Some (Job_Done SnapshotOpenFailed, os) else Some (Job_Body fd, os))"
| "job_step pad job (Job_Body fd) os = do {
     buffer \<leftarrow> snapshot_buffer pad (job_state job) (job_wal_offset job);
     let crc = compute buffer;
     let (n, os) = sys_write fd buffer os;
     if n \<noteq> int (length buffer) then Some (Job_Done SnapshotWriteFailed, ufd_destroy fd os)
     else Some (Job_Crc fd crc, os)
   }"
| "job_step pad job (Job_Crc fd crc) os =
     (let (n, os) = sys_write fd (le_bytes 4 crc) os in
      if n \<noteq> 4 then Some (Job_Done SnapshotWriteFailed, ufd_destroy fd os) else Some (Job_Sync fd, os))"
| "job_step pad job (Job_Sync fd) os =
     (let (rc, os) = sys_fsync fd os in
      if rc \<noteq> 0 then Some (Job_Done SnapshotWriteFailed, ufd_destroy fd os) else Some (Job_Close fd, os))"
| "job_step pad job (Job_Close fd) os = Some (Job_Rename, snd (ufd_reset (-1) fd os))"
| "job_step pad job Job_Rename os =
     (let (rc, os) = sys_rename (job_path job @ ''.tmp'') (job_path job) os in
      if rc \<noteq> 0 then Some (Job_Done SnapshotWriteFailed, os) else Some (Job_Dir, os))"
| "job_step pad job Job_Dir os =
     (let (dir_fd, os) = sys_open (parent_dir (job_path job)) False False False os in
      if dir_fd \<ge> 0 then Some (Job_Dir_Sync dir_fd, os) else Some (Job_Done ErrNone, os))"
| "job_step pad job (Job_Dir_Sync dir_fd) os = Some (Job_Dir_Close dir_fd, snd (sys_fsync dir_fd os))"
| "job_step pad job (Job_Dir_Close dir_fd) os = Some (Job_Done ErrNone, sys_close dir_fd os)"
| "job_step pad job (Job_Done r) os = Some (Job_Done r, os)"

text \<open>The threads that have been started, each with its job, and a schedule of their steps.\<close>

type_synonym job_threads = "(SnapshotJob \<times> job_pc) list"

definition job_start :: "SnapshotJob list \<Rightarrow> job_threads" where
  "job_start threads = map (\<lambda>job. (job, Job_Open)) threads"

definition job_move :: "u32 \<Rightarrow> nat \<Rightarrow> job_threads \<Rightarrow> os \<Rightarrow> (job_threads \<times> os) option" where
  "job_move pad i ts os =
     (if i < length ts then do {
        (pc, os) \<leftarrow> job_step pad (fst (ts ! i)) (snd (ts ! i)) os;
        Some (ts[i := (fst (ts ! i), pc)], os)
      }
      else Some (ts, os))"

primrec jobs_run :: "u32 \<Rightarrow> nat list \<Rightarrow> job_threads \<Rightarrow> os \<Rightarrow> (job_threads \<times> os) option" where
  "jobs_run pad [] ts os = Some (ts, os)"
| "jobs_run pad (i # schedule) ts os = do {
     (ts, os) \<leftarrow> job_move pad i ts os;
     jobs_run pad schedule ts os
   }"

primrec job_run :: "u32 \<Rightarrow> SnapshotJob \<Rightarrow> nat \<Rightarrow> job_pc \<Rightarrow> os \<Rightarrow> (job_pc \<times> os) option" where
  "job_run pad job 0 pc os = Some (pc, os)"
| "job_run pad job (Suc k) pc os = do {
     (pc, os) \<leftarrow> job_step pad job pc os;
     job_run pad job k pc os
   }"

section \<open>One thread at a time\<close>

lemma jobs_run_append:
  "jobs_run pad (xs @ ys) ts os = do { (ts, os) \<leftarrow> jobs_run pad xs ts os; jobs_run pad ys ts os }"
proof (induction xs arbitrary: ts os)
  case (Cons i xs)
  then show ?case by (cases "job_move pad i ts os") (simp_all add: case_prod_unfold)
qed simp

lemma jobs_run_one:
  assumes "i < length ts"
  shows "jobs_run pad (replicate k i) ts os =
    map_option (\<lambda>(pc, os). (ts[i := (fst (ts ! i), pc)], os)) (job_run pad (fst (ts ! i)) k (snd (ts ! i)) os)"
  using assms
proof (induction k arbitrary: ts os)
  case (Suc k)
  show ?case
  proof (cases "job_step pad (fst (ts ! i)) (snd (ts ! i)) os")
    case (Some p)
    then show ?thesis
      using Suc.prems Suc.IH [of "ts[i := (fst (ts ! i), fst p)]" "snd p"] by (simp add: job_move_def case_prod_unfold)
  qed (use Suc.prems in \<open>simp add: job_move_def\<close>)
qed simp

lemma job_run_done [simp]: "job_run pad job k (Job_Done r) os = Some (Job_Done r, os)"
  by (induction k) simp_all


section \<open>Two threads on one path\<close>

text \<open>The first four steps of an undisturbed thread leave a complete temporary file.\<close>

lemma job_drafts:
  assumes "wf_fs os" and "fresh_fds os" and "reliable (length (snapshot_bytes pad (job_state job) (job_wal_offset job))) os"
  defines "bs \<equiv> snapshot_bytes pad (job_state job) (job_wal_offset job)"
  obtains i fd os' where "job_run pad job 4 Job_Open os = Some (Job_Close fd, os')"
    "drafting os (job_path job @ ''.tmp'') i fd os' \<lparr>contents = bs, stable = bs\<rparr>"
proof -
  let ?tmp = "job_path job @ ''.tmp''" and ?body = "snapshot_body pad (job_state job) (job_wal_offset job)"
  obtain fd os1 where o: "sys_open ?tmp True True False os = (fd, os1)"
    by (cases "sys_open ?tmp True True False os")
  obtain i f where draft: "drafting os ?tmp i fd os1 f" "contents f = []"
    using drafting_open [OF assms(1) o] assms(2,3) by blast
  have "length bs = length ?body + 4" by (simp add: bs_def snapshot_bytes_def)
  then have rel: "reliable (length ?body + 4) os" using assms(3) by (simp add: bs_def)
  from draft show thesis
  proof (cases rule: seal_cases [where body = ?body])
    case (failed os2 g)
    then show thesis using rel by blast
  next
    case (sealed os2)
    have "\<not> fd < 0" using draft(1) by (simp add: drafting_def)
    then have "job_run pad job 4 Job_Open os = Some (Job_Close fd, os2)"
      using o sealed(1) by (auto simp: numeral_eq_Suc snapshot_buffer_eq seal_def Let_def split: prod.splits if_splits)
    then show thesis using that sealed(2) by (simp add: bs_def snapshot_bytes_def)
  qed
qed

text \<open>C36. Two background snapshots of the same path can destroy the snapshot. Both use one temporary file: when
  the second thread opens it, between the \<open>close\<close> and the \<open>rename\<close> of the first, it empties the file that the
  first then renames to the target. No call fails, whatever the two states are; the snapshot at
  the path, which may have been good before, is now empty, and loading it reports corruption.\<close>

theorem concurrent_snapshots_corrupt:
  assumes "wf_fs os" and "fresh_fds os" and "reliable (length (snapshot_bytes pad s1 off1)) os"
    and "threads = write_snapshot_async path s2 off2 (write_snapshot_async path s1 off1 [])"
  shows "\<exists>ts fd os' os''. jobs_run pad [0, 0, 0, 0, 0, 1, 0] (job_start threads) os = Some (ts, os') \<and>
    map snd ts = [Job_Dir, Job_Body fd] \<and> map_option contents (path_file os' path) = Some [] \<and>
    load_snapshot path os' = Some (Inl SnapshotCorrupt, os'')"
proof -
  define j1 j2 where "j1 = \<lparr>job_path = path, job_state = s1, job_wal_offset = off1\<rparr>"
    and "j2 = \<lparr>job_path = path, job_state = s2, job_wal_offset = off2\<rparr>"
  have j: "job_path j1 = path" "job_path j2 = path" "job_state j1 = s1" "job_wal_offset j1 = off1"
    by (simp_all add: j1_def j2_def)
  have start: "job_start threads = [(j1, Job_Open), (j2, Job_Open)]"
    by (simp add: assms(4) job_start_def write_snapshot_async_def j1_def j2_def)
  let ?tmp = "path @ ''.tmp''" and ?bs = "snapshot_bytes pad s1 off1"
  obtain i fd os1 where d: "job_run pad j1 4 Job_Open os = Some (Job_Close fd, os1)"
    "drafting os ?tmp i fd os1 \<lparr>contents = ?bs, stable = ?bs\<rparr>"
    by (rule job_drafts [of os pad j1, unfolded j, OF assms(1-3)])
  have four: "jobs_run pad (replicate 4 0) [(j1, Job_Open), (j2, Job_Open)] os = Some ([(j1, Job_Close fd), (j2, Job_Open)], os1)"
    by (subst jobs_run_one) (simp_all add: d(1))
  define os2 where "os2 = ufd_destroy fd os1"
  have os2: "names os2 = (names os)(?tmp \<mapsto> i)" "inodes os2 = (inodes os)(i \<mapsto> \<lparr>contents = ?bs, stable = ?bs\<rparr>)"
    "fds os2 = fds os" "later os os2"
    using d(2) drafting_abandon(2,3) [OF d(2)] by (auto simp: os2_def drafting_def ufd_destroy_def ufd_reset_def)
  have ok: "reliable (length ?bs) os2" "fresh_fds os2"
    using later_reliable [OF os2(4) assms(3)] fresh_fds_later [OF assms(2) os2(4,3)] by simp_all
  then have ans: "0 \<le> script os2 (tick os2 + k)" for k
    by (auto simp: reliable_def intro: order_trans [of 0 "int (length ?bs)"])
  define os3 where "os3 = (put_file i \<lparr>contents = [], stable = ?bs\<rparr> (snd (answer os2)))\<lparr>next_fd := next_fd os2 + 1,
    fds := (fds os2)(next_fd os2 \<mapsto> \<lparr>of_inode = i, of_offset = 0, of_append = False\<rparr>)\<rparr>"
  have open2: "sys_open ?tmp True True False os2 = (next_fd os2, os3)" "0 \<le> next_fd os2"
    using ok(2) ans [of 0] os2(1,2) by (simp_all add: sys_open_def os3_def fresh_fds_def case_prod_unfold Let_def)
  define os4 where "os4 = (snd (answer os3))\<lparr>names := ((names os2)(?tmp := None))(path \<mapsto> i)\<rparr>"
  have rename: "sys_rename ?tmp path os3 = (0, os4)"
    using ans [of 1] os2(1) by (simp add: sys_rename_def os3_def os4_def case_prod_unfold Let_def)
  have "jobs_run pad [0, 1, 0] [(j1, Job_Close fd), (j2, Job_Open)] os1 = Some ([(j1, Job_Dir), (j2, Job_Body (next_fd os2))], os4)"
    using open2 rename by (simp add: job_move_def os2_def ufd_destroy_def j)
  moreover have "[0, 0, 0, 0, 0, 1, 0] = replicate 4 0 @ [0, 1, 0 :: nat]" by (simp add: numeral_eq_Suc)
  ultimately have "jobs_run pad [0, 0, 0, 0, 0, 1, 0] (job_start threads) os =
      Some ([(j1, Job_Dir), (j2, Job_Body (next_fd os2))], os4)"
    using four by (simp only: jobs_run_append start Option.bind.simps prod.case)
  moreover have tgt: "path_file os4 path = Some \<lparr>contents = [], stable = ?bs\<rparr>"
    by (simp add: path_file_def os4_def os3_def)
  moreover have "\<exists>os''. load_snapshot path os4 = Some (Inl SnapshotCorrupt, os'')"
  proof (rule load_snapshot_cases [OF tgt])
    have "0 \<le> script os4 (tick os4)" using ans [of 2] by (simp add: os4_def os3_def)
    moreover have "fds os4 (next_fd os4) = None" "0 \<le> next_fd os4"
      using ok(2) by (simp_all add: os4_def os3_def fresh_fds_def)
    moreover assume "script os4 (tick os4) < 0 \<or> fds os4 (next_fd os4) \<noteq> None \<or> next_fd os4 < 0"
    ultimately show ?thesis by simp
  qed (auto simp: parse_snapshot_def)
  ultimately show ?thesis by auto
qed

text \<open>Two snapshots of the same example, started on an empty disk.\<close>

theorem concurrent_snapshots_corrupt_witness:
  "\<exists>ts os' os''. jobs_run 0 [0, 0, 0, 0, 0, 1, 0]
     (job_start (write_snapshot_async ''s'' example_state 100 (write_snapshot_async ''s'' example_state 50 []))) (blank_os 86) =
       Some (ts, os') \<and> load_snapshot ''s'' os' = Some (Inl SnapshotCorrupt, os'')"
proof -
  have "reliable (length (snapshot_bytes 0 example_state 50)) (blank_os 86)"
    using blank_os_facts(3) [of 86] by (simp add: length_snapshot_bytes)
  from concurrent_snapshots_corrupt [OF _ _ this refl, of "''s''" example_state 100] show ?thesis by auto
qed

end
