(* ===== verification/Ring_Weak.thy ===== *)
theory Ring_Weak
  imports Ring_Buffer
begin

text \<open>
  The queue of \<open>ring_buffer.hpp\<close> under the memory orders it asks for. A load of an atomic variable may
  return an old value: every atomic keeps the list of the values stored into it, in modification
  order, and every thread has a view, the oldest value it may still read. A release store attaches
  the view of the storing thread to the value, an acquire load takes that view over; relaxed accesses
  do neither. The plain variable \<open>data\<close> counts the accesses to it, and an access by a thread that has
  not seen all earlier ones is a data race, after which the value is arbitrary. Every execution is
  shown to compute what a sequentially consistent one computes, without a data race.
\<close>

section \<open>Views and histories\<close>

datatype memory_order = Relaxed | Acquire | Release

text \<open>
  How much of the history of \<open>enqueue_pos\<close>, of the sequence of each cell and of the accesses to the
  data of each cell a thread is aware of.
\<close>

record view =
  seen_pos :: nat
  seen_seq :: "nat \<Rightarrow> nat"
  seen_data :: "nat \<Rightarrow> nat"

definition no_view :: view where
  "no_view = \<lparr>seen_pos = 0, seen_seq = (\<lambda>_. 0), seen_data = (\<lambda>_. 0)\<rparr>"

definition join_view :: "view \<Rightarrow> view \<Rightarrow> view" where
  "join_view v u = \<lparr>seen_pos = max (seen_pos v) (seen_pos u), seen_seq = (\<lambda>c. max (seen_seq v c) (seen_seq u c)),
     seen_data = (\<lambda>c. max (seen_data v c) (seen_data u c))\<rparr>"

record message =
  stored :: u64
  carried :: view

record 'a weak_cell =
  seq_log :: "message list"
  plain_data :: 'a
  accesses :: nat

record 'a weak_system =
  weak_mask :: u64
  weak_cells :: "'a weak_cell list"
  pos_log :: "u64 list"
  weak_dequeue_pos :: u64
  weak_prods :: "nat \<Rightarrow> 'a producer"
  prod_view :: "nat \<Rightarrow> view"
  weak_cons :: "'a consumer"
  cons_view :: view
  weak_claimed :: "'a list"
  weak_popped :: "'a list"

definition weak_start :: "u64 \<Rightarrow> 'a \<Rightarrow> 'a weak_system" where
  "weak_start capacity_pow2 init =
     \<lparr>weak_mask = capacity_pow2 - 1,
      weak_cells = map (\<lambda>i. \<lparr>seq_log = [\<lparr>stored = of_nat i, carried = no_view\<rparr>], plain_data = init, accesses = 0\<rparr>)
        [0..<unat capacity_pow2],
      pos_log = [0], weak_dequeue_pos = 0, weak_prods = (\<lambda>_. Idle), prod_view = (\<lambda>_. no_view),
      weak_cons = Look, cons_view = no_view, weak_claimed = [], weak_popped = []\<rparr>"

definition slot :: "u64 \<Rightarrow> 'a weak_system \<Rightarrow> nat" where
  "slot pos w = unat (pos AND weak_mask w)"

text \<open>The relaxed load of \<open>enqueue_pos\<close> that returns the \<open>k\<close>-th value of its history.\<close>

definition load_pos :: "nat \<Rightarrow> 'a weak_system \<Rightarrow> view \<Rightarrow> (u64 \<times> view) option" where
  "load_pos k w v =
     (if seen_pos v \<le> k \<and> k < length (pos_log w) then Some (pos_log w ! k, v\<lparr>seen_pos := k\<rparr>) else None)"

text \<open>\<open>cell->sequence.load\<close> and \<open>cell->sequence.store\<close> for the cell \<open>c\<close>.\<close>

definition load_seq :: "memory_order \<Rightarrow> nat \<Rightarrow> nat \<Rightarrow> 'a weak_system \<Rightarrow> view \<Rightarrow> (u64 \<times> view) option" where
  "load_seq order c k w v =
     (if c < length (weak_cells w) \<and> seen_seq v c \<le> k \<and> k < length (seq_log (weak_cells w ! c))
      then let m = seq_log (weak_cells w ! c) ! k; v' = v\<lparr>seen_seq := (seen_seq v)(c := k)\<rparr>
           in Some (stored m, if order = Acquire then join_view v' (carried m) else v')
      else None)"

definition see_store :: "nat \<Rightarrow> 'a weak_system \<Rightarrow> view \<Rightarrow> view" where
  "see_store c w v = v\<lparr>seen_seq := (seen_seq v)(c := length (seq_log (weak_cells w ! c)))\<rparr>"

definition store_seq :: "memory_order \<Rightarrow> nat \<Rightarrow> u64 \<Rightarrow> view \<Rightarrow> 'a weak_system \<Rightarrow> 'a weak_system" where
  "store_seq order c val v w =
     w\<lparr>weak_cells := (weak_cells w)[c := (weak_cells w ! c)
        \<lparr>seq_log := seq_log (weak_cells w ! c) @
           [\<lparr>stored = val, carried = if order = Release then see_store c w v else no_view\<rparr>]\<rparr>]\<rparr>"

text \<open>Plain accesses to \<open>cell->data\<close>.\<close>

definition raced :: "nat \<Rightarrow> 'a weak_system \<Rightarrow> view \<Rightarrow> bool" where
  "raced c w v \<longleftrightarrow> seen_data v c < accesses (weak_cells w ! c)"

definition seq_current :: "nat \<Rightarrow> 'a weak_system \<Rightarrow> view \<Rightarrow> bool" where
  "seq_current c w v \<longleftrightarrow> length (seq_log (weak_cells w ! c)) \<le> Suc (seen_seq v c)"

definition see_access :: "nat \<Rightarrow> 'a weak_system \<Rightarrow> view \<Rightarrow> view" where
  "see_access c w v = v\<lparr>seen_data := (seen_data v)(c := accesses (weak_cells w ! c) + 1)\<rparr>"

definition access_data :: "nat \<Rightarrow> 'a \<Rightarrow> 'a weak_system \<Rightarrow> 'a weak_system" where
  "access_data c x w =
     w\<lparr>weak_cells := (weak_cells w)[c := (weak_cells w ! c)
        \<lparr>plain_data := x, accesses := accesses (weak_cells w ! c) + 1\<rparr>]\<rparr>"

section \<open>Steps\<close>

abbreviation set_thread :: "nat \<Rightarrow> 'a producer \<Rightarrow> view \<Rightarrow> 'a weak_system \<Rightarrow> 'a weak_system" where
  "set_thread i pc v w \<equiv> w\<lparr>weak_prods := (weak_prods w)(i := pc), prod_view := (prod_view w)(i := v)\<rparr>"

text \<open>
  The steps of \<open>try_push\<close> and \<open>try_pop\<close>. A successful compare-and-swap reads the newest value; a
  failed one any value the thread may still read, also the expected one. A store goes to the end of
  the modification order: that the storing thread is aware of the newest value, so that coherence
  leaves no other place, is part of \<open>weak_race_free\<close> below.
\<close>

inductive weak_step :: "'a weak_system \<Rightarrow> 'a weak_system \<Rightarrow> bool" where
  weak_enter: "weak_prods w i = Idle \<Longrightarrow> load_pos k w (prod_view w i) = Some (pos, v) \<Longrightarrow>
    weak_step w (set_thread i (Load_Seq x pos) v w)"
| weak_seq_equal: "weak_prods w i = Load_Seq x pos \<Longrightarrow>
    load_seq Acquire (slot pos w) k w (prod_view w i) = Some (seq, v) \<Longrightarrow>
    seq_diff seq pos = Some diff \<Longrightarrow> diff = 0 \<Longrightarrow> weak_step w (set_thread i (Cas x pos) v w)"
| weak_seq_behind: "weak_prods w i = Load_Seq x pos \<Longrightarrow>
    load_seq Acquire (slot pos w) k w (prod_view w i) = Some (seq, v) \<Longrightarrow>
    seq_diff seq pos = Some diff \<Longrightarrow> diff < 0 \<Longrightarrow> weak_step w (set_thread i Idle v w)"
| weak_seq_ahead: "weak_prods w i = Load_Seq x pos \<Longrightarrow>
    load_seq Acquire (slot pos w) k w (prod_view w i) = Some (seq, v) \<Longrightarrow>
    seq_diff seq pos = Some diff \<Longrightarrow> 0 < diff \<Longrightarrow> load_pos k' w v = Some (pos', v') \<Longrightarrow>
    weak_step w (set_thread i (Load_Seq x pos') v' w)"
| weak_cas_done: "weak_prods w i = Cas x pos \<Longrightarrow> last (pos_log w) = pos \<Longrightarrow>
    weak_step w ((set_thread i (Store_Data x pos) ((prod_view w i)\<lparr>seen_pos := length (pos_log w)\<rparr>) w)
      \<lparr>pos_log := pos_log w @ [pos + 1], weak_claimed := weak_claimed w @ [x]\<rparr>)"
| weak_cas_failed: "weak_prods w i = Cas x pos \<Longrightarrow> load_pos k w (prod_view w i) = Some (pos', v) \<Longrightarrow>
    weak_step w (set_thread i (Load_Seq x pos') v w)"
| weak_store_data: "weak_prods w i = Store_Data x pos \<Longrightarrow> c = slot pos w \<Longrightarrow>
    raced c w (prod_view w i) \<or> y = x \<Longrightarrow>
    weak_step w (set_thread i (Release_Seq pos) (see_access c w (prod_view w i)) (access_data c y w))"
| weak_release_seq: "weak_prods w i = Release_Seq pos \<Longrightarrow> c = slot pos w \<Longrightarrow>
    weak_step w (set_thread i Idle (see_store c w (prod_view w i)) (store_seq Release c (pos + 1) (prod_view w i) w))"
| weak_look_ready: "weak_cons w = Look \<Longrightarrow>
    load_seq Acquire (slot (weak_dequeue_pos w) w) k w (cons_view w) = Some (seq, v) \<Longrightarrow>
    seq_diff seq (weak_dequeue_pos w + 1) = Some 0 \<Longrightarrow> weak_step w (w\<lparr>weak_cons := Copy_Data, cons_view := v\<rparr>)"
| weak_look_empty: "weak_cons w = Look \<Longrightarrow>
    load_seq Acquire (slot (weak_dequeue_pos w) w) k w (cons_view w) = Some (seq, v) \<Longrightarrow>
    seq_diff seq (weak_dequeue_pos w + 1) = Some diff \<Longrightarrow> diff \<noteq> 0 \<Longrightarrow> weak_step w (w\<lparr>cons_view := v\<rparr>)"
| weak_copy_data: "weak_cons w = Copy_Data \<Longrightarrow> c = slot (weak_dequeue_pos w) w \<Longrightarrow>
    raced c w (cons_view w) \<or> x = plain_data (weak_cells w ! c) \<Longrightarrow>
    weak_step w ((access_data c (plain_data (weak_cells w ! c)) w)
      \<lparr>weak_cons := Release_Cell x, cons_view := see_access c w (cons_view w)\<rparr>)"
| weak_release_cell: "weak_cons w = Release_Cell x \<Longrightarrow> pos = weak_dequeue_pos w \<Longrightarrow> c = slot pos w \<Longrightarrow>
    weak_step w ((store_seq Release c (pos + weak_mask w + 1) (cons_view w) w)
      \<lparr>cons_view := see_store c w (cons_view w), weak_dequeue_pos := pos + 1, weak_cons := Look,
       weak_popped := weak_popped w @ [x]\<rparr>)"

section \<open>The sequentially consistent state behind a weak one\<close>

text \<open>
  Every atomic has its newest value; a producer that has not claimed a position counts as one that
  has not called \<open>try_push\<close> yet.
\<close>

fun settle :: "'a producer \<Rightarrow> 'a producer" where
  "settle (Store_Data x pos) = Store_Data x pos"
| "settle (Release_Seq pos) = Release_Seq pos"
| "settle _ = Idle"

definition newest :: "'a weak_cell \<Rightarrow> 'a Cell" where
  "newest cell = \<lparr>sequence = stored (last (seq_log cell)), cell_data = plain_data cell\<rparr>"

definition strong :: "'a weak_system \<Rightarrow> 'a system" where
  "strong w = \<lparr>shared = \<lparr>ring_mask = weak_mask w, buffer = map newest (weak_cells w),
      enqueue_pos = last (pos_log w), dequeue_pos = weak_dequeue_pos w\<rparr>,
     prods = (\<lambda>i. settle (weak_prods w i)), cons = weak_cons w, claimed = weak_claimed w, popped = weak_popped w\<rparr>"

text \<open>
  The \<open>k\<close>-th value of the sequence of cell \<open>c\<close>. Its views cover the first \<open>k\<close> accesses to the data:
  between two stores to the sequence there is exactly one access.
\<close>

definition seq_value :: "nat \<Rightarrow> nat \<Rightarrow> nat \<Rightarrow> nat" where
  "seq_value cap c k = c + (k div 2) * cap + k mod 2"

definition in_access :: "nat \<Rightarrow> 'a weak_system \<Rightarrow> bool" where
  "in_access c w \<longleftrightarrow> (\<exists>i pos. weak_prods w i = Release_Seq pos \<and> slot pos w = c) \<or>
     (\<exists>x. weak_cons w = Release_Cell x \<and> slot (weak_dequeue_pos w) w = c)"

definition weak_cell_ok :: "nat \<Rightarrow> 'a weak_system \<Rightarrow> nat \<Rightarrow> bool" where
  "weak_cell_ok cap w c \<longleftrightarrow> seq_log (weak_cells w ! c) \<noteq> [] \<and>
     (\<forall>k < length (seq_log (weak_cells w ! c)).
        stored (seq_log (weak_cells w ! c) ! k) = of_nat (seq_value cap c k) \<and> seq_value cap c k < 2 ^ 63 \<and>
        k \<le> seen_data (carried (seq_log (weak_cells w ! c) ! k)) c) \<and>
     Suc (accesses (weak_cells w ! c)) = length (seq_log (weak_cells w ! c)) + of_bool (in_access c w)"

text \<open>\<open>aware w c n v\<close>: \<open>v\<close> has the newest sequence of cell \<open>c\<close> and, \<open>n\<close> apart, as many accesses.\<close>

definition aware :: "'a weak_system \<Rightarrow> nat \<Rightarrow> nat \<Rightarrow> view \<Rightarrow> bool" where
  "aware w c n v \<longleftrightarrow> length (seq_log (weak_cells w ! c)) \<le> Suc (seen_seq v c) \<and>
     length (seq_log (weak_cells w ! c)) + n \<le> Suc (seen_data v c)"

fun thread_ok :: "'a weak_system \<Rightarrow> 'a producer \<Rightarrow> view \<Rightarrow> bool" where
  "thread_ok w (Cas x pos) v \<longleftrightarrow> (\<exists>k < length (seq_log (weak_cells w ! slot pos w)).
     stored (seq_log (weak_cells w ! slot pos w) ! k) = pos \<and> k \<le> seen_seq v (slot pos w) \<and> k \<le> seen_data v (slot pos w))"
| "thread_ok w (Store_Data x pos) v \<longleftrightarrow> aware w (slot pos w) 0 v"
| "thread_ok w (Release_Seq pos) v \<longleftrightarrow> aware w (slot pos w) 1 v"
| "thread_ok w _ v \<longleftrightarrow> True"

fun reader_ok :: "'a weak_system \<Rightarrow> 'a consumer \<Rightarrow> view \<Rightarrow> bool" where
  "reader_ok w Look v \<longleftrightarrow> True"
| "reader_ok w Copy_Data v \<longleftrightarrow> aware w (slot (weak_dequeue_pos w) w) 0 v"
| "reader_ok w (Release_Cell x) v \<longleftrightarrow> aware w (slot (weak_dequeue_pos w) w) 1 v"

definition weak_inv :: "nat \<Rightarrow> 'a weak_system \<Rightarrow> bool" where
  "weak_inv cap w \<longleftrightarrow> (\<forall>c < cap. weak_cell_ok cap w c) \<and>
     (\<forall>i. thread_ok w (weak_prods w i) (prod_view w i)) \<and> reader_ok w (weak_cons w) (cons_view w)"

section \<open>Facts about the newest values\<close>

lemma strong_simps [simp]:
  "claimed (strong w) = weak_claimed w" "popped (strong w) = weak_popped w" "cons (strong w) = weak_cons w"
  "prods (strong w) i = settle (weak_prods w i)" "cell_of pos (shared (strong w)) = slot pos w"
  "dequeue_pos (shared (strong w)) = weak_dequeue_pos w" "enqueue_pos (shared (strong w)) = last (pos_log w)"
  "ring_mask (shared (strong w)) = weak_mask w" "buffer (shared (strong w)) = map newest (weak_cells w)"
  by (simp_all add: strong_def slot_def cell_of_def)

lemma seq_value_less:
  assumes "2 \<le> cap" and "k < k'"
  shows "seq_value cap c k < seq_value cap c k'"
proof (rule lift_Suc_mono_less [OF _ assms(2)])
  show "seq_value cap c n < seq_value cap c (Suc n)" for n
    using assms(1) by (cases "even n") (auto simp: seq_value_def elim!: evenE oddE)
qed

text \<open>The two stores of a position, by its producer and by the consumer, are successive.\<close>

lemma seq_value_publish:
  assumes "2 \<le> cap" and "seq_value cap (p mod cap) k = p"
  shows "seq_value cap (p mod cap) (Suc k) = p + 1"
proof (cases "even k")
  case True
  then show ?thesis using assms(2) by (auto simp: seq_value_def elim!: evenE)
next
  case False
  then have "p = Suc (p mod cap) + k div 2 * cap" using assms(2) by (auto simp: seq_value_def elim!: oddE)
  then have "p mod cap = Suc (p mod cap) mod cap" by (metis mod_mult_self1)
  moreover have "p mod cap < cap" using assms(1) by simp
  ultimately show ?thesis using assms(1) by (cases "Suc (p mod cap) = cap") auto
qed

lemma seq_value_free:
  assumes "2 \<le> cap" and "seq_value cap (p mod cap) k = p + 1"
  shows "seq_value cap (p mod cap) (Suc k) = p + cap"
proof (cases "even k")
  case False
  then show ?thesis using assms(2) by (auto simp: seq_value_def elim!: oddE)
next
  case True
  then have "p + 1 = p mod cap + k div 2 * cap" using assms(2) by (auto simp: seq_value_def elim!: evenE)
  then have "(p + 1) mod cap = p mod cap" by simp
  moreover have "p mod cap < cap" using assms(1) by simp
  ultimately show ?thesis using assms(1) by (simp add: mod_Suc split: if_splits)
qed

lemma slot_pos:
  assumes "ring_inv cap (strong w)"
  shows "slot (of_nat p) w = p mod cap" "p mod cap < length (weak_cells w)" "p mod cap < cap"
  using cell_of_pos [OF ring_inv_facts(1) [OF assms], of p] ring_cells(3) [OF ring_inv_facts(1) [OF assms], of p]
    ring_inv_facts(1) [OF assms]
  by (simp_all add: ring_shape_def)

lemma weak_cap:
  assumes "ring_inv cap (strong w)"
  shows "2 \<le> cap" "length (weak_cells w) = cap"
  using ring_shape_cap [OF ring_inv_facts(1) [OF assms]] ring_inv_facts(1) [OF assms] by (simp_all add: ring_shape_def)

lemma weak_inv_facts:
  assumes "weak_inv cap w"
  shows "c < cap \<Longrightarrow> weak_cell_ok cap w c" "thread_ok w (weak_prods w i) (prod_view w i)"
    "reader_ok w (weak_cons w) (cons_view w)"
  using assms by (simp_all add: weak_inv_def)

text \<open>The newest value of the sequence of a position, and which load returns it.\<close>

abbreviation seqs :: "'a weak_system \<Rightarrow> nat \<Rightarrow> message list" where
  "seqs w c \<equiv> seq_log (weak_cells w ! c)"

lemma newest_value:
  assumes "ring_inv cap (strong w)" and "weak_inv cap w"
  obtains n where "length (seqs w (p mod cap)) = Suc n" "seq_at cap (strong w) p = of_nat (seq_value cap (p mod cap) n)"
    "seq_value cap (p mod cap) n < 2 ^ 63"
proof -
  note c = slot_pos [OF assms(1), of p]
  have ok: "weak_cell_ok cap w (p mod cap)" using weak_inv_facts(1) [OF assms(2) c(3)] .
  then obtain n where n: "length (seqs w (p mod cap)) = Suc n"
    by (cases "seqs w (p mod cap)") (auto simp: weak_cell_ok_def)
  have "last (seqs w (p mod cap)) = seqs w (p mod cap) ! n" using n by (metis diff_Suc_1 last_conv_nth list.size(3) nat.simps(3))
  then show thesis
    using that [OF n] ok n c(2) by (simp add: weak_cell_ok_def seq_at_def newest_def)
qed

lemma load_newest:
  assumes "ring_inv cap (strong w)" and "weak_inv cap w"
    and "k < length (seqs w (p mod cap))" and "stored (seqs w (p mod cap) ! k) = of_nat q"
    and "seq_at cap (strong w) p = of_nat q'" and "q' \<le> q" and "q < 2 ^ 63"
  shows "q' = q \<and> length (seqs w (p mod cap)) = Suc k \<and> seq_value cap (p mod cap) k = q"
proof -
  note c = slot_pos [OF assms(1), of p]
  obtain n where n: "length (seqs w (p mod cap)) = Suc n" "seq_at cap (strong w) p = of_nat (seq_value cap (p mod cap) n)"
    "seq_value cap (p mod cap) n < 2 ^ 63" using newest_value [OF assms(1,2)] by blast
  have ok: "weak_cell_ok cap w (p mod cap)" using weak_inv_facts(1) [OF assms(2) c(3)] .
  then have q: "seq_value cap (p mod cap) k = q"
    using assms(3,4,7) pos_eq_iff by (simp add: weak_cell_ok_def)
  have q': "seq_value cap (p mod cap) n = q'" using assms(5-7) n(2,3) pos_eq_iff [of q' "seq_value cap (p mod cap) n"] by simp
  have "\<not> k < n" using seq_value_less [OF weak_cap(1) [OF assms(1)], of k n "p mod cap"] q q' assms(6) by linarith
  then have "k = n" using assms(3) n(1) by simp
  with n q q' show ?thesis by simp
qed

lemma seq_diff_zero: "seq_diff seq pos = Some 0 \<Longrightarrow> seq = pos"
  by (auto simp: seq_diff_def split: if_splits intro: word_eq_iff_signed [THEN iffD2])

section \<open>Exclusive access\<close>

lemma owns_settle [simp]: "owns (settle pc) pos = owns pc pos"
  by (cases pc) simp_all

lemma release_owns: "weak_prods w j = Release_Seq pos \<Longrightarrow> owns (weak_prods w j) pos"
  by simp

lemma weak_owner:
  assumes "ring_inv cap (strong w)" and "owns (weak_prods w i) pos"
  shows "owns (weak_prods w j) pos' \<Longrightarrow> slot pos' w = slot pos w \<Longrightarrow> j = i"
    "weak_cons w \<noteq> Look \<Longrightarrow> slot (weak_dequeue_pos w) w \<noteq> slot pos w" "slot pos w < cap"
proof -
  show "j = i" if "owns (weak_prods w j) pos'" "slot pos' w = slot pos w"
    using owner_cells [OF assms(1), of i pos j pos'] assms(2) that by simp
  show "slot (weak_dequeue_pos w) w \<noteq> slot pos w" if "weak_cons w \<noteq> Look"
    using owner_not_consumed [OF assms(1), of i pos] assms(2) that by simp
  have "owns (prods (strong w) i) pos" using assms(2) by simp
  then obtain p where "pos = of_nat p" by (rule owner_pos [OF assms(1)])
  then show "slot pos w < cap" using slot_pos [OF assms(1), of p] by simp
qed

lemma weak_consumer:
  assumes "ring_inv cap (strong w)"
  shows "slot (weak_dequeue_pos w) w = length (weak_popped w) mod cap" "slot (weak_dequeue_pos w) w < cap"
  using ring_inv_facts(6) [OF assms] slot_pos [OF assms, of "length (weak_popped w)"] by simp_all

lemma accesses_seen:
  assumes "weak_inv cap w" and "c < cap" and "\<not> in_access c w"
  shows "Suc (accesses (weak_cells w ! c)) = length (seqs w c)"
  using weak_inv_facts(1) [OF assms(1,2)] assms(3) by (simp add: weak_cell_ok_def)

lemma producer_no_race:
  assumes "ring_inv cap (strong w)" and "weak_inv cap w" and "weak_prods w i = Store_Data x pos"
  shows "\<not> in_access (slot pos w) w" "\<not> raced (slot pos w) w (prod_view w i)"
proof -
  have own: "owns (weak_prods w i) pos" using assms(3) by simp
  note excl = weak_owner [OF assms(1) own]
  have "weak_prods w j \<noteq> Release_Seq pos'" if "slot pos' w = slot pos w" for j pos'
    using excl(1) [of j pos'] that assms(3) by auto
  then show free: "\<not> in_access (slot pos w) w" using excl(2) by (auto simp: in_access_def)
  have "thread_ok w (Store_Data x pos) (prod_view w i)" using weak_inv_facts(2) [OF assms(2), of i] assms(3) by simp
  then show "\<not> raced (slot pos w) w (prod_view w i)"
    using accesses_seen [OF assms(2) excl(3) free] by (simp add: raced_def aware_def)
qed

lemma consumer_no_race:
  assumes "ring_inv cap (strong w)" and "weak_inv cap w" and "weak_cons w = Copy_Data"
  shows "\<not> in_access (slot (weak_dequeue_pos w) w) w" "\<not> raced (slot (weak_dequeue_pos w) w) w (cons_view w)"
proof -
  have "slot pos w \<noteq> slot (weak_dequeue_pos w) w" if "weak_prods w j = Release_Seq pos" for j pos
    using weak_owner(2) [OF assms(1), of j pos] that assms(3) by auto
  then show free: "\<not> in_access (slot (weak_dequeue_pos w) w) w" using assms(3) by (auto simp: in_access_def)
  have "reader_ok w Copy_Data (cons_view w)" using weak_inv_facts(3) [OF assms(2)] assms(3) by simp
  then show "\<not> raced (slot (weak_dequeue_pos w) w) w (cons_view w)"
    using accesses_seen [OF assms(2) weak_consumer(2) [OF assms(1)] free] by (simp add: raced_def aware_def)
qed

section \<open>Simulation\<close>

text \<open>Steps of a producer outside its claim do not show in the sequentially consistent state.\<close>

lemma slot_upd [simp]:
  "slot pos (w\<lparr>weak_prods := a\<rparr>) = slot pos w" "slot pos (w\<lparr>prod_view := b\<rparr>) = slot pos w"
  "slot pos (w\<lparr>weak_cells := e\<rparr>) = slot pos w" "slot pos (w\<lparr>weak_cons := f\<rparr>) = slot pos w"
  "slot pos (w\<lparr>cons_view := b'\<rparr>) = slot pos w" "slot pos (w\<lparr>pos_log := g\<rparr>) = slot pos w"
  "slot pos (w\<lparr>weak_claimed := h\<rparr>) = slot pos w" "slot pos (w\<lparr>weak_popped := h'\<rparr>) = slot pos w"
  "slot pos (w\<lparr>weak_dequeue_pos := p\<rparr>) = slot pos w"
  by (simp_all add: slot_def)

lemma thread_ok_cells:
  assumes "weak_cells w' = weak_cells w" and "weak_mask w' = weak_mask w"
  shows "thread_ok w' pc v = thread_ok w pc v" "aware w' c n v = aware w c n v" "slot pos w' = slot pos w"
proof -
  show slot: "slot pos w' = slot pos w" for pos using assms(2) by (simp add: slot_def)
  show aware: "aware w' c n v = aware w c n v" for c n using assms(1) by (simp add: aware_def)
  show "thread_ok w' pc v = thread_ok w pc v" by (cases pc) (simp_all add: slot aware assms(1))
qed

lemma weak_set_thread:
  assumes "weak_inv cap w" and "settle (weak_prods w i) = Idle" and "settle pc = Idle" and "thread_ok w pc v"
  shows "strong (set_thread i pc v w) = strong w" "weak_inv cap (set_thread i pc v w)"
proof -
  let ?w = "set_thread i pc v w"
  show "strong ?w = strong w" using assms(2,3) by (auto simp: strong_def)
  have "weak_prods ?w j = Release_Seq pos \<longleftrightarrow> weak_prods w j = Release_Seq pos" for j pos
    using assms(2,3) by auto
  then have "in_access c ?w = in_access c w" for c by (simp add: in_access_def)
  then have "weak_cell_ok cap ?w c = weak_cell_ok cap w c" for c by (simp add: weak_cell_ok_def)
  moreover have "thread_ok ?w = thread_ok w" by (intro ext thread_ok_cells) simp_all
  moreover have "reader_ok ?w (weak_cons w) (cons_view w)"
    using weak_inv_facts(3) [OF assms(1)] by (cases "weak_cons w") (simp_all add: aware_def)
  ultimately show "weak_inv cap ?w" using assms(1,4) by (simp add: weak_inv_def)
qed

lemma load_seq_acquires:
  assumes "ring_inv cap (strong w)" and "weak_inv cap w" and "load_seq Acquire c k w v = Some (seq, v')"
  shows "k < length (seqs w c)" "stored (seqs w c ! k) = seq" "k \<le> seen_seq v' c" "k \<le> seen_data v' c"
proof -
  have c: "c < cap" using assms(3) weak_cap [OF assms(1)] by (simp add: load_seq_def split: if_splits)
  show "k < length (seqs w c)" "stored (seqs w c ! k) = seq" "k \<le> seen_seq v' c" "k \<le> seen_data v' c"
    using assms(3) weak_inv_facts(1) [OF assms(2) c]
    by (auto simp: load_seq_def weak_cell_ok_def join_view_def Let_def le_max_iff_disj split: if_splits)
qed

text \<open>Whoever finds an item with an acquire load is aware of all that the releasing thread was aware of.\<close>

lemma load_seq_takes_over:
  "load_seq Acquire c k w v = Some (seq, v') \<Longrightarrow> join_view v' (carried (seqs w c ! k)) = v'"
  by (auto simp: load_seq_def join_view_def Let_def max.assoc split: if_splits)

text \<open>
  The compare-and-swap: a thread that succeeds has read the newest sequence, however old the value
  of \<open>enqueue_pos\<close> it started from.
\<close>

lemma cas_current:
  assumes "ring_inv cap (strong w)" and "weak_inv cap w" and "weak_prods w i = Cas x pos" and "last (pos_log w) = pos"
  shows "pos = of_nat (length (weak_claimed w))" "aware w (slot pos w) 0 (prod_view w i)"
    "get_cell pos (shared (strong w)) = Some cell \<Longrightarrow> sequence cell = pos"
proof -
  note inv = ring_inv_facts [OF assms(1)]
  let ?d = "length (weak_popped w)" and ?e = "length (weak_claimed w)"
  show pos: "pos = of_nat ?e" using inv(5) assms(4) by simp
  have slot: "slot pos w = ?e mod cap" using slot_pos(1) [OF assms(1)] pos by simp
  have cap: "2 \<le> cap" by (rule weak_cap(1) [OF assms(1)])
  obtain k where k: "k < length (seqs w (?e mod cap))" "stored (seqs w (?e mod cap) ! k) = of_nat ?e"
      "k \<le> seen_seq (prod_view w i) (?e mod cap)" "k \<le> seen_data (prod_view w i) (?e mod cap)"
    using weak_inv_facts(2) [OF assms(2), of i] assms(3) slot pos by auto
  note bounds = inv(2-4) [unfolded strong_simps]
  have cur: "q' = ?e \<and> length (seqs w (?e mod cap)) = Suc k"
    if "seq_at cap (strong w) ?e = of_nat q'" "q' \<le> ?e" for q'
    using load_newest [OF assms(1,2) k(1,2) that] bounds by simp
  have "?e < ?d + cap"
  proof (rule ccontr)
    assume "\<not> ?thesis"
    then have e: "?e = ?d + cap" using bounds by simp
    then have "seq_at cap (strong w) ?e = seq_at cap (strong w) ?d" by (simp add: seq_at_def)
    then have "seq_at cap (strong w) ?e = of_nat ?d \<or> seq_at cap (strong w) ?e = of_nat (?d + 1)"
      using inv(10) [of ?d] cap by (auto simp: cell_ok_def split: if_splits)
    then show False using cur [of ?d] cur [of "?d + 1"] e cap by auto
  qed
  then have free: "seq_at cap (strong w) ?e = of_nat ?e" using inv(10) [of ?e] bounds by (simp add: cell_ok_def)
  note newest = cur [OF free order_refl, THEN conjunct2] free
  show "aware w (slot pos w) 0 (prod_view w i)" using newest k slot by (simp add: aware_def)
  show "sequence cell = pos" if "get_cell pos (shared (strong w)) = Some cell"
    using that newest(2) ring_cells(1) [OF inv(1), of ?e] unfolding pos by (simp add: seq_at_def)
qed

lemma sim_cas_done:
  assumes "ring_inv cap (strong w)" and "weak_inv cap w" and "weak_prods w i = Cas x pos" and "last (pos_log w) = pos"
  defines "w' \<equiv> (set_thread i (Store_Data x pos) ((prod_view w i)\<lparr>seen_pos := length (pos_log w)\<rparr>) w)
      \<lparr>pos_log := pos_log w @ [pos + 1], weak_claimed := weak_claimed w @ [x]\<rparr>"
  shows "step\<^sup>*\<^sup>* (strong w) (strong w') \<and> weak_inv cap w'"
proof
  note cur = cas_current [OF assms(1-4)]
  obtain cell where cell: "get_cell pos (shared (strong w)) = Some cell"
    using ring_cells(1) [OF ring_inv_facts(1) [OF assms(1)]] cur(1) by simp
  let ?s = "strong w" and ?load = "set_prod i (Load_Seq x pos) (strong w)" and ?cas = "set_prod i (Cas x pos) (strong w)"
  have "step ?s ?load" using enter [of ?s i x] assms(3,4) by simp
  moreover have "step ?load ?cas"
    using seq_equal [of ?load i x pos cell 0] cell cur(3) [OF cell] by (simp add: seq_diff_def in_i64_def)
  moreover have "step ?cas (strong w')"
    using cas_done [of ?cas i x pos] assms(4) by (auto simp: strong_def w'_def fun_upd_def if_distrib cong: if_cong)
  ultimately show "step\<^sup>*\<^sup>* ?s (strong w')" by (meson converse_rtranclp_into_rtranclp rtranclp.rtrancl_refl)
  have "weak_prods w' j = Release_Seq p \<longleftrightarrow> weak_prods w j = Release_Seq p" for j p
    using assms(3) by (auto simp: w'_def)
  then have "in_access c w' = in_access c w" for c by (simp add: in_access_def w'_def)
  then have "weak_cell_ok cap w' c = weak_cell_ok cap w c" for c by (simp add: weak_cell_ok_def w'_def)
  moreover have "thread_ok w' = thread_ok w" "aware w' = aware w" "slot p w' = slot p w" for p
    by (intro ext thread_ok_cells; simp add: w'_def)+
  moreover have "reader_ok w' (weak_cons w) (cons_view w)"
    using weak_inv_facts(3) [OF assms(2)] by (cases "weak_cons w") (simp_all add: aware_def w'_def)
  ultimately show "weak_inv cap w'"
    using assms(2) cur(2) by (simp add: weak_inv_def) (simp add: w'_def aware_def)
qed

text \<open>
  Steps that write to the cell \<open>c0\<close>: what holds of the other cells and of the threads that have not
  claimed \<open>c0\<close> stays.
\<close>

lemma weak_inv_write:
  assumes "ring_inv cap (strong w)" and "weak_inv cap w" and "c0 < cap" and "weak_mask w' = weak_mask w"
    and "weak_cells w' = (weak_cells w)[c0 := cell]" and "seq_log cell = seqs w c0 @ ms"
    and "weak_cell_ok cap w' c0" and "\<And>c. c \<noteq> c0 \<Longrightarrow> in_access c w' = in_access c w"
    and "\<And>j. j \<in> I \<Longrightarrow> thread_ok w' (weak_prods w' j) (prod_view w' j)"
    and "\<And>j. j \<notin> I \<Longrightarrow> weak_prods w' j = weak_prods w j \<and> prod_view w' j = prod_view w j"
    and "\<And>j pos. j \<notin> I \<Longrightarrow> owns (weak_prods w j) pos \<Longrightarrow> slot pos w \<noteq> c0"
    and "reader_ok w' (weak_cons w') (cons_view w')"
  shows "weak_inv cap w'"
proof -
  have slot: "slot pos w' = slot pos w" for pos using assms(4) by (simp add: slot_def)
  have len: "c0 < length (weak_cells w)" using assms(3) weak_cap(2) [OF assms(1)] by simp
  have other: "weak_cells w' ! c = weak_cells w ! c" if "c \<noteq> c0" for c using assms(5) that by simp
  have logs: "seqs w' c = seqs w c @ (if c = c0 then ms else [])" for c
    using assms(5,6) len other by (cases "c = c0") simp_all
  have "weak_cell_ok cap w' c" if "c < cap" for c
    using assms(7) assms(8) [of c] weak_inv_facts(1) [OF assms(2) that] other [of c]
    by (cases "c = c0") (simp_all add: weak_cell_ok_def)
  moreover have "thread_ok w' (weak_prods w' j) (prod_view w' j)" for j
  proof (cases "j \<in> I")
    case False
    then have keep: "weak_prods w' j = weak_prods w j" "prod_view w' j = prod_view w j" using assms(10) by auto
    have "thread_ok w (weak_prods w j) (prod_view w j)" by (rule weak_inv_facts(2) [OF assms(2)])
    then show ?thesis
      using assms(11) [OF False] unfolding keep
      by (cases "weak_prods w j") (auto simp: slot logs aware_def nth_append intro: less_imp_le split: if_splits)
  qed (rule assms(9))
  ultimately show ?thesis using assms(12) by (simp add: weak_inv_def)
qed

lemma thread_not_in_access:
  assumes "\<And>j pos. j \<notin> I \<Longrightarrow> weak_prods w' j = weak_prods w j"
    and "\<And>j pos. j \<in> I \<Longrightarrow> weak_prods w j = Release_Seq pos \<or> weak_prods w' j = Release_Seq pos \<Longrightarrow> slot pos w \<noteq> c"
    and "weak_mask w' = weak_mask w" and "weak_cons w' = weak_cons w" and "weak_dequeue_pos w' = weak_dequeue_pos w"
  shows "in_access c w' = in_access c w"
proof -
  have slot: "slot pos w' = slot pos w" for pos using assms(3) by (simp add: slot_def)
  have "weak_prods w' j = Release_Seq pos \<and> slot pos w = c \<longleftrightarrow> weak_prods w j = Release_Seq pos \<and> slot pos w = c" for j pos
    using assms(1,2) [of j] by (cases "j \<in> I") auto
  then show ?thesis by (simp add: in_access_def slot assms(4,5))
qed

lemma sim_store_data:
  assumes "ring_inv cap (strong w)" and "weak_inv cap w" and "weak_prods w i = Store_Data x pos" and "c = slot pos w"
  defines "w' \<equiv> set_thread i (Release_Seq pos) (see_access c w (prod_view w i)) (access_data c x w)"
  shows "step\<^sup>*\<^sup>* (strong w) (strong w') \<and> weak_inv cap w'"
proof
  have own: "owns (weak_prods w i) pos" using assms(3) by simp
  note excl = weak_owner [OF assms(1) own, folded assms(4)]
  note free = producer_no_race [OF assms(1-3), folded assms(4)]
  have len: "c < length (weak_cells w)" using excl(3) weak_cap(2) [OF assms(1)] by simp
  have "strong w' = (set_prod i (Release_Seq pos) (strong w))
      \<lparr>shared := upd_cell pos (\<lambda>c. c\<lparr>cell_data := x\<rparr>) (shared (strong w))\<rparr>"
    using len by (auto simp: strong_def w'_def access_data_def upd_cell_def cell_of_def slot_def assms(4) map_update newest_def)
  then show "step\<^sup>*\<^sup>* (strong w) (strong w')" using store_data [of "strong w" i x pos] assms(3) by (auto intro: r_into_rtranclp)
  have aware: "aware w c 0 (prod_view w i)" using weak_inv_facts(2) [OF assms(2), of i] assms(3,4) by simp
  have now: "in_access c w'" using assms(4) by (auto simp: in_access_def w'_def access_data_def)
  show "weak_inv cap w'"
  proof (rule weak_inv_write [OF assms(1,2) excl(3), where I = "{i}" and ms = "[]"])
    show "weak_cells w' = (weak_cells w)[c := (weak_cells w ! c)\<lparr>plain_data := x, accesses := accesses (weak_cells w ! c) + 1\<rparr>]"
      by (simp add: w'_def access_data_def)
    show "weak_cell_ok cap w' c"
      using weak_inv_facts(1) [OF assms(2) excl(3)] free(1) now len by (simp add: weak_cell_ok_def w'_def access_data_def)
    show "in_access c' w' = in_access c' w" if "c' \<noteq> c" for c'
      by (rule thread_not_in_access [where I = "{i}"]) (use that assms(3,4) in \<open>auto simp: w'_def access_data_def\<close>)
    show "thread_ok w' (weak_prods w' j) (prod_view w' j)" if "j \<in> {i}" for j
      using that aware accesses_seen [OF assms(2) excl(3) free(1)] len assms(4)
      by (simp add: w'_def access_data_def aware_def see_access_def)
    show "slot pos' w \<noteq> c" if "j \<notin> {i}" "owns (weak_prods w j) pos'" for j pos' using that excl(1) by blast
    show "reader_ok w' (weak_cons w') (cons_view w')"
      using weak_inv_facts(3) [OF assms(2)] excl(2) by (cases "weak_cons w") (simp_all add: w'_def access_data_def aware_def)
  qed (simp_all add: w'_def access_data_def)
qed

lemma see_store_data [simp]: "seen_data (see_store c w v) = seen_data v"
  by (simp add: see_store_def)

lemma weak_cell_ok_store:
  assumes "weak_cell_ok cap w c" and "in_access c w" and "\<not> in_access c w'"
    and "weak_cells w' ! c = (weak_cells w ! c)\<lparr>seq_log := seqs w c @ [\<lparr>stored = of_nat q, carried = v\<rparr>]\<rparr>"
    and "seq_value cap c (length (seqs w c)) = q" and "q < 2 ^ 63" and "length (seqs w c) \<le> seen_data v c"
  shows "weak_cell_ok cap w' c"
  using assms by (auto simp: weak_cell_ok_def nth_append less_Suc_eq)

lemma sim_release_seq:
  assumes "ring_inv cap (strong w)" and "weak_inv cap w" and "weak_prods w i = Release_Seq pos" and "c = slot pos w"
  defines "w' \<equiv> set_thread i Idle (see_store c w (prod_view w i)) (store_seq Release c (pos + 1) (prod_view w i) w)"
  shows "step\<^sup>*\<^sup>* (strong w) (strong w') \<and> weak_inv cap w'"
proof
  have own: "owns (weak_prods w i) pos" using assms(3) by simp
  note excl = weak_owner [OF assms(1) own, folded assms(4)]
  have len: "c < length (weak_cells w)" using excl(3) weak_cap(2) [OF assms(1)] by simp
  have "strong w' = (set_prod i Idle (strong w))
      \<lparr>shared := upd_cell pos (\<lambda>c. c\<lparr>sequence := pos + 1\<rparr>) (shared (strong w))\<rparr>"
    using len by (auto simp: strong_def w'_def store_seq_def upd_cell_def cell_of_def slot_def assms(4) map_update newest_def)
  then show "step\<^sup>*\<^sup>* (strong w) (strong w')" using release_seq [of "strong w" i pos] assms(3) by (auto intro: r_into_rtranclp)
  have "owns (prods (strong w) i) pos" using own by simp
  then obtain p where p: "pos = of_nat p" "seq_at cap (strong w) p = of_nat p" "p < length (claimed (strong w))"
    by (rule owner_pos [OF assms(1)])
  have lt: "p + 1 < 2 ^ 63" using p(3) ring_inv_facts(2) [OF assms(1)] weak_cap(1) [OF assms(1)] by linarith
  have c: "c = p mod cap" using assms(4) p(1) slot_pos(1) [OF assms(1)] by simp
  obtain n where n: "length (seqs w c) = Suc n" "seq_at cap (strong w) p = of_nat (seq_value cap c n)" "seq_value cap c n < 2 ^ 63"
    unfolding c by (rule newest_value [OF assms(1,2)])
  then have "seq_value cap c n = p" using p(2) pos_eq_iff [of p "seq_value cap c n"] lt by simp
  then have val: "seq_value cap c (length (seqs w c)) = p + 1" using seq_value_publish [OF weak_cap(1) [OF assms(1)]] n(1) c by simp
  have aware: "aware w c 1 (prod_view w i)" using weak_inv_facts(2) [OF assms(2), of i] assms(3,4) by simp
  show "weak_inv cap w'"
  proof (rule weak_inv_write [OF assms(1,2) excl(3), where I = "{i}"])
    show "weak_cells w' = (weak_cells w)[c := (weak_cells w ! c)\<lparr>seq_log := seqs w c @
        [\<lparr>stored = of_nat (p + 1), carried = see_store c w (prod_view w i)\<rparr>]\<rparr>]"
      by (simp add: w'_def store_seq_def p(1) add.commute)
    show "weak_cell_ok cap w' c"
    proof (rule weak_cell_ok_store [OF weak_inv_facts(1) [OF assms(2) excl(3)] _ _ _ val lt, where v = "see_store c w (prod_view w i)"])
      show "in_access c w" using assms(3,4) by (auto simp: in_access_def)
      show "\<not> in_access c w'" using excl(1,2) by (fastforce simp: in_access_def w'_def store_seq_def split: if_splits)
    qed (use len aware in \<open>simp_all add: w'_def store_seq_def aware_def p(1) add.commute\<close>)
    show "in_access c' w' = in_access c' w" if "c' \<noteq> c" for c'
      by (rule thread_not_in_access [where I = "{i}"]) (use that assms(3,4) in \<open>auto simp: w'_def store_seq_def\<close>)
    show "slot pos' w \<noteq> c" if "j \<notin> {i}" "owns (weak_prods w j) pos'" for j pos' using that excl(1) by blast
    show "reader_ok w' (weak_cons w') (cons_view w')"
      using weak_inv_facts(3) [OF assms(2)] excl(2) by (cases "weak_cons w") (simp_all add: w'_def store_seq_def aware_def)
  qed (simp_all add: w'_def store_seq_def)
qed

text \<open>The consumer.\<close>

lemma weak_set_cons:
  assumes "weak_inv cap w" and "weak_cons w = Look" and "pc = Look \<or> pc = Copy_Data" and "reader_ok w pc v"
  shows "weak_inv cap (w\<lparr>weak_cons := pc, cons_view := v\<rparr>)"
proof -
  let ?w = "w\<lparr>weak_cons := pc, cons_view := v\<rparr>"
  have "in_access c ?w = in_access c w" for c using assms(2,3) by (auto simp: in_access_def)
  then have "weak_cell_ok cap ?w c = weak_cell_ok cap w c" for c by (simp add: weak_cell_ok_def)
  moreover have "thread_ok ?w = thread_ok w" by (intro ext thread_ok_cells) simp_all
  moreover have "reader_ok ?w pc v" using assms(3,4) by (auto simp: aware_def)
  ultimately show ?thesis using assms(1) by (simp add: weak_inv_def)
qed

lemma sim_look_ready:
  assumes "ring_inv cap (strong w)" and "weak_inv cap w" and "weak_cons w = Look"
    and "load_seq Acquire (slot (weak_dequeue_pos w) w) k w (cons_view w) = Some (seq, v)"
    and "seq_diff seq (weak_dequeue_pos w + 1) = Some 0"
  defines "w' \<equiv> w\<lparr>weak_cons := Copy_Data, cons_view := v\<rparr>"
  shows "step\<^sup>*\<^sup>* (strong w) (strong w') \<and> weak_inv cap w'"
proof
  note inv = ring_inv_facts [OF assms(1)]
  note got = load_seq_acquires [OF assms(1,2,4), unfolded weak_consumer(1) [OF assms(1)]]
  let ?d = "length (weak_popped w)"
  have seq: "seq = of_nat (?d + 1)" using seq_diff_zero [OF assms(5)] inv(6) by (simp add: add.commute)
  have lt: "?d + 1 < 2 ^ 63" using consumer_cell(3) [OF assms(1)] by simp
  have "seq_at cap (strong w) ?d = of_nat ?d \<or> seq_at cap (strong w) ?d = of_nat (?d + 1)"
    using inv(10) [of ?d] weak_cap(1) [OF assms(1)] by (auto simp: cell_ok_def split: if_splits)
  then have cur: "length (seqs w (?d mod cap)) = Suc k" "seq_at cap (strong w) ?d = of_nat (?d + 1)"
    using load_newest [OF assms(1,2) got(1) got(2) [unfolded seq] _ _ lt, of ?d]
      load_newest [OF assms(1,2) got(1) got(2) [unfolded seq] _ _ lt, of "?d + 1"] by auto
  show "weak_inv cap w'"
    unfolding w'_def by (rule weak_set_cons [OF assms(2,3)]) (use got cur in \<open>simp_all add: aware_def weak_consumer(1) [OF assms(1)]\<close>)
  have "step (strong w) ((strong w)\<lparr>cons := Copy_Data\<rparr>)"
  proof (rule look_ready)
    show "get_cell (dequeue_pos (shared (strong w))) (shared (strong w)) = Some (buffer (shared (strong w)) ! (?d mod cap))"
      using consumer_cell(1) [OF assms(1)] by simp
    show "seq_diff (sequence (buffer (shared (strong w)) ! (?d mod cap))) (dequeue_pos (shared (strong w)) + 1) = Some 0"
      using assms(5) seq cur(2) by (simp add: seq_at_def)
  qed (simp add: assms(3))
  moreover have "strong w' = (strong w)\<lparr>cons := Copy_Data\<rparr>" by (simp add: strong_def w'_def)
  ultimately show "step\<^sup>*\<^sup>* (strong w) (strong w')" by auto
qed

lemma sim_copy_data:
  assumes "ring_inv cap (strong w)" and "weak_inv cap w" and "weak_cons w = Copy_Data" and "c = slot (weak_dequeue_pos w) w"
  defines "x \<equiv> plain_data (weak_cells w ! c)"
  defines "w' \<equiv> (access_data c x w)\<lparr>weak_cons := Release_Cell x, cons_view := see_access c w (cons_view w)\<rparr>"
  shows "step\<^sup>*\<^sup>* (strong w) (strong w') \<and> weak_inv cap w'"
proof
  note c = weak_consumer [OF assms(1), folded assms(4)]
  note free = consumer_no_race [OF assms(1-3), folded assms(4)]
  have len: "c < length (weak_cells w)" using c(2) weak_cap(2) [OF assms(1)] by simp
  have "map newest ((weak_cells w)[c := (weak_cells w ! c)\<lparr>plain_data := x, accesses := n\<rparr>]) = map newest (weak_cells w)" for n
    using len by (simp add: map_update newest_def x_def list_update_same_conv)
  then have "strong w' = (strong w)\<lparr>cons := Release_Cell x\<rparr>" by (simp add: strong_def w'_def access_data_def)
  moreover have "get_cell (dequeue_pos (shared (strong w))) (shared (strong w)) = Some (newest (weak_cells w ! c))"
    using consumer_cell(1) [OF assms(1)] c(1) len by simp
  ultimately show "step\<^sup>*\<^sup>* (strong w) (strong w')"
    using copy_data [of "strong w"] assms(3) by (auto simp: newest_def x_def intro: r_into_rtranclp)
  have aware: "aware w c 0 (cons_view w)" using weak_inv_facts(3) [OF assms(2)] assms(3,4) by simp
  show "weak_inv cap w'"
  proof (rule weak_inv_write [OF assms(1,2) c(2), where I = "{}" and ms = "[]"])
    show "weak_cells w' = (weak_cells w)[c := (weak_cells w ! c)\<lparr>plain_data := x, accesses := accesses (weak_cells w ! c) + 1\<rparr>]"
      by (simp add: w'_def access_data_def)
    have "in_access c w'" using assms(4) by (auto simp: in_access_def w'_def access_data_def)
    then show "weak_cell_ok cap w' c"
      using weak_inv_facts(1) [OF assms(2) c(2)] free(1) len by (simp add: weak_cell_ok_def w'_def access_data_def)
    show "in_access c' w' = in_access c' w" if "c' \<noteq> c" for c'
      using that assms(3,4) by (auto simp: in_access_def w'_def access_data_def)
    show "slot pos w \<noteq> c" if "owns (weak_prods w j) pos" for j pos
      using weak_owner(2) [OF assms(1) that] assms(3,4) by simp
    show "reader_ok w' (weak_cons w') (cons_view w')"
      using aware accesses_seen [OF assms(2) c(2) free(1)] len assms(4)
      by (simp add: w'_def access_data_def aware_def see_access_def)
  qed (simp_all add: w'_def access_data_def)
qed

lemma sim_release_cell:
  assumes "ring_inv cap (strong w)" and "weak_inv cap w" and "weak_cons w = Release_Cell x"
    and "pos = weak_dequeue_pos w" and "c = slot pos w"
  defines "w' \<equiv> (store_seq Release c (pos + weak_mask w + 1) (cons_view w) w)
      \<lparr>cons_view := see_store c w (cons_view w), weak_dequeue_pos := pos + 1, weak_cons := Look,
       weak_popped := weak_popped w @ [x]\<rparr>"
  shows "step\<^sup>*\<^sup>* (strong w) (strong w') \<and> weak_inv cap w'"
proof
  note inv = ring_inv_facts [OF assms(1), unfolded strong_simps]
  note c = weak_consumer [OF assms(1), folded assms(4), folded assms(5)]
  let ?d = "length (weak_popped w)"
  have len: "c < length (weak_cells w)" using c(2) weak_cap(2) [OF assms(1)] by simp
  have "strong w' = (strong w)\<lparr>shared := (upd_cell pos (\<lambda>c. c\<lparr>sequence := pos + ring_mask (shared (strong w)) + 1\<rparr>) (shared (strong w)))
        \<lparr>dequeue_pos := pos + 1\<rparr>, cons := Look, popped := popped (strong w) @ [x]\<rparr>"
    using len by (simp add: strong_def w'_def store_seq_def upd_cell_def cell_of_def slot_def assms(5) map_update newest_def)
  then show "step\<^sup>*\<^sup>* (strong w) (strong w')"
    using release_cell [of "strong w" x pos] assms(3,4) by (auto intro: r_into_rtranclp)
  have ready: "?d < length (weak_claimed w)" "seq_at cap (strong w) ?d = of_nat (?d + 1)" using inv(11) assms(3) by simp_all
  have lt: "?d + 1 < 2 ^ 63" "?d + cap < 2 ^ 63" using consumer_cell(3) [OF assms(1)] inv(2) ready(1) by simp_all
  obtain n where n: "length (seqs w c) = Suc n" "seq_at cap (strong w) ?d = of_nat (seq_value cap c n)" "seq_value cap c n < 2 ^ 63"
    unfolding c(1) by (rule newest_value [OF assms(1,2)])
  then have "seq_value cap c n = ?d + 1" using ready(2) pos_eq_iff [of "?d + 1" "seq_value cap c n"] lt(1) by simp
  then have val: "seq_value cap c (length (seqs w c)) = ?d + cap" using seq_value_free [OF weak_cap(1) [OF assms(1)]] n(1) c(1) by simp
  have mask: "pos + weak_mask w + 1 = of_nat (?d + cap)"
    using inv(1,6) weak_cap(1) [OF assms(1)] assms(4) by (simp add: ring_shape_def of_nat_diff)
  have aware: "aware w c 1 (cons_view w)" using weak_inv_facts(3) [OF assms(2)] assms(3-5) by simp
  have alone: "slot p w \<noteq> c" if "owns (weak_prods w j) p" for j p
    using weak_owner(2) [OF assms(1) that] assms(3-5) by simp
  show "weak_inv cap w'"
  proof (rule weak_inv_write [OF assms(1,2) c(2), where I = "{}"])
    show "weak_cells w' = (weak_cells w)[c := (weak_cells w ! c)\<lparr>seq_log := seqs w c @
        [\<lparr>stored = of_nat (?d + cap), carried = see_store c w (cons_view w)\<rparr>]\<rparr>]"
      by (simp add: w'_def store_seq_def mask)
    show "weak_cell_ok cap w' c"
    proof (rule weak_cell_ok_store [OF weak_inv_facts(1) [OF assms(2) c(2)] _ _ _ val lt(2), where v = "see_store c w (cons_view w)"])
      show "in_access c w" using assms(3-5) by (simp add: in_access_def)
      show "\<not> in_access c w'"
        using alone by (auto simp: in_access_def w'_def store_seq_def dest!: release_owns)
    qed (use len aware in \<open>simp_all add: w'_def store_seq_def aware_def mask\<close>)
    show "in_access c' w' = in_access c' w" if "c' \<noteq> c" for c'
      using that assms(3-5) by (auto simp: in_access_def w'_def store_seq_def)
  qed (use alone in \<open>simp_all add: w'_def store_seq_def\<close>)
qed

lemma weak_simulation:
  assumes "weak_step w w'" and "ring_inv cap (strong w)" and "weak_inv cap w"
  shows "step\<^sup>*\<^sup>* (strong w) (strong w') \<and> weak_inv cap w'"
  using assms(1)
proof cases
  case (weak_seq_equal i x pos k seq v diff)
  note got = load_seq_acquires [OF assms(2,3) weak_seq_equal(3)]
  have "thread_ok w (Cas x pos) v" using got seq_diff_zero [of seq pos] weak_seq_equal(4,5) by auto
  then show ?thesis using weak_set_thread [OF assms(3), of i "Cas x pos" v] weak_seq_equal(1,2) by simp
next
  case (weak_store_data i x pos c y)
  then show ?thesis using sim_store_data [OF assms(2,3), of i x pos] producer_no_race(2) [OF assms(2,3), of i x pos] by auto
next
  case (weak_look_empty k seq v diff)
  have "weak_inv cap (w\<lparr>weak_cons := Look, cons_view := v\<rparr>)" using weak_set_cons [OF assms(3), of Look v] weak_look_empty(2) by simp
  also have "w\<lparr>weak_cons := Look, cons_view := v\<rparr> = w'" using weak_look_empty(1,2) by (cases w) simp
  finally show ?thesis using weak_look_empty(1) by (simp add: strong_def)
next
  case (weak_copy_data c x)
  then show ?thesis using sim_copy_data [OF assms(2,3)] consumer_no_race(2) [OF assms(2,3)] by auto
qed (use weak_set_thread [OF assms(3)] sim_cas_done [OF assms(2,3)] sim_release_seq [OF assms(2,3)]
    sim_look_ready [OF assms(2,3)] sim_release_cell [OF assms(2,3)] in simp_all)

lemma weak_start_inv:
  assumes "0 < m" and "m < 62"
  shows "strong (weak_start (2 ^ m) init) = start (2 ^ m) init" "weak_inv (2 ^ m) (weak_start (2 ^ m) init)"
proof -
  show "strong (weak_start (2 ^ m) init) = start (2 ^ m) init"
    by (simp add: strong_def weak_start_def start_def new_ring_def newest_def)
  have "unat (2 ^ m :: u64) = 2 ^ m"
    using new_ring_rel [OF refl assms, of init] by (simp add: ring_rel_def ring_shape_def new_ring_def)
  moreover have "(2::nat) ^ m < 2 ^ 63" by (rule power_strict_increasing) (use assms(2) in auto)
  ultimately show "weak_inv (2 ^ m) (weak_start (2 ^ m) init)"
    by (auto simp: weak_inv_def weak_start_def weak_cell_ok_def in_access_def seq_value_def)
qed

lemma weak_reachable:
  assumes "weak_step\<^sup>*\<^sup>* (weak_start (2 ^ m) init) w" and "0 < m" and "m < 62" and "length (weak_claimed w) + 2 ^ m < 2 ^ 63"
  shows "step\<^sup>*\<^sup>* (start (2 ^ m) init) (strong w) \<and> weak_inv (2 ^ m) w"
  using assms(1,4)
proof (induction rule: rtranclp_induct)
  case base
  then show ?case using weak_start_inv [OF assms(2,3), of init] by simp
next
  case (step w w')
  have "length (weak_claimed w) \<le> length (weak_claimed w')" using step(2) by cases (auto simp: access_data_def store_seq_def)
  then have bound: "length (weak_claimed w) + 2 ^ m < 2 ^ 63" using step(4) by linarith
  note before = step(3) [OF bound]
  have "ring_inv (2 ^ m) (strong w)" by (rule reachable_inv [OF before [THEN conjunct1] assms(2,3)]) (use bound in simp)
  then show ?case using weak_simulation [OF step(2)] before by (meson rtranclp_trans)
qed

section \<open>Undisturbed calls\<close>

text \<open>A call of \<open>try_push\<close> or \<open>try_pop\<close> that reads the newest values only and is not interrupted.\<close>

definition acquired :: "nat \<Rightarrow> 'a weak_system \<Rightarrow> view \<Rightarrow> view" where
  "acquired c w v =
     join_view (v\<lparr>seen_seq := (seen_seq v)(c := length (seqs w c) - 1)\<rparr>) (carried (last (seqs w c)))"

definition quiet_push :: "nat \<Rightarrow> 'a \<Rightarrow> 'a weak_system \<Rightarrow> 'a weak_system" where
  "quiet_push i x w =
     (let pos = last (pos_log w); c = slot pos w;
        v = (acquired c w ((prod_view w i)\<lparr>seen_pos := length (pos_log w) - 1\<rparr>))\<lparr>seen_pos := length (pos_log w)\<rparr>
      in set_thread i Idle (see_store c w (see_access c w v)) (store_seq Release c (pos + 1) (see_access c w v)
           (access_data c x (w\<lparr>pos_log := pos_log w @ [pos + 1], weak_claimed := weak_claimed w @ [x]\<rparr>))))"

definition quiet_pop :: "'a weak_system \<Rightarrow> 'a weak_system" where
  "quiet_pop w =
     (let pos = weak_dequeue_pos w; c = slot pos w; x = plain_data (weak_cells w ! c); v = see_access c w (acquired c w (cons_view w))
      in (store_seq Release c (pos + weak_mask w + 1) v (access_data c x w))
           \<lparr>cons_view := see_store c w v, weak_dequeue_pos := pos + 1, weak_cons := Look, weak_popped := weak_popped w @ [x]\<rparr>)"

definition current_view :: "nat \<Rightarrow> 'a weak_system \<Rightarrow> view \<Rightarrow> bool" where
  "current_view c w v \<longleftrightarrow> c < length (weak_cells w) \<and> seqs w c \<noteq> [] \<and> seen_seq v c < length (seqs w c)"

lemma load_seq_cells: "weak_cells w' = weak_cells w \<Longrightarrow> load_seq order c k w' v = load_seq order c k w v"
  by (simp add: load_seq_def)

lemma load_seq_newest:
  "current_view c w v \<Longrightarrow> load_seq Acquire c (length (seqs w c) - 1) w v = Some (stored (last (seqs w c)), acquired c w v)"
  by (auto simp: current_view_def load_seq_def acquired_def last_conv_nth Let_def)

lemma quiet_push_runs:
  assumes "weak_prods w i = Idle" and "pos_log w \<noteq> []" and "seen_pos (prod_view w i) < length (pos_log w)"
    and "current_view (slot (last (pos_log w)) w) w (prod_view w i)"
    and "stored (last (seqs w (slot (last (pos_log w)) w))) = last (pos_log w)"
  shows "weak_step\<^sup>*\<^sup>* w (quiet_push i x w)"
proof -
  define pos c v1 v2 where "pos = last (pos_log w)" and "c = slot pos w"
    and "v1 = (prod_view w i)\<lparr>seen_pos := length (pos_log w) - 1\<rparr>" and "v2 = (acquired c w v1)\<lparr>seen_pos := length (pos_log w)\<rparr>"
  define w1 w2 w3 w4 where "w1 = set_thread i (Load_Seq x pos) v1 w" and "w2 = set_thread i (Cas x pos) (acquired c w v1) w"
    and "w3 = (set_thread i (Store_Data x pos) v2 w)\<lparr>pos_log := pos_log w @ [pos + 1], weak_claimed := weak_claimed w @ [x]\<rparr>"
    and "w4 = set_thread i (Release_Seq pos) (see_access c w v2) (access_data c x w3)"
  have len: "c < length (weak_cells w)" using assms(4) by (simp add: current_view_def c_def pos_def)
  have "weak_step w w1"
    unfolding w1_def
    by (rule weak_enter [where k = "length (pos_log w) - 1"]) (use assms(1-3) in \<open>auto simp: load_pos_def last_conv_nth pos_def v1_def\<close>)
  moreover have "weak_step w1 w2"
  proof -
    have "current_view c w v1" using assms(4) by (simp add: current_view_def c_def pos_def v1_def)
    then have "load_seq Acquire (slot pos w1) (length (seqs w c) - 1) w1 (prod_view w1 i) = Some (pos, acquired c w v1)"
      using load_seq_newest [of c w v1] load_seq_cells [of w1 w] assms(5) by (simp add: w1_def c_def pos_def)
    then show ?thesis
      using weak_seq_equal [of w1 i x pos _ pos _ 0] by (simp add: w1_def w2_def seq_diff_def in_i64_def)
  qed
  moreover have "weak_step w2 w3" using weak_cas_done [of w2 i x pos] by (simp add: w2_def w3_def pos_def v2_def)
  moreover have "weak_step w3 w4"
    using weak_store_data [of w3 i x pos c x] by (simp add: w3_def w4_def c_def see_access_def access_data_def)
  moreover have "weak_step w4 (quiet_push i x w)"
    using weak_release_seq [of w4 i pos c] len
    by (simp add: w3_def w4_def c_def pos_def v2_def v1_def quiet_push_def Let_def see_store_def store_seq_def access_data_def see_access_def)
  ultimately show ?thesis by (meson converse_rtranclp_into_rtranclp rtranclp.rtrancl_refl)
qed

lemma quiet_pop_runs:
  assumes "weak_cons w = Look" and "current_view (slot (weak_dequeue_pos w) w) w (cons_view w)"
    and "stored (last (seqs w (slot (weak_dequeue_pos w) w))) = weak_dequeue_pos w + 1"
  shows "weak_step\<^sup>*\<^sup>* w (quiet_pop w)"
proof -
  define pos c x v where "pos = weak_dequeue_pos w" and "c = slot pos w" and "x = plain_data (weak_cells w ! c)"
    and "v = acquired c w (cons_view w)"
  define w1 w2 where "w1 = w\<lparr>weak_cons := Copy_Data, cons_view := v\<rparr>"
    and "w2 = (access_data c x w1)\<lparr>weak_cons := Release_Cell x, cons_view := see_access c w v\<rparr>"
  have len: "c < length (weak_cells w)" using assms(2) by (simp add: current_view_def c_def pos_def)
  have "weak_step w w1"
    using weak_look_ready [OF assms(1) load_seq_newest [OF assms(2)]] assms(3)
    by (simp add: seq_diff_def in_i64_def w1_def v_def c_def pos_def)
  moreover have "weak_step w1 w2"
    using weak_copy_data [of w1 c x] by (simp add: w1_def w2_def x_def c_def pos_def see_access_def access_data_def)
  moreover have "weak_step w2 (quiet_pop w)"
    using weak_release_cell [of w2 x pos c] len assms(1)
    by (simp add: w1_def w2_def x_def c_def pos_def v_def quiet_pop_def Let_def see_store_def store_seq_def access_data_def see_access_def)
  ultimately show ?thesis by (meson converse_rtranclp_into_rtranclp rtranclp.rtrancl_refl)
qed

section \<open>A run\<close>

text \<open>
  With capacity 2, producer 0 pushes two items and the consumer takes both; then producer 1, which has
  not synchronised with anyone, loads the newest position.
\<close>

definition demo_view :: "nat \<Rightarrow> nat \<Rightarrow> nat \<Rightarrow> view" where
  "demo_view p a b = \<lparr>seen_pos = p, seen_seq = (\<lambda>_. 0)(0 := a, 1 := b), seen_data = (\<lambda>_. 0)(0 := a, 1 := b)\<rparr>"

definition demo_cell :: "(u64 \<times> view) list \<Rightarrow> nat \<Rightarrow> nat weak_cell" where
  "demo_cell ms x = \<lparr>seq_log = map (\<lambda>(n, v). \<lparr>stored = n, carried = v\<rparr>) ms, plain_data = x, accesses = length ms - 1\<rparr>"

definition demo_weak :: "nat weak_cell list \<Rightarrow> u64 list \<Rightarrow> view \<Rightarrow> view \<Rightarrow> nat list \<Rightarrow> nat list \<Rightarrow> nat weak_system" where
  "demo_weak cells ps v u xs ys =
     \<lparr>weak_mask = 1, weak_cells = cells, pos_log = ps, weak_dequeue_pos = of_nat (length ys), weak_prods = (\<lambda>_. Idle),
      prod_view = (\<lambda>_. demo_view 0 0 0)(0 := v), weak_cons = Look, cons_view = u, weak_claimed = xs, weak_popped = ys\<rparr>"

definition demo_full :: "nat weak_system" where
  "demo_full = demo_weak [demo_cell [(0, demo_view 0 0 0), (1, demo_view 1 1 0)] 7,
      demo_cell [(1, demo_view 0 0 0), (2, demo_view 2 1 1)] 8] [0, 1, 2] (demo_view 2 1 1) (demo_view 0 0 0) [7, 8] []"

definition demo_drained :: "nat weak_system" where
  "demo_drained = demo_weak [demo_cell [(0, demo_view 0 0 0), (1, demo_view 1 1 0), (2, demo_view 1 2 0)] 7,
      demo_cell [(1, demo_view 0 0 0), (2, demo_view 2 1 1), (3, demo_view 2 2 2)] 8] [0, 1, 2] (demo_view 2 1 1) (demo_view 2 2 2)
      [7, 8] [7, 8]"

definition demo_stale :: "nat weak_system" where
  "demo_stale = set_thread 1 (Load_Seq 9 2) (demo_view 2 0 0) demo_drained"

definition demo_copying :: "nat weak_system" where
  "demo_copying = demo_full\<lparr>weak_cons := Copy_Data, cons_view := acquired 0 demo_full (cons_view demo_full)\<rparr>"

lemmas demo_simps = quiet_push_def quiet_pop_def weak_start_def slot_def Let_def store_seq_def access_data_def
  see_store_def see_access_def acquired_def join_view_def no_view_def current_view_def demo_view_def demo_cell_def
  demo_weak_def demo_full_def demo_drained_def

lemma demo_start: "weak_start (2 ^ 1) 0 =
    demo_weak [demo_cell [(0, demo_view 0 0 0)] 0, demo_cell [(1, demo_view 0 0 0)] 0] [0] (demo_view 0 0 0) (demo_view 0 0 0) [] []"
  by (auto simp: demo_simps fun_eq_iff upt_rec)

lemma demo_full_reached: "weak_step\<^sup>*\<^sup>* (weak_start (2 ^ 1) 0) demo_full"
proof -
  let ?half = "demo_weak [demo_cell [(0, demo_view 0 0 0), (1, demo_view 1 1 0)] 7, demo_cell [(1, demo_view 0 0 0)] 0] [0, 1]
      (demo_view 1 1 0) (demo_view 0 0 0) [7] []"
  have first: "weak_step\<^sup>*\<^sup>* (weak_start (2 ^ 1) 0) (quiet_push 0 7 (weak_start (2 ^ 1) (0 :: nat)))"
    unfolding demo_start by (rule quiet_push_runs) (simp_all add: demo_simps)
  have half: "quiet_push 0 7 (weak_start (2 ^ 1) 0) = ?half"
    unfolding demo_start by (auto simp: demo_simps fun_eq_iff)
  have second: "weak_step\<^sup>*\<^sup>* ?half (quiet_push 0 8 ?half)" by (rule quiet_push_runs) (simp_all add: demo_simps)
  have both: "quiet_push 0 8 ?half = demo_full" by (auto simp: demo_simps fun_eq_iff numeral_2_eq_2)
  show ?thesis by (rule rtranclp_trans [OF first [unfolded half] second [unfolded both]])
qed

lemma demo_drained_reached: "weak_step\<^sup>*\<^sup>* (weak_start (2 ^ 1) 0) demo_drained"
proof -
  let ?half = "demo_weak [demo_cell [(0, demo_view 0 0 0), (1, demo_view 1 1 0), (2, demo_view 1 2 0)] 7,
      demo_cell [(1, demo_view 0 0 0), (2, demo_view 2 1 1)] 8] [0, 1, 2] (demo_view 2 1 1) (demo_view 1 2 0) [7, 8] [7]"
  have first: "weak_step\<^sup>*\<^sup>* demo_full (quiet_pop demo_full)" by (rule quiet_pop_runs) (simp_all add: demo_simps)
  have half: "quiet_pop demo_full = ?half" by (auto simp: demo_simps fun_eq_iff numeral_2_eq_2)
  have second: "weak_step\<^sup>*\<^sup>* ?half (quiet_pop ?half)" by (rule quiet_pop_runs) (simp_all add: demo_simps)
  have both: "quiet_pop ?half = demo_drained" by (auto simp: demo_simps fun_eq_iff numeral_2_eq_2)
  show ?thesis
    by (rule rtranclp_trans [OF demo_full_reached rtranclp_trans [OF first [unfolded half] second [unfolded both]]])
qed

lemma demo_stale_reached: "weak_step\<^sup>*\<^sup>* (weak_start (2 ^ 1) 0) demo_stale"
proof -
  have "weak_step demo_drained demo_stale"
    unfolding demo_stale_def
    by (rule weak_enter [where k = 2]) (simp_all add: demo_drained_def demo_weak_def demo_view_def load_pos_def)
  then show ?thesis by (rule rtranclp.rtrancl_into_rtrancl [OF demo_drained_reached])
qed

lemma demo_copying_reached: "weak_step\<^sup>*\<^sup>* (weak_start (2 ^ 1) 0) demo_copying"
proof -
  have "current_view 0 demo_full (cons_view demo_full)" by (simp add: demo_simps)
  note load = load_seq_newest [OF this]
  have "weak_step demo_full demo_copying"
    unfolding demo_copying_def
    by (rule weak_look_ready [where k = "length (seqs demo_full 0) - 1" and seq = "stored (last (seqs demo_full 0))"])
      (use load in \<open>simp_all add: demo_full_def demo_weak_def slot_def demo_cell_def seq_diff_def in_i64_def\<close>)
  then show ?thesis by (rule rtranclp.rtrancl_into_rtrancl [OF demo_full_reached])
qed

section \<open>Properties\<close>

text \<open>C11. The memory orders are enough. Take any execution under weak memory, in which the threads
  may read old values of every atomic. The sequentially consistent steps reach the state with the
  newest value of every atomic, the same items in the cells, and the same claimed and popped items;
  so the queue delivers the items in the order in which their positions were claimed.\<close>

theorem weak_refines_interleaving:
  assumes "weak_step\<^sup>*\<^sup>* (weak_start (2 ^ m) init) w" and "0 < m" and "m < 62" and "length (weak_claimed w) + 2 ^ m < 2 ^ 63"
  shows "step\<^sup>*\<^sup>* (start (2 ^ m) init) (strong w) \<and> weak_popped w = take (length (weak_popped w)) (weak_claimed w)"
proof
  show reach: "step\<^sup>*\<^sup>* (start (2 ^ m) init) (strong w)" using weak_reachable [OF assms] by simp
  show "weak_popped w = take (length (weak_popped w)) (weak_claimed w)"
    using ring_inv_facts(7) [OF reachable_inv [OF reach assms(2,3)]] assms(4) by simp
qed

text \<open>C12. No data race. Under weak memory, a producer about to store an item and the consumer about to
  copy one have seen every earlier access to that item: all accesses are ordered by happens-before.
  And whoever is about to store a sequence number is aware of the newest one, so that the stores to a
  sequence number are ordered as they are executed.\<close>

theorem weak_race_free:
  assumes "weak_step\<^sup>*\<^sup>* (weak_start (2 ^ m) init) w" and "0 < m" and "m < 62" and "length (weak_claimed w) + 2 ^ m < 2 ^ 63"
  shows "(\<forall>i x pos. weak_prods w i = Store_Data x pos \<longrightarrow> \<not> raced (slot pos w) w (prod_view w i)) \<and>
    (weak_cons w = Copy_Data \<longrightarrow> \<not> raced (slot (weak_dequeue_pos w) w) w (cons_view w)) \<and>
    (\<forall>i pos. weak_prods w i = Release_Seq pos \<longrightarrow> seq_current (slot pos w) w (prod_view w i)) \<and>
    (\<forall>x. weak_cons w = Release_Cell x \<longrightarrow> seq_current (slot (weak_dequeue_pos w) w) w (cons_view w))"
proof -
  note reach = weak_reachable [OF assms]
  have ri: "ring_inv (2 ^ m) (strong w)" by (rule reachable_inv [OF reach [THEN conjunct1] assms(2,3)]) (use assms(4) in simp)
  note wi = reach [THEN conjunct2]
  have "seq_current (slot pos w) w (prod_view w i)" if "weak_prods w i = Release_Seq pos" for i pos
    using weak_inv_facts(2) [OF wi, of i] that by (simp add: aware_def seq_current_def)
  moreover have "seq_current (slot (weak_dequeue_pos w) w) w (cons_view w)" if "weak_cons w = Release_Cell x" for x
    using weak_inv_facts(3) [OF wi] that by (simp add: aware_def seq_current_def)
  ultimately show ?thesis using producer_no_race(2) [OF ri wi] consumer_no_race(2) [OF ri wi] by blast
qed

text \<open>C40. A refusal says little about the queue. \<open>try_push\<close> is documented to return false if the queue is
  full; under weak memory a producer may be refused although the queue is empty: the position it
  loads is new, but the sequence of the cell may be the value from before the item was taken.\<close>

theorem weak_push_refused_when_empty:
  "\<exists>w v. weak_step\<^sup>*\<^sup>* (weak_start (2 ^ 1) 0) w \<and> weak_claimed w = [7, 8 :: nat] \<and> weak_popped w = weak_claimed w \<and>
     weak_prods w 1 = Load_Seq 9 (last (pos_log w)) \<and> weak_step w (set_thread 1 Idle v w)"
proof -
  let ?v = "join_view ((demo_view 2 0 0)\<lparr>seen_seq := (seen_seq (demo_view 2 0 0))(0 := 1)\<rparr>) (demo_view 1 1 0)"
  have "weak_step demo_stale (set_thread 1 Idle ?v demo_stale)"
    by (rule weak_seq_behind [where k = 1 and x = 9 and pos = 2 and seq = 1 and diff = "- 1"])
      (simp_all add: demo_stale_def demo_drained_def demo_weak_def demo_cell_def load_seq_def slot_def demo_view_def seq_diff_def in_i64_def)
  then show ?thesis
    using demo_stale_reached by (intro exI [of _ demo_stale] exI [of _ ?v]) (simp add: demo_stale_def demo_drained_def demo_weak_def)
qed

section \<open>Witnesses\<close>

theorem weak_refines_interleaving_witness:
  "weak_claimed demo_stale = [7, 8] \<and> step\<^sup>*\<^sup>* (start (2 ^ 1) 0) (strong demo_stale)"
  using weak_refines_interleaving [OF demo_stale_reached] by (simp add: demo_stale_def demo_drained_def demo_weak_def)

theorem weak_race_free_witness:
  "weak_cons demo_copying = Copy_Data \<and> accesses (weak_cells demo_copying ! 0) = 1 \<and> \<not> raced 0 demo_copying (cons_view demo_copying)"
  using weak_race_free [OF demo_copying_reached] by (simp add: demo_copying_def demo_full_def demo_weak_def demo_cell_def slot_def)

end
