(* ===== verification/Completion_Weak.thy ===== *)
theory Completion_Weak
  imports Ring_Weak Ledger_Result
begin

text \<open>
  The completion slot (\<open>engine.hpp\<close>) under the memory orders of the code. A client clears \<open>done\<close> with a
  relaxed store, queues its request, and polls \<open>done\<close> with acquire loads, which may return old values,
  also from the earlier use of the slot; the writer thread stores the plain variable \<open>error\<close> and then
  \<open>done\<close> with a release store. The request passes through the ring buffer, whose release store and
  acquire load hand the view of the client over to the writer thread (\<open>load_seq_takes_over\<close>). Each client uses one slot, again
  and again, and reads the answer before the next request.
\<close>

section \<open>State\<close>

datatype client = Ready | Waiting | Reading

datatype answering = Free | Store_Error nat | Signal nat

record weak_slot =
  done_log :: "(bool \<times> view) list"
  slot_error :: LedgerError
  error_accesses :: nat

text \<open>\<open>given\<close> and \<open>received\<close> record the answers the writer gave a client and those the client read.\<close>

record handshake =
  clients :: "nat \<Rightarrow> client"
  client_view :: "nat \<Rightarrow> view"
  weak_slots :: "nat \<Rightarrow> weak_slot"
  in_queue :: "(nat \<times> view) list"
  answering :: answering
  writer_view :: view
  given :: "nat \<Rightarrow> LedgerError list"
  received :: "nat \<Rightarrow> LedgerError list"

definition handshake_start :: handshake where
  "handshake_start =
     \<lparr>clients = (\<lambda>_. Ready), client_view = (\<lambda>_. no_view),
      weak_slots = (\<lambda>_. \<lparr>done_log = [(False, no_view)], slot_error = ErrNone, error_accesses = 0\<rparr>),
      in_queue = [], answering = Free, writer_view = no_view, given = (\<lambda>_. []), received = (\<lambda>_. [])\<rparr>"

text \<open>Accesses to \<open>done\<close> and to \<open>error\<close> of the slot of client \<open>i\<close>.\<close>

definition see_done :: "nat \<Rightarrow> handshake \<Rightarrow> view \<Rightarrow> view" where
  "see_done i h v = v\<lparr>seen_seq := (seen_seq v)(i := length (done_log (weak_slots h i)))\<rparr>"

definition store_done :: "memory_order \<Rightarrow> nat \<Rightarrow> bool \<Rightarrow> view \<Rightarrow> handshake \<Rightarrow> handshake" where
  "store_done order i b v h = h\<lparr>weak_slots := (weak_slots h)(i := (weak_slots h i)
     \<lparr>done_log := done_log (weak_slots h i) @ [(b, if order = Release then see_done i h v else no_view)]\<rparr>)\<rparr>"

definition load_done :: "memory_order \<Rightarrow> nat \<Rightarrow> nat \<Rightarrow> handshake \<Rightarrow> view \<Rightarrow> (bool \<times> view) option" where
  "load_done order i k h v =
     (if seen_seq v i \<le> k \<and> k < length (done_log (weak_slots h i))
      then let (b, u) = done_log (weak_slots h i) ! k; v' = v\<lparr>seen_seq := (seen_seq v)(i := k)\<rparr>
           in Some (b, if order = Acquire then join_view v' u else v')
      else None)"

definition error_raced :: "nat \<Rightarrow> handshake \<Rightarrow> view \<Rightarrow> bool" where
  "error_raced i h v \<longleftrightarrow> seen_data v i < error_accesses (weak_slots h i)"

definition done_current :: "nat \<Rightarrow> handshake \<Rightarrow> view \<Rightarrow> bool" where
  "done_current i h v \<longleftrightarrow> length (done_log (weak_slots h i)) \<le> Suc (seen_seq v i)"

definition see_error :: "nat \<Rightarrow> handshake \<Rightarrow> view \<Rightarrow> view" where
  "see_error i h v = v\<lparr>seen_data := (seen_data v)(i := error_accesses (weak_slots h i) + 1)\<rparr>"

definition access_error :: "nat \<Rightarrow> LedgerError \<Rightarrow> handshake \<Rightarrow> handshake" where
  "access_error i e h = h\<lparr>weak_slots := (weak_slots h)(i := (weak_slots h i)
     \<lparr>slot_error := e, error_accesses := error_accesses (weak_slots h i) + 1\<rparr>)\<rparr>"

section \<open>Steps\<close>

text \<open>
  \<open>submit\<close>, with and without room in the ring buffer; the writer thread taking a request, and the two
  stores of \<open>complete\<close>; the polling loop and the read of the client. What a racing access to \<open>error\<close>
  reads or leaves is arbitrary.
\<close>

inductive handshake_step :: "handshake \<Rightarrow> handshake \<Rightarrow> bool" where
  submit_queued: "clients h i = Ready \<Longrightarrow> v = see_done i h (client_view h i) \<Longrightarrow>
    handshake_step h ((store_done Relaxed i False (client_view h i) h)
      \<lparr>clients := (clients h)(i := Waiting), client_view := (client_view h)(i := v), in_queue := in_queue h @ [(i, v)]\<rparr>)"
| submit_refused: "clients h i = Ready \<Longrightarrow> v = see_done i h (client_view h i) \<Longrightarrow>
    handshake_step h ((store_done Relaxed i False (client_view h i) h)\<lparr>client_view := (client_view h)(i := v)\<rparr>)"
| take_request: "answering h = Free \<Longrightarrow> in_queue h = (i, u) # q \<Longrightarrow>
    handshake_step h (h\<lparr>in_queue := q, answering := Store_Error i, writer_view := join_view (writer_view h) u\<rparr>)"
| store_error: "answering h = Store_Error i \<Longrightarrow> error_raced i h (writer_view h) \<or> e' = e \<Longrightarrow>
    handshake_step h ((access_error i e' h)
      \<lparr>answering := Signal i, writer_view := see_error i h (writer_view h), given := (given h)(i := given h i @ [e])\<rparr>)"
| signal_done: "answering h = Signal i \<Longrightarrow>
    handshake_step h ((store_done Release i True (writer_view h) h)
      \<lparr>answering := Free, writer_view := see_done i h (writer_view h)\<rparr>)"
| poll: "clients h i = Waiting \<Longrightarrow> load_done Acquire i k h (client_view h i) = Some (b, v) \<Longrightarrow>
    handshake_step h (h\<lparr>clients := (clients h)(i := if b then Reading else Waiting), client_view := (client_view h)(i := v)\<rparr>)"
| read_error: "clients h i = Reading \<Longrightarrow> error_raced i h (client_view h i) \<or> e = slot_error (weak_slots h i) \<Longrightarrow>
    handshake_step h ((access_error i (slot_error (weak_slots h i)) h)
      \<lparr>clients := (clients h)(i := Ready), client_view := (client_view h)(i := see_error i h (client_view h i)),
       received := (received h)(i := received h i @ [e])\<rparr>)"

section \<open>Invariant\<close>

abbreviation dones :: "handshake \<Rightarrow> nat \<Rightarrow> (bool \<times> view) list" where
  "dones h i \<equiv> done_log (weak_slots h i)"

definition queued :: "handshake \<Rightarrow> nat \<Rightarrow> view list" where
  "queued h i = map snd (filter (\<lambda>(j, u). j = i) (in_queue h))"

definition covers :: "handshake \<Rightarrow> nat \<Rightarrow> view \<Rightarrow> bool" where
  "covers h i v \<longleftrightarrow> length (dones h i) \<le> Suc (seen_seq v i) \<and> error_accesses (weak_slots h i) \<le> seen_data v i"

definition attended :: "handshake \<Rightarrow> nat \<Rightarrow> bool" where
  "attended h i \<longleftrightarrow> answering h = Store_Error i \<or> answering h = Signal i"

text \<open>A waiting client can read no value of \<open>done\<close> from before its request.\<close>

definition unanswered :: "handshake \<Rightarrow> nat \<Rightarrow> bool" where
  "unanswered h i \<longleftrightarrow> length (dones h i) \<le> Suc (seen_seq (client_view h i) i) \<and> \<not> fst (last (dones h i))"

definition answered :: "handshake \<Rightarrow> nat \<Rightarrow> bool" where
  "answered h i \<longleftrightarrow> length (dones h i) \<le> Suc (Suc (seen_seq (client_view h i) i)) \<and>
     (\<exists>ms u u'. dones h i = ms @ [(False, u'), (True, u)] \<and> covers h i u)"

fun client_ok :: "handshake \<Rightarrow> nat \<Rightarrow> client \<Rightarrow> bool" where
  "client_ok h i Ready \<longleftrightarrow> queued h i = [] \<and> \<not> attended h i \<and> covers h i (client_view h i) \<and> received h i = given h i"
| "client_ok h i Waiting \<longleftrightarrow>
     unanswered h i \<and> received h i = given h i \<and> (\<exists>u. queued h i = [u] \<and> covers h i u) \<and> \<not> attended h i \<or>
     unanswered h i \<and> received h i = given h i \<and> queued h i = [] \<and> answering h = Store_Error i \<and> covers h i (writer_view h) \<or>
     unanswered h i \<and> given h i = received h i @ [slot_error (weak_slots h i)] \<and> queued h i = [] \<and>
       answering h = Signal i \<and> covers h i (writer_view h) \<or>
     answered h i \<and> given h i = received h i @ [slot_error (weak_slots h i)] \<and> queued h i = [] \<and> \<not> attended h i"
| "client_ok h i Reading \<longleftrightarrow> queued h i = [] \<and> \<not> attended h i \<and> covers h i (client_view h i) \<and>
     given h i = received h i @ [slot_error (weak_slots h i)]"

definition handshake_inv :: "handshake \<Rightarrow> bool" where
  "handshake_inv h \<longleftrightarrow> (\<forall>i. dones h i \<noteq> [] \<and> client_ok h i (clients h i))"

text \<open>Steps that do not concern client \<open>i\<close>.\<close>

lemma client_ok_frame:
  assumes "client_ok h i pc" and "weak_slots h' i = weak_slots h i" and "client_view h' i = client_view h i"
    and "given h' i = given h i" and "received h' i = received h i" and "queued h' i = queued h i"
    and "attended h i \<or> attended h' i \<Longrightarrow> answering h' = answering h \<and> writer_view h' = writer_view h"
  shows "client_ok h' i pc"
proof -
  have att: "attended h' i = attended h i" using assms(7) by (auto simp: attended_def)
  have cov: "covers h' i v = covers h i v" for v using assms(2) by (simp add: covers_def)
  have ans: "unanswered h' i = unanswered h i" "answered h' i = answered h i"
    using assms(2,3) cov by (simp_all add: unanswered_def answered_def)
  have "answering h' = answering h \<and> writer_view h' = writer_view h" if "answering h = Store_Error i \<or> answering h = Signal i"
    using assms(7) that by (auto simp: attended_def)
  then show ?thesis using assms(1-6) att by (cases pc) (auto simp: cov ans)
qed

lemma inv_client:
  assumes "handshake_inv h" and "dones h' i \<noteq> []" and "client_ok h' i (clients h' i)"
    and "\<And>j. j \<noteq> i \<Longrightarrow> weak_slots h' j = weak_slots h j \<and> clients h' j = clients h j \<and> client_view h' j = client_view h j \<and>
      given h' j = given h j \<and> received h' j = received h j \<and> queued h' j = queued h j"
    and "\<And>j. j \<noteq> i \<Longrightarrow> attended h j \<or> attended h' j \<Longrightarrow> answering h' = answering h \<and> writer_view h' = writer_view h"
  shows "handshake_inv h'"
  unfolding handshake_inv_def
proof (intro allI conjI)
  fix j
  show "dones h' j \<noteq> []" using assms(1,2,4) by (cases "j = i") (auto simp: handshake_inv_def)
  show "client_ok h' j (clients h' j)"
  proof (cases "j = i")
    case False
    have "client_ok h j (clients h j)" using assms(1) by (simp add: handshake_inv_def)
    then have "client_ok h' j (clients h j)" by (rule client_ok_frame) (use assms(4,5) [OF False] in auto)
    then show ?thesis using assms(4) [OF False] by simp
  qed (use assms(3) in simp)
qed

lemmas handshake_simps = store_done_def access_error_def see_done_def see_error_def covers_def attended_def queued_def
  unanswered_def answered_def join_view_def

lemma inv_facts:
  assumes "handshake_inv h"
  shows "dones h i \<noteq> []" "client_ok h i (clients h i)"
  using assms by (simp_all add: handshake_inv_def)

lemma inv_submit:
  assumes "handshake_inv h" and "clients h i = Ready" and "v = see_done i h (client_view h i)"
  shows "handshake_inv ((store_done Relaxed i False (client_view h i) h)
      \<lparr>clients := (clients h)(i := Waiting), client_view := (client_view h)(i := v), in_queue := in_queue h @ [(i, v)]\<rparr>)"
    "handshake_inv ((store_done Relaxed i False (client_view h i) h)\<lparr>client_view := (client_view h)(i := v)\<rparr>)"
  using inv_facts(2) [OF assms(1), of i] assms(2,3)
  by (auto intro!: inv_client [OF assms(1), where i = i] simp: handshake_simps)

text \<open>Whom the writer thread serves.\<close>

lemma writer_serves:
  assumes "handshake_inv h"
  shows "answering h = Store_Error i \<Longrightarrow> clients h i = Waiting \<and> unanswered h i \<and> received h i = given h i \<and> queued h i = [] \<and> covers h i (writer_view h)"
    "answering h = Signal i \<Longrightarrow> clients h i = Waiting \<and> unanswered h i \<and> queued h i = [] \<and> covers h i (writer_view h) \<and>
       given h i = received h i @ [slot_error (weak_slots h i)]"
    "in_queue h = (i, u) # q \<Longrightarrow> clients h i = Waiting \<and> unanswered h i \<and> received h i = given h i \<and> queued h i = [u] \<and> covers h i u"
  using inv_facts(2) [OF assms, of i]
  by (cases "clients h i"; auto simp: attended_def queued_def)+

lemma inv_take:
  assumes "handshake_inv h" and "answering h = Free" and "in_queue h = (i, u) # q"
  shows "handshake_inv (h\<lparr>in_queue := q, answering := Store_Error i, writer_view := join_view (writer_view h) u\<rparr>)"
  using writer_serves(3) [OF assms(1,3)] inv_facts(1) [OF assms(1), of i] assms(2,3)
  by (intro inv_client [OF assms(1), where i = i]) (auto simp: handshake_simps)

lemma inv_store_error:
  assumes "handshake_inv h" and "answering h = Store_Error i"
  shows "handshake_inv ((access_error i e h)
      \<lparr>answering := Signal i, writer_view := see_error i h (writer_view h), given := (given h)(i := given h i @ [e])\<rparr>)"
  using writer_serves(1) [OF assms] inv_facts(1) [OF assms(1), of i] assms(2)
  by (intro inv_client [OF assms(1), where i = i]) (auto simp: handshake_simps)

lemma inv_signal:
  assumes "handshake_inv h" and "answering h = Signal i"
  shows "handshake_inv ((store_done Release i True (writer_view h) h)\<lparr>answering := Free, writer_view := see_done i h (writer_view h)\<rparr>)"
    (is "handshake_inv ?h")
proof -
  note now = writer_serves(2) [OF assms] and ne = inv_facts(1) [OF assms(1), of i]
  obtain ms u where log: "dones h i = ms @ [(False, u)]"
    using now ne by (cases "dones h i" rule: rev_cases) (auto simp: unanswered_def)
  have "answered ?h i" using now by (auto simp: handshake_simps log)
  then show ?thesis
    using now ne assms(2) by (intro inv_client [OF assms(1), where i = i]) (auto simp: store_done_def attended_def queued_def)
qed

lemma poll_sees:
  assumes "handshake_inv h" and "clients h i = Waiting" and "load_done Acquire i k h (client_view h i) = Some (b, v)"
  shows "client_ok (h\<lparr>clients := (clients h)(i := if b then Reading else Waiting), client_view := (client_view h)(i := v)\<rparr>) i
    (if b then Reading else Waiting)" (is "client_ok ?h i _")
proof -
  have k: "seen_seq (client_view h i) i \<le> k" "k < length (dones h i)" "fst (dones h i ! k) = b"
    "v = join_view ((client_view h i)\<lparr>seen_seq := (seen_seq (client_view h i))(i := k)\<rparr>) (snd (dones h i ! k))"
    using assms(3) by (auto simp: load_done_def case_prod_unfold Let_def split: if_splits)
  have seen: "k \<le> seen_seq v i" "seen_seq (snd (dones h i ! k)) i \<le> seen_seq v i" "seen_data (snd (dones h i ! k)) i \<le> seen_data v i"
    by (simp_all add: k(4) join_view_def)
  have same: "queued ?h i = queued h i" "attended ?h i = attended h i" "covers ?h i = covers h i"
    by (auto simp: queued_def attended_def covers_def fun_eq_iff)
  note ok = inv_facts(2) [OF assms(1), of i, unfolded assms(2)]
  show ?thesis
  proof (cases "unanswered h i")
    case True
    then have newest: "Suc k = length (dones h i)" "\<not> fst (last (dones h i))" using k(1,2) by (simp_all add: unanswered_def)
    then have "last (dones h i) = dones h i ! k" by (metis diff_Suc_1 last_conv_nth list.size(3) nat.simps(3))
    with newest have "\<not> b" "unanswered ?h i" using k(3) seen(1) by (auto simp: unanswered_def)
    then show ?thesis using ok True same by (auto simp: unanswered_def answered_def)
  next
    case False
    then have ans: "answered h i" "given h i = received h i @ [slot_error (weak_slots h i)]" "queued h i = []" "\<not> attended h i"
      using ok by auto
    then obtain ms u u' where log: "dones h i = ms @ [(False, u'), (True, u)]" "covers h i u" by (auto simp: answered_def)
    have "k = length ms \<or> k = Suc (length ms)" using ans(1) k(1,2) log(1) by (auto simp: answered_def)
    then show ?thesis
    proof
      assume "k = length ms"
      then have "\<not> b" "answered ?h i" using k(3) seen(1) log same(3) by (auto simp: answered_def nth_append)
      then show ?thesis using ans same by simp
    next
      assume "k = Suc (length ms)"
      then have "b" "covers h i v" using k(3) seen log by (auto simp: covers_def nth_append)
      then show ?thesis using ans same by simp
    qed
  qed
qed

lemma inv_poll:
  assumes "handshake_inv h" and "clients h i = Waiting" and "load_done Acquire i k h (client_view h i) = Some (b, v)"
  shows "handshake_inv (h\<lparr>clients := (clients h)(i := if b then Reading else Waiting), client_view := (client_view h)(i := v)\<rparr>)"
  using poll_sees [OF assms] inv_facts(1) [OF assms(1), of i]
  by (intro inv_client [OF assms(1), where i = i]) (auto simp: queued_def attended_def)

lemma inv_read:
  assumes "handshake_inv h" and "clients h i = Reading"
  shows "handshake_inv ((access_error i (slot_error (weak_slots h i)) h)
      \<lparr>clients := (clients h)(i := Ready), client_view := (client_view h)(i := see_error i h (client_view h i)),
       received := (received h)(i := received h i @ [slot_error (weak_slots h i)])\<rparr>)"
  using inv_facts [OF assms(1), of i] assms(2)
  by (intro inv_client [OF assms(1), where i = i]) (auto simp: handshake_simps)

lemma handshake_no_race:
  assumes "handshake_inv h"
  shows "answering h = Store_Error i \<Longrightarrow> \<not> error_raced i h (writer_view h)"
    "clients h i = Reading \<Longrightarrow> \<not> error_raced i h (client_view h i)"
  using writer_serves(1) [OF assms, of i] inv_facts(2) [OF assms, of i] by (auto simp: error_raced_def covers_def)

lemma handshake_step_inv:
  assumes "handshake_step h h'" and "handshake_inv h"
  shows "handshake_inv h'"
  using assms(1)
proof cases
  case (store_error i e' e)
  then show ?thesis using inv_store_error [OF assms(2)] handshake_no_race(1) [OF assms(2)] by auto
next
  case (read_error i e)
  then show ?thesis using inv_read [OF assms(2)] handshake_no_race(2) [OF assms(2)] by auto
qed (use inv_submit [OF assms(2)] inv_take [OF assms(2)] inv_signal [OF assms(2)] inv_poll [OF assms(2)] in auto)

lemma handshake_reachable: "handshake_step\<^sup>*\<^sup>* handshake_start h \<Longrightarrow> handshake_inv h"
proof (induction rule: rtranclp_induct)
  case base
  show ?case by (simp add: handshake_inv_def handshake_start_def queued_def attended_def covers_def)
qed (rule handshake_step_inv)

section \<open>A run\<close>

text \<open>Client 0 submits, is told that its transaction is a duplicate, and sees the answer.\<close>

definition demo_asked :: handshake where
  "demo_asked = (store_done Relaxed 0 False no_view handshake_start)
     \<lparr>clients := (\<lambda>_. Ready)(0 := Waiting), client_view := (\<lambda>_. no_view)(0 := see_done 0 handshake_start no_view),
      in_queue := [(0, see_done 0 handshake_start no_view)]\<rparr>"

definition demo_taken :: handshake where
  "demo_taken = demo_asked\<lparr>in_queue := [], answering := Store_Error 0,
     writer_view := join_view no_view (see_done 0 handshake_start no_view)\<rparr>"

definition demo_signalled :: handshake where
  "demo_signalled =
     (let h = (access_error 0 DuplicateTransaction demo_taken)
            \<lparr>answering := Signal 0, writer_view := see_error 0 demo_taken (writer_view demo_taken),
             given := (\<lambda>_. [])(0 := [DuplicateTransaction])\<rparr>
      in (store_done Release 0 True (writer_view h) h)\<lparr>answering := Free, writer_view := see_done 0 h (writer_view h)\<rparr>)"

definition demo_seen :: handshake where
  "demo_seen = demo_signalled\<lparr>clients := (\<lambda>_. Ready)(0 := Reading),
     client_view := (\<lambda>_. no_view)(0 := snd (the (load_done Acquire 0 2 demo_signalled (client_view demo_signalled 0))))\<rparr>"

lemmas demo_handshake = demo_asked_def demo_taken_def demo_signalled_def demo_seen_def handshake_start_def
  store_done_def see_done_def access_error_def see_error_def load_done_def join_view_def no_view_def Let_def

lemma demo_seen_reached: "handshake_step\<^sup>*\<^sup>* handshake_start demo_seen"
proof -
  have ask: "handshake_step handshake_start demo_asked"
    using submit_queued [of handshake_start 0] by (simp add: demo_asked_def handshake_start_def store_done_def)
  have take: "handshake_step demo_asked demo_taken"
    unfolding demo_taken_def using take_request [of demo_asked 0] by (simp add: demo_asked_def handshake_start_def store_done_def)
  let ?h = "(access_error 0 DuplicateTransaction demo_taken)\<lparr>answering := Signal 0,
      writer_view := see_error 0 demo_taken (writer_view demo_taken), given := (given demo_taken)(0 := given demo_taken 0 @ [DuplicateTransaction])\<rparr>"
  have err: "handshake_step demo_taken ?h" by (rule store_error) (simp_all add: demo_taken_def)
  have sig: "handshake_step ?h demo_signalled"
    using signal_done [of ?h 0]
    by (simp add: demo_signalled_def Let_def demo_taken_def demo_asked_def handshake_start_def store_done_def)
  obtain v where v: "load_done Acquire 0 2 demo_signalled (client_view demo_signalled 0) = Some (True, v)"
    by (simp add: demo_handshake)
  have "handshake_step demo_signalled demo_seen"
    using poll [of demo_signalled 0, OF _ v] v
    by (simp add: demo_seen_def) (simp add: demo_signalled_def demo_taken_def demo_asked_def Let_def store_done_def access_error_def)
  with ask take err sig show ?thesis by (meson converse_rtranclp_into_rtranclp rtranclp.rtrancl_refl)
qed

section \<open>Properties\<close>

text \<open>C13. A client gets the answer to its own request. Under weak memory, with any number of clients that use
  their slots again and again: what a client has read is what the writer thread answered, in order,
  and all of it whenever the client is between two requests. No access to an error field races. A store to
  \<open>done\<close> comes after all earlier ones in its modification order. And no wake-up is lost: the request
  of a waiting client is in the queue or being answered, or the newest value of \<open>done\<close> is true.\<close>

theorem handshake_delivers_answers:
  assumes "handshake_step\<^sup>*\<^sup>* handshake_start h"
  shows "received h i = take (length (received h i)) (given h i) \<and> (clients h i = Ready \<longrightarrow> received h i = given h i) \<and>
    (answering h = Store_Error i \<longrightarrow> \<not> error_raced i h (writer_view h)) \<and>
    (clients h i = Reading \<longrightarrow> \<not> error_raced i h (client_view h i)) \<and>
    (clients h i = Ready \<longrightarrow> done_current i h (client_view h i)) \<and>
    (answering h = Signal i \<longrightarrow> done_current i h (writer_view h)) \<and>
    (clients h i = Waiting \<longrightarrow> (\<exists>u. (i, u) \<in> set (in_queue h)) \<or> answering h = Store_Error i \<or> answering h = Signal i \<or>
       fst (last (done_log (weak_slots h i))))"
proof -
  have inv: "handshake_inv h" by (rule handshake_reachable [OF assms])
  note ok = inv_facts(2) [OF inv, of i]
  have "received h i = take (length (received h i)) (given h i)" using ok by (cases "clients h i") auto
  moreover have "done_current i h (writer_view h)" if "answering h = Signal i"
    using writer_serves(2) [OF inv that] by (simp add: covers_def done_current_def)
  moreover have "(\<exists>u. (i, u) \<in> set (in_queue h)) \<or> attended h i \<or> fst (last (dones h i))" if "clients h i = Waiting"
  proof -
    have "queued h i \<noteq> [] \<or> attended h i \<or> answered h i" using ok that by (auto simp: attended_def)
    then show ?thesis by (auto simp: queued_def answered_def filter_empty_conv)
  qed
  moreover have "received h i = given h i \<and> done_current i h (client_view h i)" if "clients h i = Ready"
    using ok that by (simp add: covers_def done_current_def)
  ultimately show ?thesis using handshake_no_race [OF inv, of i] by (auto simp: attended_def)
qed

section \<open>Witnesses\<close>

theorem handshake_delivers_answers_witness:
  "clients demo_seen 0 = Reading \<and> error_accesses (weak_slots demo_seen 0) = 1 \<and> given demo_seen 0 = [DuplicateTransaction] \<and>
   \<not> error_raced 0 demo_seen (client_view demo_seen 0)"
proof -
  have at: "clients demo_seen 0 = Reading" "error_accesses (weak_slots demo_seen 0) = 1" "given demo_seen 0 = [DuplicateTransaction]"
    by (simp_all add: demo_seen_def demo_signalled_def demo_taken_def demo_asked_def Let_def store_done_def access_error_def
        handshake_start_def)
  then show ?thesis using handshake_delivers_answers [OF demo_seen_reached, of 0] by blast
qed

end
