(* ===== verification/Spec2Isabelle.thy ===== *)
theory Spec2Isabelle
  imports Driver Abstract_Ledger Snapshot_Jobs Completion_Weak
begin

text \<open>
  A verification of the double-entry ledger engine (\<open>src/include/ledger\<close>, \<open>src/src\<close>).

  \<^bold>\<open>The program.\<close> Producer threads submit transactions to a lock-free ring buffer. One writer thread
  takes them out, rejects repeated idempotency keys, validates the legs and the resulting balances,
  appends a checksummed record to a write-ahead log, applies the transaction to the account table,
  publishes a copy for readers, and answers the producer through its completion slot. A snapshot
  file stores the account table with a log offset; recovery loads it, replays the log behind it,
  cuts off a damaged tail and checks that the books balance.

  \<^bold>\<open>Conventions.\<close> Operations take and return their state. \<open>None\<close> is undefined behaviour, a violated
  assertion or a loop that does not end, so a theorem that a call equals \<open>Some\<close> of something also
  says that it is defined and returns. \<open>Result<void>\<close> is a \<open>LedgerError\<close> with \<open>ErrNone\<close> for success,
  \<open>Result<T>\<close> is \<open>LedgerError + 'a\<close>. Integers keep their width. An unordered map is an association
  list with distinct keys. No fuel is used: bounded loops are recursive functions, and the loops
  without a bound of their own (replay, hash chains, the retry loop of a push) are partial functions
  that are shown to return.

  \<^bold>\<open>The theories.\<close>

  \<^item> \<open>Prelude\<close>: word types, byte images of words, bounds-checked buffers, the interface \<open>fixed_codec\<close> of
    fixed-size records.
  \<^item> \<open>Ledger_Result\<close> (\<open>result.hpp\<close>): error codes and results. \<open>Ledger_Types\<close> (\<open>types.hpp\<close>): keys, legs, the
    bounded leg list, transactions, accounts.
  \<^item> \<open>Validation\<close> (\<open>validation.cpp\<close>): both checks, and what they decide. \<open>Ledger_State\<close>
    (\<open>ledger_state.cpp\<close>): account table, \<open>apply\<close>, trial balance, store; the interface \<open>account_book\<close> gives
    the invariants of every run of admitted transactions, and when balances are exact integers.
  \<^item> \<open>Crc32\<close> (\<open>crc32.cpp\<close>): the table routine is the shift register, is linear, and detects bursts
    (interface \<open>checksum\<close>). \<open>Wal_Codec\<close> (\<open>wal_format.hpp\<close>, \<open>wal_codec.cpp\<close>): layout and round trip of records.
  \<^item> \<open>Posix\<close> (\<open>unique_fd.hpp\<close> and the system calls): an explicit file system whose every answer is part of
    the input, so each theorem covers all failures and short transfers; a file has its contents and
    the part known to survive a crash.
  \<^item> \<open>Wal_Writer\<close>, \<open>Wal_Reader\<close>, \<open>Snapshot\<close>, \<open>Recovery\<close> (the \<open>.cpp\<close> files of these names): every outcome of
    an append; the reader is a parser of the file's bytes; a snapshot replaces its target atomically;
    recovery always returns and replays exactly the records of the log.
  \<^item> \<open>Idempotency_Cache\<close> (\<open>idempotency_cache.cpp\<close>): the index-linked nodes implement a list of the most
    recent keys (interface \<open>dedup_set\<close>); \<open>std::hash\<close> is a parameter, about which nothing is assumed.
  \<^item> \<open>Ring_Buffer\<close> (\<open>ring_buffer.hpp\<close>): sequential pushes and pops implement a bounded queue (interface
    \<open>bounded_queue\<close>); and a transition system of any number of producers and one consumer, one shared
    access per step, with an inductive invariant from which order, exclusion and progress follow.
  \<^item> \<open>Ring_Weak\<close> (\<open>ring_buffer.hpp\<close>): the same steps with the memory orders of the code. Every atomic keeps
    its history, loads may return old values, release stores and acquire loads pass on what a thread
    has seen. Every execution refines one of \<open>Ring_Buffer\<close>, without a data race on the items.
    \<open>Completion_Weak\<close> (\<open>Completion\<close>, \<open>submit\<close>, \<open>complete\<close> and the waiting loop of a client): in the same setting,
    a client reads the answer to its own request, and no wake-up is lost.
  \<^item> \<open>Snapshot_Jobs\<close> (\<open>snapshot.cpp\<close>, \<open>write_snapshot_async\<close>): the detached snapshot threads, interleaved
    call by call; one thread alone computes what \<open>write_snapshot\<close> computes, two can destroy the target.
  \<^item> \<open>Engine\<close> (\<open>engine.cpp\<close>): \<open>submit\<close>, \<open>process_pending\<close> and the histories of calls. The central lemma
    \<open>process_loop_serves\<close> describes everything a call does to slots, log, ledger, published state and cache;
    how far readers lag behind, and what is durable when it becomes visible, follow from it.
  \<^item> \<open>Abstract_Ledger\<close>: the engine's contract, a machine with a queue, a window of recent keys and an account
    table that judges, commits and answers one request at a time; the engine refines it.
  \<^item> \<open>Driver\<close> (\<open>main.cpp\<close>): the demo program as a transition system of its threads, with an invariant for all
    interleavings, and its output.
  \<^item> this theory: properties that need several parts (crash recovery of an engine, what a short write and a
    failed sync do to later recovery, the type of results).

  \<^bold>\<open>Bounds.\<close> Ring capacities are powers of two from 2 to \<open>2 ^ 61\<close>, and fewer than \<open>2 ^ 63\<close> requests are
  submitted in the life of an engine: the code subtracts positions as signed numbers, which is undefined
  beyond. The cache holds at most \<open>2 ^ 31\<close> keys, the range of its \<open>int32\<close> indices. Log files are shorter
  than \<open>2 ^ 63\<close> bytes, the range of file offsets. A reliable kernel moves at least 321 bytes per call, the
  size of the largest record, or 516 and 25 per account where recovery reads.

  \<^bold>\<open>Not modelled.\<close> Weak memory outside the ring buffer and the completion slots: the engine and the
  demo use the queue operations, the slots and the publication of a state
  (\<open>std::atomic<std::shared_ptr>\<close>, whose semantics is the library's) as atomic steps. Failure to allocate memory: the containers of the library always grow. In \<open>main.cpp\<close> the
  preparation of the directory is a hypothesis and printing is a returned report. Tests, benchmarks
  and build files are not part of the program.
\<close>

section \<open>Crash and recovery\<close>

lemma sorted_wrt_subseq: "subseq xs ys \<Longrightarrow> sorted_wrt R ys \<Longrightarrow> sorted_wrt R xs"
proof (induction rule: list_emb.induct)
  case (list_emb_Cons2 x y xs ys)
  then show ?case using list_emb_set [of "(=)" xs ys] by auto
qed auto

lemma length_log_bytes: "\<forall>(tx, now) \<in> set recs. wf_tx tx \<Longrightarrow> length (log_bytes recs) \<le> 321 * length recs"
proof (induction recs)
  case (Cons p recs)
  obtain tx now where p: "p = (tx, now)" by (cases p)
  have "length (record_bytes tx now) \<le> 321" using Cons.prems p by (intro record_length_bound) simp
  with Cons p show ?case by (simp add: log_bytes_Cons)
qed (simp add: log_bytes_def)

text \<open>What a run without failed appends leaves in the log.\<close>

lemma run_logs_commits:
  assumes "engine_boot cfg accs os = Some (e, os1)" and "config_ok cfg" and "sync_mode cfg = SyncEveryWrite"
    and "\<forall>op \<in> set ops. op_ok cs op" and "submissions ops + unat (ring_buffer_capacity cfg) < 2 ^ 63"
    and "reliable 321 os1"
    and "case path_file os (wal_path cfg) of None \<Rightarrow> off = 0
         | Some f \<Rightarrow> stable f = contents f \<and> length (contents f) = unat off"
  obtains e' cs' os' f' pre recs where "engine_run std_hash ops e cs os1 = Some (e', cs', os')"
    "path_file os' (wal_path cfg) = Some f'" "length pre = unat off" "stable f' = pre @ log_bytes recs"
    "\<forall>(tx, now) \<in> set recs. wf_tx tx" "subseq (map (tx_id \<circ> fst) recs) (submitted_ids ops)"
    "working (store e') = apply_run apply_tx (map fst recs) (working (store e))"
    "admitted_run find_account apply_tx (map fst recs) (working (store e))"
proof -
  obtain cap f f' rs e' cs' os' where r: "engine_run std_hash ops e cs os1 = Some (e', cs', os')"
    "serves cap e f [] rs e' f'" "config e = cfg" "appends_ok rs"
    "subseq (request_ids (map fst rs)) (submitted_ids ops)" "path_file os' (wal_path cfg) = Some f'"
    "path_file os (wal_path cfg) = Some f \<or> names os (wal_path cfg) = None \<and> f = \<lparr>contents = [], stable = []\<rparr>"
    by (rule engine_boot_run [OF assms(1,2,4,5), of std_hash]) (use assms(6) in auto)
  have w: "working (store e') = apply_run apply_tx (commits rs) (working (store e))" "logged SyncEveryWrite f rs f'"
    "admitted_run find_account apply_tx (commits rs) (working (store e))" "\<forall>ra \<in> set rs. wf_tx (req_tx (fst ra))"
    using r(2,3) assms(3) serves_admitted [OF r(2)] by (simp_all add: serves_def)
  have f: "stable f = contents f" "length (contents f) = unat off"
    using r(7) assms(7) by (auto simp: path_file_def)
  obtain recs where recs: "map fst recs = commits rs" "stable f' = contents f @ log_bytes recs"
    using logged_records [OF w(2) r(4)] f(1) by auto
  have wf: "\<forall>(tx, now) \<in> set recs. wf_tx tx"
  proof -
    have "tx \<in> set (commits rs)" if "(tx, now) \<in> set recs" for tx now using that recs(1) [symmetric] by force
    then show ?thesis using w(4) by (force simp: set_commits)
  qed
  have "map (tx_id \<circ> fst) recs = map tx_id (commits rs)" by (simp add: recs(1) [symmetric])
  then have "subseq (map (tx_id \<circ> fst) recs) (submitted_ids ops)"
    using subseq_order.trans [OF commits_ids r(5)] by simp
  then show thesis using that [OF r(1,6) f(2) recs(2) wf] w(1,3) by (simp add: recs(1))
qed


text \<open>Two sales are submitted and processed; the third was being written when the power failed.\<close>

definition crash_ops :: "engine_op list" where
  "crash_ops = [Submit 0 (example_sale 1 10) 0, Submit 0 (example_sale 2 10) 1, Process 5]"

definition third_sale :: "byte list" where
  "third_sale = take 30 (record_bytes (example_sale 3 10) 0)"

lemma crash_ops_facts:
  "\<forall>op \<in> set crash_ops. op_ok demo_slots op" "submissions crash_ops + unat (ring_buffer_capacity demo_config) < 2 ^ 63"
  "submitted_ids crash_ops = [1, 2]" "torn_tail third_sale" "length third_sale = 30"
proof -
  have "wf_tx (example_sale 3 10) \<and> 30 < length (record_bytes (example_sale 3 10) 0)"
    by (simp add: length_record_bytes)
  then show "torn_tail third_sale" unfolding torn_tail_def third_sale_def by blast
qed (simp_all add: crash_ops_def demo_slots_def op_ok_def submissions_def demo_config_def default_config_def
    third_sale_def length_record_bytes)


section \<open>A short write\<close>

text \<open>A kernel that takes a single byte of the record.\<close>

lemma one_byte_append:
  assumes "wf_tx tx" and "writer_on w os path f" and "script os (tick os + 2) = 1"
  obtains os' now where "wal_append tx w os = Some (WalWriteFailed, w, os')"
    "writer_on w os' path (f\<lparr>contents := contents f @ take 1 (record_bytes tx now)\<rparr>)"
    "script os' = script os" "tick os' = tick os + 3"
proof -
  obtain now os1 where now: "monotonic_now_ns os = (now, os1)" by (cases "monotonic_now_ns os")
  have os1: "writer_on w os1 path f" "script os1 = script os" "tick os1 = tick os + 2"
    using writer_on_answers [OF assms(2)] monotonic_now_ns_simps [of os] now by simp_all
  have fd: "0 \<le> w_fd w" using assms(2) by (simp add: writer_on_def)
  have len: "49 \<le> length (record_bytes tx now)" by (simp add: length_record_bytes)
  show thesis
  proof (rule writer_write [OF os1(1), of "record_bytes tx now", unfolded os1(2,3) assms(3)], goal_cases)
    case (1 os')
    then have "wal_append tx w os = Some (WalWriteFailed, w, os')"
      using len unfolding wal_append_eq [OF assms(1) fd] now by simp
    then show ?case using 1(2,4,5) by (intro that [of os' now]) simp_all
  qed
qed

text \<open>One byte in front of a record hides it.\<close>

lemma parse_hidden_record:
  "\<exists>oc. parse_record (take 1 (record_bytes tx1 t1) @ record_bytes tx2 t2) = Inl oc"
proof -
  let ?bs = "take 1 (record_bytes tx1 t1) @ record_bytes tx2 t2"
  have "take 4 (take 28 ?bs) = [0x47, 0x47, 0x44, 0x45]"
    by (simp add: record_bytes_def record_body_def header_bytes_def record_header_def kMagic_def le_bytes_def take_Cons' upt_rec)
  then have "hdr_magic (header_of_bytes (take 28 ?bs)) = le_word [0x47, 0x47, 0x44, 0x45]"
    by (simp add: header_of_bytes_def)
  also have "\<dots> \<noteq> kMagic" by (simp add: kMagic_def)
  finally have "bad_header (header_of_bytes (take 28 ?bs))" by (simp add: bad_header_def)
  then show ?thesis by (auto simp: parse_record_def Let_def)
qed

text \<open>Recovery from a log that starts with something unreadable returns the snapshot.\<close>

lemma recover_unparsable:
  assumes "parse_record log = Inl oc" and "length log + 28 < 2 ^ 63"
  shows "\<exists>os'. recover ''wal'' ''snap'' (crash_os (snapshot_bytes 0 example_book 0) log 566) =
    Some (Inr \<lparr>rec_state = example_book, wal_valid_length = 0\<rparr>, os')"
proof -
  let ?os = "crash_os (snapshot_bytes 0 example_book 0) log 566" and ?f = "\<lparr>contents = log, stable = log\<rparr>"
  have rel: "reliable 566 ?os" using crash_os_facts(5) [of 566] by simp
  have enough: "reliable (length (snapshot_bytes 0 example_book 0)) ?os"
    using reliable_mono [OF rel] by (simp add: length_snapshot_bytes example_book_facts)
  obtain os1 where load: "load_snapshot ''snap'' ?os = Some (Inr \<lparr>snap_state = example_book, snap_wal_offset = 0\<rparr>, os1)"
    "inodes os1 = inodes ?os" "names os1 = names ?os" "fds os1 = fds ?os" "later ?os os1"
    by (rule load_written_snapshot [OF crash_os_facts(1), where pad = 0 and s = example_book and off = 0])
      (use enough crash_os_facts(3) in \<open>simp_all add: example_book_facts\<close>)
  have seed: "seeded (Inr \<lparr>snap_state = example_book, snap_wal_offset = 0\<rparr>) = (example_book, 0)" by (simp add: seeded_def)
  have parse: "parse_log (drop (unat (0 :: u64)) (contents ?f)) = ([], 0, oc)" using parse_log_stop [OF assms(1)] by simp
  have "length (contents ?f) + 28 < 2 ^ 63" "unat (0 :: u64) \<le> length (contents ?f)" using assms(2) by simp_all
  note size = this
  have "(Inr \<lparr>snap_state = example_book, snap_wal_offset = 0\<rparr> :: LoadedSnapshot result) \<noteq> Inl SnapshotCorrupt" by simp
  from recover_outcome [OF load(1) this seed load(2-5) crash_os_facts(2) size(1) disjI1 [OF size(2)] parse]
  obtain result os' where r: "recover ''wal'' ''snap'' ?os = Some (result, os')"
    "\<not> (reliable 516 ?os \<and> fresh_fds ?os) \<or>
     (reliable 516 ?os \<and> unat (0 :: u64) + 28 < 2 ^ 63 \<and> fresh_fds ?os \<longrightarrow>
        result = checked_state (fold replay_tx [] example_book) (0 + of_nat 0))"
    by blast
  have "reliable 516 ?os" using reliable_mono [OF rel] by simp
  then have "result = checked_state example_book 0" using r(2) crash_os_facts(3) [of "snapshot_bytes 0 example_book 0" log 566] by simp
  then show ?thesis using r(1) by (simp add: checked_state_def has_value_def example_book_facts)
qed

definition short_os :: os where
  "short_os = (example_os 400)\<lparr>script := (\<lambda>k. if k = 2 then 1 else 400)\<rparr>"

text \<open>C33. A short write loses what is acknowledged later. When the kernel takes only part of a record, the
  append fails and the client is told so, but the part stays in the log and the writer goes on
  behind it. Here the first sale is cut after one byte; the second is appended, synced and
  acknowledged; and recovery from that log succeeds with a ledger that has neither sale.\<close>

theorem short_write_loses_later_sale:
  "\<exists>w1 os1 w2 os2 f os3.
     wal_append (example_sale 1 10) example_writer short_os = Some (WalWriteFailed, w1, os1) \<and>
     wal_append (example_sale 2 10) w1 os1 = Some (ErrNone, w2, os2) \<and>
     path_file os2 ''wal.bin'' = Some f \<and> stable f = contents f \<and>
     recover ''wal'' ''snap'' (crash_os (snapshot_bytes 0 example_book 0) (contents f) 566) =
       Some (Inr \<lparr>rec_state = example_book, wal_valid_length = 0\<rparr>, os3)"
proof -
  have on: "writer_on example_writer short_os ''wal.bin'' \<lparr>contents = [], stable = []\<rparr>"
    using example_writer_on [of 400] by (simp add: writer_on_def open_on_def short_os_def)
  have "script short_os (tick short_os + 2) = 1" by (simp add: short_os_def example_os_def)
  from one_byte_append [OF _ on this, of "example_sale 1 10"] obtain os1 t1 where
    short: "wal_append (example_sale 1 10) example_writer short_os = Some (WalWriteFailed, example_writer, os1)"
    "writer_on example_writer os1 ''wal.bin'' \<lparr>contents = take 1 (record_bytes (example_sale 1 10) t1), stable = []\<rparr>"
    "script os1 = script short_os" "tick os1 = tick short_os + 3"
    by auto
  have rel: "reliable 321 os1" using short(3,4) by (simp add: reliable_def short_os_def example_os_def)
  have wf: "wf_tx (example_sale 2 10)" by simp
  obtain r w2 os2 f where app: "wal_append (example_sale 2 10) example_writer os1 = Some (r, w2, os2)"
    "append_effect (example_sale 2 10) (fst (monotonic_now_ns os1)) example_writer
       \<lparr>contents = take 1 (record_bytes (example_sale 1 10) t1), stable = []\<rparr> r w2 f" "writer_on w2 os2 ''wal.bin'' f"
    by (rule wal_append_cases [OF wf short(2)])
  have r: "r = ErrNone" using wal_append_reliable [OF wf short(2) rel app(1)] by simp
  obtain t2 where f: "contents f = take 1 (record_bytes (example_sale 1 10) t1) @ record_bytes (example_sale 2 10) t2"
    "stable f = contents f"
    using app(2) by (auto simp: r append_effect_def example_writer_def)
  obtain oc where parse: "parse_record (contents f) = Inl oc" unfolding f(1) using parse_hidden_record by blast
  have "length (contents f) + 28 < 2 ^ 63" by (simp add: f(1) length_record_bytes)
  from recover_unparsable [OF parse this] obtain os3 where
    "recover ''wal'' ''snap'' (crash_os (snapshot_bytes 0 example_book 0) (contents f) 566) =
       Some (Inr \<lparr>rec_state = example_book, wal_valid_length = 0\<rparr>, os3)" by blast
  then show ?thesis using short(1) app(1) writer_on_path_file [OF app(3)] f(2) by (auto simp: r)
qed

section \<open>A failed sync\<close>

lemma recover_one_sale:
  assumes "wf_tx tx" and "tx_id tx = 1" and "admitted (find_account example_book) tx"
  obtains n os' where "recover ''wal'' ''snap'' (crash_os (snapshot_bytes 0 example_book 0) (log_bytes [(tx, now)]) 566) =
    Some (Inr \<lparr>rec_state = snd (apply_tx tx example_book), wal_valid_length = n\<rparr>, os')"
proof -
  let ?os = "crash_os (snapshot_bytes 0 example_book 0) (log_bytes [(tx, now)]) 566"
  have rel: "reliable (516 + 25 * length (accounts example_book)) ?os"
    using crash_os_facts(5) [of 566] by (simp add: example_book_facts)
  have len: "length (log_bytes [(tx, now)]) \<le> 321" using length_log_bytes [of "[(tx, now)]"] assms(1) by simp
  have trial: "validate_trial_balance (snd (apply_tx tx example_book)) = ErrNone"
    using book.admitted_step(4) [OF assms(3)] by (simp add: example_book_facts)
  obtain os' where "recover ''wal'' ''snap'' ?os =
      Some (checked_state (fold replay_tx (map fst [(tx, now)]) example_book) (0 + of_nat (length (log_bytes [(tx, now)]))), os')"
    by (rule recover_crashed_log [OF crash_os_facts(1) _ example_book_facts(1) _ crash_os_facts(2),
          where pad = 0 and off = 0 and pre = "[]" and rs = "[(tx, now)]" and tail = "[]"])
      (use rel len assms(1) in \<open>simp_all add: example_book_facts torn_tail_def crash_os_facts\<close>)
  then show thesis
    using trial assms(2) that by (simp add: replay_tx_def example_book_eq checked_state_def has_value_def)
qed

text \<open>C34. A failed sync does not undo the write. When \<open>fsync\<close> fails, the client is told that its transaction
  failed and the ledger does not have it; but the record is complete in the log, and if the file
  survives, recovery applies it. Here one sale is answered with \<open>WalSyncFailed\<close>, the books show
  nothing, and recovery returns a ledger that has the sale.\<close>

theorem failed_sync_is_replayed:
  "\<exists>e os os0 e' cs' os' f n os2.
     process_request id (demo_request os0) e demo_slots os = Some (e', cs', os') \<and>
     cs' 0 = Some \<lparr>comp_done = True, comp_error = WalSyncFailed\<rparr> \<and> working (store e') = example_book \<and>
     path_file os' ''wal'' = Some f \<and>
     recover ''wal'' ''snap'' (crash_os (snapshot_bytes 0 example_book 0) (contents f) 566) =
       Some (Inr \<lparr>rec_state = snd (apply_tx (example_sale 1 10) example_book), wal_valid_length = n\<rparr>, os2)"
proof -
  obtain e os1 f os0 where q: "engine_ok id (2 ^ 17) 4096 e os1 f [] [demo_request os0] 1" "config e = demo_config"
    "working (store e) = example_book" "f = \<lparr>contents = [], stable = []\<rparr>"
    by (rule demo_queued)
  define os where "os = os1\<lparr>script := (\<lambda>k. if k = tick os1 + 3 then -1 else 321)\<rparr>"
  have ok: "engine_ok id (2 ^ 17) 4096 e os f [] [demo_request os0] 1"
    using q(1) by (simp add: engine_ok_def writer_on_def open_on_def os_def)
  let ?tx = "req_tx (demo_request os0)" and ?now = "fst (monotonic_now_ns os)"
  obtain r w' os' f' e' where p: "process_request id (demo_request os0) e demo_slots os = Some (e', acked (demo_request os0) r demo_slots, os')"
    "wal_append ?tx (wal_writer e) os = Some (r, w', os')"
    "engine_ok id (2 ^ 17) 4096 e' os' f' ([] @ [idempotency_key ?tx]) [demo_request os0] 1"
    "request_effect ErrNone ?tx ?now e f r e' f'"
    by (rule process_request_appends [OF ok demo_valid demo_verdict [OF q(3)]])
  have on: "writer_on (wal_writer e) os (wal_path (config e)) f" "w_sync_mode (wal_writer e) = SyncEveryWrite"
    using ok demo_facts(4) q(2) by (simp_all add: engine_ok_def)
  have "wf_tx ?tx" by simp
  then have r: "r = WalSyncFailed"
    by (rule wal_append_cases [OF _ on(1)])
      (use p(2) on(2) record_length_bound [of ?tx] in \<open>simp add: append_result_def os_def not_less [symmetric]\<close>)
  have eff: "untouched e e'" "contents f' = log_bytes [(?tx, ?now)]" "config e' = demo_config"
    using p(4) q(2,4) by (auto simp: request_effect_def file_effect_def r log_bytes_def)
  have disk: "path_file os' ''wal'' = Some f'"
    using p(3) writer_on_path_file eff(3) demo_facts(5) by (fastforce simp: engine_ok_def)
  obtain n os2 where "recover ''wal'' ''snap'' (crash_os (snapshot_bytes 0 example_book 0) (contents f') 566) =
      Some (Inr \<lparr>rec_state = snd (apply_tx ?tx example_book), wal_valid_length = n\<rparr>, os2)"
    unfolding eff(2) by (rule recover_one_sale [OF _ _ demo_admitted]) simp_all
  moreover have "snd (apply_tx ?tx example_book) = snd (apply_tx (example_sale 1 10) example_book)"
    by (simp only: apply_tx_def demo_request_simps(2,5) example_sale_simps(1))
  ultimately show ?thesis using p(1) r q(3) eff(1) disk
    by (intro exI conjI) (assumption | simp add: acked_def untouched_def)+
qed

section \<open>Results\<close>

lemma constructible_case: "constructible (case r of Inl e \<Rightarrow> Inl e | Inr v \<Rightarrow> Inr (g v)) \<longleftrightarrow> constructible r"
  by (cases r) simp_all

lemma decode_legs_constructible: "decode_legs payload n offset acc = Some r \<Longrightarrow> constructible r"
proof (induction n arbitrary: offset acc)
  case (Suc n)
  from Suc.prems show ?case
    by (auto simp: bind_eq_Some_conv case_prod_unfold Let_def split: if_splits dest: Suc.IH)
qed auto

lemma checked_state_constructible: "constructible (checked_state s n)"
  by (simp add: checked_state_def Let_def has_value_def)

lemma load_snapshot_constructible: "pred_option (constructible \<circ> fst) (load_snapshot path os)"
  by (auto simp: load_snapshot_def read_snapshot_def read_trailer_def pred_option_def bind_eq_Some_conv Let_def
      split: prod.splits if_splits)

text \<open>C32. Every result the program returns respects the type \<open>Result<T>\<close>: the assertion of its constructor,
  that a result holding an error does not hold the code for success, cannot fail in the codec, in
  the snapshot loader or in recovery, whatever the bytes and the operating system.\<close>

theorem results_constructible:
  "pred_option constructible (encode_transaction_payload tx) \<and>
   pred_option constructible (decode_transaction_payload payload i now) \<and>
   pred_option (constructible \<circ> fst) (load_snapshot path os) \<and>
   pred_option (constructible \<circ> fst) (recover wal snap os)"
proof (intro conjI)
  show "pred_option constructible (encode_transaction_payload tx)"
    by (auto simp: encode_transaction_payload_def pred_option_def bind_eq_Some_conv Let_def split: if_splits)
  show "pred_option constructible (decode_transaction_payload payload i now)"
    by (auto simp: decode_transaction_payload_def pred_option_def bind_eq_Some_conv Let_def constructible_case
        split: if_splits) (rule decode_legs_constructible, assumption)+
  show "pred_option (constructible \<circ> fst) (load_snapshot path os)" by (rule load_snapshot_constructible)
  show "pred_option (constructible \<circ> fst) (recover wal snap os)"
    by (auto simp: recover_def replay_log_def pred_option_def bind_eq_Some_conv Let_def has_value_def
        checked_state_constructible split: prod.splits if_splits)
qed

end
